(* ===== verification/Blkcp_Prelude.thy ===== *)
theory Blkcp_Prelude
  imports Main "HOL-Library.Word"
begin

unbundle bit_operations_syntax

text \<open>
  Prelude of the blkcp development: the machine types the components share, C's checked
  arithmetic on \<open>intmax_t\<close>, bit masks, the errno values the code compares with, and the
  lemmas on lists, masks and positioned writes that carry the component proofs.

  Conventions. \<open>idx_t\<close>, \<open>intmax_t\<close>, \<open>off_t\<close> and \<open>ssize_t\<close> are signed 64-bit integers of the
  code; they are \<open>int\<close> here, and the places where the code itself guards against overflow
  (\<open>ckd_add\<close>, \<open>ckd_mul\<close>) go through \<^term>\<open>ckd_add\<close> and \<^term>\<open>ckd_mul\<close>, which write
  the 64-bit range and the wrapped result out. Buffer indices are \<open>nat\<close>. Bit masks held in a
  C \<open>int\<close> are 32-bit words.
\<close>

named_theorems cfg_simps \<open>definitions of small constants and guards of the configuration\<close>
named_theorems kern_simps \<open>effects of the kernel calls on the kernel state\<close>
named_theorems frame_simps \<open>fields an operation leaves alone\<close>

type_synonym byte = "8 word"
type_synonym mask = "32 word"

section \<open>Exit codes and errno\<close>

abbreviation (input) EXIT_SUCCESS :: int where "EXIT_SUCCESS \<equiv> 0"
abbreviation (input) EXIT_FAILURE :: int where "EXIT_FAILURE \<equiv> 1"

abbreviation (input) ENOENT :: int where "ENOENT \<equiv> 2"
abbreviation (input) EINTR :: int where "EINTR \<equiv> 4"
abbreviation (input) EIO :: int where "EIO \<equiv> 5"
abbreviation (input) EAGAIN :: int where "EAGAIN \<equiv> 11"
abbreviation (input) EEXIST :: int where "EEXIST \<equiv> 17"
abbreviation (input) EXDEV :: int where "EXDEV \<equiv> 18"
abbreviation (input) EINVAL :: int where "EINVAL \<equiv> 22"
abbreviation (input) ENOSPC :: int where "ENOSPC \<equiv> 28"
abbreviation (input) ESPIPE :: int where "ESPIPE \<equiv> 29"
abbreviation (input) ENOSYS :: int where "ENOSYS \<equiv> 38"
abbreviation (input) EOVERFLOW :: int where "EOVERFLOW \<equiv> 75"
abbreviation (input) EOPNOTSUPP :: int where "EOPNOTSUPP \<equiv> 95"

section \<open>Checked 64-bit arithmetic\<close>

definition INTMAX_MAX :: int where "INTMAX_MAX = 9223372036854775807"
definition INTMAX_MIN :: int where "INTMAX_MIN = - 9223372036854775808"

definition in_intmax :: "int \<Rightarrow> bool" where
  "in_intmax x \<longleftrightarrow> INTMAX_MIN \<le> x \<and> x \<le> INTMAX_MAX"

definition wrap64 :: "int \<Rightarrow> int" where
  "wrap64 x = (x + 9223372036854775808) mod 18446744073709551616 - 9223372036854775808"

text \<open>C23's \<open>ckd_add (&r, a, b)\<close> and \<open>ckd_mul (&r, a, b)\<close>: did it overflow, and the value stored.\<close>

definition ckd_add :: "int \<Rightarrow> int \<Rightarrow> bool \<times> int" where
  "ckd_add a b = (\<not> in_intmax (a + b), wrap64 (a + b))"

definition ckd_mul :: "int \<Rightarrow> int \<Rightarrow> bool \<times> int" where
  "ckd_mul a b = (\<not> in_intmax (a * b), wrap64 (a * b))"

lemma wrap64_id [simp]: "in_intmax x \<Longrightarrow> wrap64 x = x"
  by (simp add: in_intmax_def wrap64_def INTMAX_MIN_def INTMAX_MAX_def)

lemma wrap64_range: "in_intmax (wrap64 x)"
proof -
  have "0 \<le> (x + 9223372036854775808) mod 18446744073709551616"
    and "(x + 9223372036854775808) mod 18446744073709551616 < 18446744073709551616"
    by simp_all
  then show ?thesis by (simp add: in_intmax_def wrap64_def INTMAX_MIN_def INTMAX_MAX_def)
qed

lemma ckd_add_ok: "ckd_add a b = (False, r) \<Longrightarrow> r = a + b \<and> in_intmax r"
  by (auto simp: ckd_add_def)

lemma ckd_mul_ok: "ckd_mul a b = (False, r) \<Longrightarrow> r = a * b \<and> in_intmax r"
  by (auto simp: ckd_mul_def)

section \<open>Masks\<close>

text \<open>The C test \<open>m & c\<close> in a condition.\<close>

definition any_set :: "mask \<Rightarrow> mask \<Rightarrow> bool" where
  "any_set m c \<longleftrightarrow> m AND c \<noteq> 0"

lemma any_set_or [simp]: "any_set (m OR n) c \<longleftrightarrow> any_set m c \<or> any_set n c"
  by (simp add: any_set_def bit.conj_disj_distrib2 or_eq_0_iff)

lemma any_set_or_right: "any_set m (c OR d) \<longleftrightarrow> any_set m c \<or> any_set m d"
  by (simp add: any_set_def bit.conj_disj_distrib or_eq_0_iff)

lemma any_set_zero [simp]: "\<not> any_set 0 c" "\<not> any_set m 0"
  by (simp_all add: any_set_def)

lemma any_set_self [simp]: "any_set c c \<longleftrightarrow> c \<noteq> 0"
  by (simp add: any_set_def)

section \<open>Strings\<close>

text \<open>\<open>strcmp (a, b) == 0\<close>. It stays folded in proofs, which never need which strings are compared.\<close>

definition streq :: "string \<Rightarrow> string \<Rightarrow> bool" where "streq a b \<longleftrightarrow> a = b"

section \<open>Lists and positioned writes\<close>

text \<open>
  A file is the list of its bytes. Writing \<open>bs\<close> at offset \<open>off\<close> overwrites what is there,
  extends the file, and fills a gap before \<open>off\<close> with zero bytes, as \<open>write\<close> after \<open>lseek\<close> does.
\<close>

definition write_at :: "byte list \<Rightarrow> nat \<Rightarrow> byte list \<Rightarrow> byte list" where
  "write_at f off bs =
     take off f @ replicate (off - length f) 0 @ bs @ drop (off + length bs) f"

lemma length_write_at: "length (write_at f off bs) = max (length f) (off + length bs)"
  by (simp add: write_at_def)

lemma write_at_end [simp]: "write_at f (length f) bs = f @ bs"
  by (simp add: write_at_def)

lemma write_at_append:
  "write_at (write_at f off as) (off + length as) bs = write_at f off (as @ bs)"
proof (cases "off \<le> length f")
  case True
  then show ?thesis by (simp add: write_at_def add.assoc add.commute add.left_commute min_def)
next
  case False
  then show ?thesis by (simp add: write_at_def)
qed

lemma take_take_drop: "take m xs @ take n (drop m xs) = take (m + n) xs"
  by (simp add: take_add)

lemma length_16_cases:
  assumes "length (v :: 'a list) = 16"
  obtains a b c d e f g h i j k l m n p q where "v = [a,b,c,d,e,f,g,h,i,j,k,l,m,n,p,q]"
  using assms by (auto simp: numeral_eq_Suc length_Suc_conv)

end
