(* ===== verification/Config.thy ===== *)
theory Config
  imports Blkcp_Prelude
begin

text \<open>
  The configuration and statistics of \<open>src/src/blkcp_config.h\<close>: the status levels, the
  conversion bits, the hash and engine enumerations, the private open(2) flags that are
  carved out of the bits the platform leaves free, and the records \<open>dd_config_t\<close> and
  \<open>dd_stats_t\<close>. The platform's own open flags have the values of Linux on x86-64, the system
  of the released binaries. \<open>HAVE_BLKS\<close> is on, as the Makefile sets it when
  \<open>include/blks.h\<close> exists.
\<close>

section \<open>Enumerations\<close>

datatype dd_status_level =
  STATUS_NONE | STATUS_NOXFER | STATUS_DEFAULT | STATUS_PROGRESS | STATUS_JSON

datatype dd_hash_algo = HASH_ALGO_NONE | HASH_ALGO_SHA256 | HASH_ALGO_BLAKE3 | HASH_ALGO_BLKS

datatype blkcp_engine =
  ENGINE_AUTO | ENGINE_SYNC | ENGINE_ASYNC | ENGINE_REFLINK | ENGINE_URING | ENGINE_SPLICE

section \<open>Conversion bits\<close>

definition C_SWAB :: mask where [cfg_simps]: "C_SWAB = 1"
definition C_NOERROR :: mask where [cfg_simps]: "C_NOERROR = 2"
definition C_NOTRUNC :: mask where [cfg_simps]: "C_NOTRUNC = 4"
definition C_SYNC :: mask where [cfg_simps]: "C_SYNC = 8"
definition C_FDATASYNC :: mask where [cfg_simps]: "C_FDATASYNC = 16"
definition C_FSYNC :: mask where [cfg_simps]: "C_FSYNC = 32"
definition C_SPARSE :: mask where [cfg_simps]: "C_SPARSE = 64"
definition C_AUTOTUNE :: mask where [cfg_simps]: "C_AUTOTUNE = 128"
definition C_FORCE :: mask where [cfg_simps]: "C_FORCE = 256"
definition C_SHA256 :: mask where [cfg_simps]: "C_SHA256 = 512"
definition C_ASYNC :: mask where [cfg_simps]: "C_ASYNC = 1024"
definition C_REFLINK :: mask where [cfg_simps]: "C_REFLINK = 2048"
definition C_URING :: mask where [cfg_simps]: "C_URING = 4096"
definition C_SPLICE :: mask where [cfg_simps]: "C_SPLICE = 8192"
definition C_NOCREAT :: mask where [cfg_simps]: "C_NOCREAT = 16384"
definition C_EXCL :: mask where [cfg_simps]: "C_EXCL = 32768"
definition C_BLAKE3 :: mask where [cfg_simps]: "C_BLAKE3 = 65536"
definition C_BLKS :: mask where [cfg_simps]: "C_BLKS = 131072"

section \<open>Open flags\<close>

text \<open>The platform's flags that \<open>v_mask\<close> names, and the access and creation flags it does not name.\<close>

definition O_APPEND :: mask where [cfg_simps]: "O_APPEND = 0x400"
definition O_DIRECT :: mask where [cfg_simps]: "O_DIRECT = 0x4000"
definition O_DIRECTORY :: mask where [cfg_simps]: "O_DIRECTORY = 0x10000"
definition O_DSYNC :: mask where [cfg_simps]: "O_DSYNC = 0x1000"
definition O_NOATIME :: mask where [cfg_simps]: "O_NOATIME = 0x40000"
definition O_NOCTTY :: mask where [cfg_simps]: "O_NOCTTY = 0x100"
definition O_NOFOLLOW :: mask where [cfg_simps]: "O_NOFOLLOW = 0x20000"
definition O_NONBLOCK :: mask where [cfg_simps]: "O_NONBLOCK = 0x800"
definition O_SYNC :: mask where [cfg_simps]: "O_SYNC = 0x101000"
definition O_BINARY :: mask where [cfg_simps]: "O_BINARY = 0"
definition O_CIO :: mask where [cfg_simps]: "O_CIO = 0"
definition O_NOLINKS :: mask where [cfg_simps]: "O_NOLINKS = 0"
definition O_TEXT :: mask where [cfg_simps]: "O_TEXT = 0"
definition O_RDONLY :: mask where [cfg_simps]: "O_RDONLY = 0"
definition O_WRONLY :: mask where [cfg_simps]: "O_WRONLY = 1"
definition O_CREAT :: mask where [cfg_simps]: "O_CREAT = 0x40"
definition O_EXCL :: mask where [cfg_simps]: "O_EXCL = 0x80"
definition O_TRUNC :: mask where [cfg_simps]: "O_TRUNC = 0x200"

text \<open>\<open>FFS_MASK (x)\<close> isolates the lowest set bit; each private flag is the lowest bit still free.\<close>

definition FFS_MASK :: "mask \<Rightarrow> mask" where "FFS_MASK x = x XOR (x AND (x - 1))"

definition MULTIPLE_BITS_SET :: "mask \<Rightarrow> bool" where "MULTIPLE_BITS_SET i \<longleftrightarrow> i AND (i - 1) \<noteq> 0"

definition standard_flags :: mask where
  "standard_flags = 0 OR O_APPEND OR O_BINARY OR O_CIO OR O_DIRECT OR O_DIRECTORY OR O_DSYNC
     OR O_NOATIME OR O_NOCTTY OR O_NOFOLLOW OR O_NOLINKS OR O_NONBLOCK OR O_SYNC OR O_TEXT"

definition v_mask :: mask where "v_mask = NOT standard_flags"
definition O_FULLBLOCK :: mask where "O_FULLBLOCK = FFS_MASK v_mask"
definition v2_mask :: mask where "v2_mask = v_mask XOR O_FULLBLOCK"
definition O_NOCACHE :: mask where "O_NOCACHE = FFS_MASK v2_mask"
definition v3_mask :: mask where "v3_mask = v2_mask XOR O_NOCACHE"
definition O_COUNT_BYTES :: mask where "O_COUNT_BYTES = FFS_MASK v3_mask"
definition v4_mask :: mask where "v4_mask = v3_mask XOR O_COUNT_BYTES"
definition O_SKIP_BYTES :: mask where "O_SKIP_BYTES = FFS_MASK v4_mask"
definition v5_mask :: mask where "v5_mask = v4_mask XOR O_SKIP_BYTES"
definition O_SEEK_BYTES :: mask where "O_SEEK_BYTES = FFS_MASK v5_mask"
definition v6_mask :: mask where "v6_mask = v5_mask XOR O_SEEK_BYTES"
definition O_FORCE :: mask where "O_FORCE = FFS_MASK v6_mask"
definition v7_mask :: mask where "v7_mask = v6_mask XOR O_FORCE"
definition O_ASYNC_PIPELINE :: mask where "O_ASYNC_PIPELINE = FFS_MASK v7_mask"

definition private_flags :: "mask list" where
  "private_flags = [O_FULLBLOCK, O_NOCACHE, O_COUNT_BYTES, O_SKIP_BYTES, O_SEEK_BYTES, O_FORCE, O_ASYNC_PIPELINE]"

text \<open>The values the definitions compute to.\<close>

lemma v_mask_value: "v_mask = 0xFFE8A2FF"
  by (simp add: v_mask_def standard_flags_def cfg_simps)

lemma private_flag_values [cfg_simps]:
  "O_FULLBLOCK = 1" "O_NOCACHE = 2" "O_COUNT_BYTES = 4" "O_SKIP_BYTES = 8" "O_SEEK_BYTES = 16"
  "O_FORCE = 32" "O_ASYNC_PIPELINE = 64"
proof -
  have 1: "O_FULLBLOCK = 1" by (simp add: O_FULLBLOCK_def FFS_MASK_def v_mask_value)
  have 2: "O_NOCACHE = 2" by (simp add: O_NOCACHE_def FFS_MASK_def v2_mask_def 1 v_mask_value)
  have 3: "O_COUNT_BYTES = 4" by (simp add: O_COUNT_BYTES_def FFS_MASK_def v3_mask_def v2_mask_def 1 2 v_mask_value)
  have m4: "v4_mask = 0xFFE8A2F8" by (simp add: v4_mask_def v3_mask_def v2_mask_def 1 2 3 v_mask_value)
  have 4: "O_SKIP_BYTES = 8" by (simp add: O_SKIP_BYTES_def FFS_MASK_def m4)
  have 5: "O_SEEK_BYTES = 16" by (simp add: O_SEEK_BYTES_def FFS_MASK_def v5_mask_def m4 4)
  have m6: "v6_mask = 0xFFE8A2E0" by (simp add: v6_mask_def v5_mask_def m4 4 5)
  have 6: "O_FORCE = 32" by (simp add: O_FORCE_def FFS_MASK_def m6)
  have 7: "O_ASYNC_PIPELINE = 64" by (simp add: O_ASYNC_PIPELINE_def FFS_MASK_def v7_mask_def m6 6)
  show "O_FULLBLOCK = 1" "O_NOCACHE = 2" "O_COUNT_BYTES = 4" "O_SKIP_BYTES = 8" "O_SEEK_BYTES = 16"
    "O_FORCE = 32" "O_ASYNC_PIPELINE = 64"
    by (rule 1 2 3 4 5 6 7)+
qed

section \<open>Configuration and statistics\<close>

text \<open>
  \<open>input_blocksize\<close> and \<open>output_blocksize\<close> are macros for the one field \<open>blocksize\<close>.
  A \<open>NULL\<close> path is \<open>None\<close>.
\<close>

record dd_config =
  input_file :: "string option"
  output_file :: "string option"
  blocksize :: int
  skip_records :: int
  skip_bytes :: int
  seek_records :: int
  seek_bytes :: int
  max_records :: int
  max_bytes :: int
  bytes_to_copy :: int
  engine :: blkcp_engine
  hash_algo :: dd_hash_algo
  conversions_mask :: mask
  input_flags :: mask
  output_flags :: mask
  status_level :: dd_status_level
  json_output :: bool
  async_queue_depth :: int
  threads :: int
  i_nocache :: bool
  o_nocache :: bool
  i_nocache_eof :: bool
  o_nocache_eof :: bool
  dry_run :: bool

record dd_stats =
  r_full :: int
  r_partial :: int
  r_truncate :: int
  w_full :: int
  w_partial :: int
  w_bytes :: int
  reported_w_bytes :: int
  start_time :: int
  next_time :: int
  progress_len :: int
  progress_check_counter :: "32 word"
  last_clock_check_bytes :: int
  async_capacity :: int
  async_reader_stalls :: int
  async_writer_stalls :: int

definition conv :: "dd_config \<Rightarrow> mask \<Rightarrow> bool" where
  "conv cfg c = any_set (conversions_mask cfg) c"

text \<open>\<open>dd_init_default_config\<close>: all zero but the three fields set after the \<open>memset\<close>, the status and the thread count.\<close>

definition dd_init_default_config :: dd_config where
  "dd_init_default_config =
     \<lparr>input_file = None, output_file = None, blocksize = 0, skip_records = 0, skip_bytes = 0,
      seek_records = 0, seek_bytes = 0, max_records = INTMAX_MAX, max_bytes = 0,
      bytes_to_copy = - 1, engine = ENGINE_AUTO, hash_algo = HASH_ALGO_NONE,
      conversions_mask = 0, input_flags = 0, output_flags = 0, status_level = STATUS_DEFAULT,
      json_output = False, async_queue_depth = 0, threads = 1, i_nocache = False,
      o_nocache = False, i_nocache_eof = False, o_nocache_eof = False, dry_run = False\<rparr>"

text \<open>
  The private flags can share an \<open>int\<close> with the flags of \<open>v_mask\<close>: each is a single bit, no two
  coincide, and none is a bit of a platform flag that \<open>v_mask\<close> names. The last one, though, is the bit of
  \<open>O_CREAT\<close>, which \<open>v_mask\<close> does not name, and the first two are those of \<open>O_WRONLY\<close> and \<open>O_RDWR\<close>.
\<close>

theorem private_flags_disjoint:
  "distinct private_flags \<and>
   list_all (\<lambda>f. f \<noteq> 0 \<and> \<not> MULTIPLE_BITS_SET f \<and> f AND standard_flags = 0) private_flags \<and>
   O_ASYNC_PIPELINE = O_CREAT \<and> O_FULLBLOCK = O_WRONLY"
  by (simp add: private_flags_def cfg_simps MULTIPLE_BITS_SET_def standard_flags_def)

end
