(* ===== verification/Args.thy ===== *)
theory Args
  imports Config
begin

text \<open>
  The command line of \<open>src/src/args.c\<close>: the table of long options, \<open>parse_integer\<close> with its
  SI suffix \<open>B\<close>, one step of the option switch, the loop over what \<open>getopt_long\<close> returns, the
  positional operands and the final resolution of block size, offsets and count.

  \<open>getopt_long\<close> and gnulib's \<open>xstrtoumax\<close> are library code. The sequence of
  (option, \<open>optarg\<close>) pairs the first returns and the operands it leaves are arguments of the
  model; the second is the parameter \<open>xs\<close>, a function from the string to the error bits, the
  value stored and the offset of \<open>*suffix\<close>.
\<close>

section \<open>Option codes and the table of long options\<close>

datatype optcode =
  OPT_i | OPT_o | OPT_b | OPT_e | OPT_l | OPT_s | OPT_c | OPT_j | OPT_p | OPT_q | OPT_f | OPT_n
| OPT_h | OPT_v | OPT_AUTOTUNE | OPT_HASH | OPT_SHA256 | OPT_BLAKE3 | OPT_BLKS | OPT_DIRECT
| OPT_SPARSE | OPT_SYNC | OPT_SWAB | OPT_SKIP | OPT_SEEK | OPT_FDATASYNC | OPT_FSYNC | OPT_NOERROR
| OPT_NOTRUNC | OPT_NOCACHE | OPT_JSON | OPT_QUEUE_DEPTH | OPT_other

datatype has_arg = no_argument | required_argument | optional_argument

definition modern_long_options :: "(string \<times> has_arg \<times> optcode) list" where
  "modern_long_options =
    [(''input'', required_argument, OPT_i), (''output'', required_argument, OPT_o),
     (''block-size'', required_argument, OPT_b), (''bs'', required_argument, OPT_b),
     (''limit'', required_argument, OPT_l), (''size'', required_argument, OPT_l),
     (''bytes'', required_argument, OPT_l), (''count'', required_argument, OPT_c),
     (''engine'', required_argument, OPT_e), (''progress'', no_argument, OPT_p),
     (''json'', no_argument, OPT_JSON), (''queue-depth'', required_argument, OPT_QUEUE_DEPTH),
     (''async-queue'', required_argument, OPT_QUEUE_DEPTH), (''threads'', required_argument, OPT_j),
     (''shards'', required_argument, OPT_j), (''quiet'', no_argument, OPT_q),
     (''force'', no_argument, OPT_f), (''dry-run'', no_argument, OPT_n),
     (''autotune'', no_argument, OPT_AUTOTUNE), (''hash'', optional_argument, OPT_HASH),
     (''sha256'', no_argument, OPT_SHA256), (''blake3'', no_argument, OPT_BLAKE3),
     (''blks'', no_argument, OPT_BLKS), (''direct'', no_argument, OPT_DIRECT),
     (''nocache'', no_argument, OPT_NOCACHE), (''sparse'', no_argument, OPT_SPARSE),
     (''sync'', no_argument, OPT_SYNC), (''swab'', no_argument, OPT_SWAB),
     (''skip'', required_argument, OPT_SKIP), (''seek'', required_argument, OPT_SEEK),
     (''fdatasync'', no_argument, OPT_FDATASYNC), (''fsync'', no_argument, OPT_FSYNC),
     (''noerror'', no_argument, OPT_NOERROR), (''notrunc'', no_argument, OPT_NOTRUNC),
     (''help'', no_argument, OPT_h), (''version'', no_argument, OPT_v)]"

section \<open>parse_integer\<close>

definition LONGINT_OK :: mask where "LONGINT_OK = 0"
definition LONGINT_OVERFLOW :: mask where "LONGINT_OVERFLOW = 1"
definition LONGINT_INVALID_SUFFIX_CHAR :: mask where "LONGINT_INVALID_SUFFIX_CHAR = 2"

type_synonym xstrtoumax = "string \<Rightarrow> mask \<times> nat \<times> nat"

text \<open>The character of a C string at an offset, the terminating NUL at its end.\<close>

definition cchar :: "string \<Rightarrow> nat \<Rightarrow> char" where
  "cchar s i = (if i < length s then s ! i else CHR 0x00)"

definition parse_integer :: "xstrtoumax \<Rightarrow> string \<Rightarrow> int \<times> mask" where
  "parse_integer xs str =
     (let (e, n, suffix) = xs str;
          e = (if e AND NOT LONGINT_OVERFLOW = LONGINT_INVALID_SUFFIX_CHAR
                  \<and> cchar str suffix = CHR ''B'' \<and> 0 < suffix \<and> cchar str (suffix - 1) \<noteq> CHR ''B''
               then (if cchar str (suffix + 1) = CHR 0x00
                     then e AND NOT LONGINT_INVALID_SUFFIX_CHAR else e)
               else e)
      in if int n \<le> INTMAX_MAX then (int n, e) else (INTMAX_MAX, LONGINT_OVERFLOW))"

section \<open>One option\<close>

text \<open>How the program leaves from the parser: \<open>error (EXIT_FAILURE, errno, what, arg)\<close>, \<open>usage (status)\<close> or the version.\<close>

datatype arg_exit = ArgError int string string | Usage int | VersionExit

record scan =
  s_cfg :: dd_config
  s_blocksize :: int
  s_count :: int
  s_skip :: int
  s_seek :: int

definition arg_error :: "mask \<Rightarrow> string \<Rightarrow> string \<Rightarrow> arg_exit" where
  "arg_error invalid what arg = ArgError (if invalid = LONGINT_OVERFLOW then EOVERFLOW else 0) what arg"

text \<open>\<open>parse_integer\<close> followed by the range check of the option: the value, or the error exit.\<close>

definition checked_integer :: "xstrtoumax \<Rightarrow> (int \<Rightarrow> bool) \<Rightarrow> string \<Rightarrow> string \<Rightarrow> arg_exit + int" where
  "checked_integer xs bad what arg =
     (let (r, invalid) = parse_integer xs arg
      in if invalid \<noteq> LONGINT_OK \<or> bad r then Inl (arg_error invalid what arg) else Inr r)"

definition set_conv :: "mask \<Rightarrow> dd_config \<Rightarrow> dd_config" where
  "set_conv c cfg = cfg\<lparr>conversions_mask := conversions_mask cfg OR c\<rparr>"

definition scan_engine :: "string \<Rightarrow> dd_config \<Rightarrow> arg_exit + dd_config" where
  "scan_engine arg cfg =
     (if streq arg ''uring'' \<or> streq arg ''io_uring'' then Inr (set_conv C_URING (cfg\<lparr>engine := ENGINE_URING\<rparr>))
      else if streq arg ''async'' \<or> streq arg ''pipeline'' then Inr (set_conv C_ASYNC (cfg\<lparr>engine := ENGINE_ASYNC\<rparr>))
      else if streq arg ''reflink'' \<or> streq arg ''cfr'' \<or> streq arg ''zero-copy''
        then Inr (set_conv C_REFLINK (cfg\<lparr>engine := ENGINE_REFLINK\<rparr>))
      else if streq arg ''splice'' \<or> streq arg ''pipe'' then Inr (set_conv C_SPLICE (cfg\<lparr>engine := ENGINE_SPLICE\<rparr>))
      else if streq arg ''sync'' then Inr (cfg\<lparr>engine := ENGINE_SYNC\<rparr>)
      else if streq arg ''auto'' then Inr (cfg\<lparr>engine := ENGINE_AUTO\<rparr>)
      else Inl (ArgError 0 ''unrecognized engine'' arg))"

definition scan_hash :: "string option \<Rightarrow> dd_config \<Rightarrow> arg_exit + dd_config" where
  "scan_hash optarg cfg =
     (case optarg of
        None \<Rightarrow> Inr (set_conv C_SHA256 (cfg\<lparr>hash_algo := HASH_ALGO_SHA256\<rparr>))
      | Some a \<Rightarrow>
          if a = [] \<or> streq a ''sha256'' then Inr (set_conv C_SHA256 (cfg\<lparr>hash_algo := HASH_ALGO_SHA256\<rparr>))
          else if streq a ''blake3'' \<or> streq a ''b3'' then Inr (set_conv C_BLAKE3 (cfg\<lparr>hash_algo := HASH_ALGO_BLAKE3\<rparr>))
          else if streq a ''blks'' \<or> streq a ''blks384'' then Inr (set_conv C_BLKS (cfg\<lparr>hash_algo := HASH_ALGO_BLKS\<rparr>))
          else Inl (ArgError 0 ''unsupported hash algorithm'' a))"

text \<open>
  The body of the \<open>switch\<close>. \<open>optarg\<close> is \<open>None\<close> for \<open>NULL\<close>; \<open>getopt_long\<close> gives a string for every
  option whose table entry requires one, so the empty string that stands in for a missing
  required argument is never read.
\<close>

definition arg_of :: "string option \<Rightarrow> string" where
  "arg_of optarg = (case optarg of None \<Rightarrow> [] | Some a \<Rightarrow> a)"

fun scan_opt :: "xstrtoumax \<Rightarrow> optcode \<Rightarrow> string option \<Rightarrow> scan \<Rightarrow> arg_exit + scan" where
  "scan_opt xs OPT_i optarg s = Inr (s\<lparr>s_cfg := (s_cfg s)\<lparr>input_file := optarg\<rparr>\<rparr>)"
| "scan_opt xs OPT_o optarg s = Inr (s\<lparr>s_cfg := (s_cfg s)\<lparr>output_file := optarg\<rparr>\<rparr>)"
| "scan_opt xs OPT_b optarg s =
     (if streq (arg_of optarg) ''auto'' \<or> streq (arg_of optarg) ''autotune''
      then Inr (s\<lparr>s_cfg := set_conv C_AUTOTUNE (s_cfg s)\<rparr>)
      else map_sum id (\<lambda>r. s\<lparr>s_blocksize := r\<rparr>)
             (checked_integer xs (\<lambda>r. r \<le> 0) ''invalid block size'' (arg_of optarg)))"
| "scan_opt xs OPT_e optarg s =
     map_sum id (\<lambda>c. s\<lparr>s_cfg := c\<rparr>) (scan_engine (arg_of optarg) (s_cfg s))"
| "scan_opt xs OPT_l optarg s =
     map_sum id (\<lambda>r. s\<lparr>s_cfg := (s_cfg s)\<lparr>bytes_to_copy := r,
                          input_flags := input_flags (s_cfg s) OR O_COUNT_BYTES\<rparr>\<rparr>)
       (checked_integer xs (\<lambda>r. r < 0) ''invalid byte limit'' (arg_of optarg))"
| "scan_opt xs OPT_s optarg s =
     map_sum id (\<lambda>r. s\<lparr>s_cfg := (s_cfg s)\<lparr>bytes_to_copy := r,
                          input_flags := input_flags (s_cfg s) OR O_COUNT_BYTES\<rparr>\<rparr>)
       (checked_integer xs (\<lambda>r. r < 0) ''invalid byte limit'' (arg_of optarg))"
| "scan_opt xs OPT_c optarg s =
     map_sum id (\<lambda>r. s\<lparr>s_count := r\<rparr>)
       (checked_integer xs (\<lambda>r. r < 0) ''invalid count'' (arg_of optarg))"
| "scan_opt xs OPT_p optarg s = Inr (s\<lparr>s_cfg := (s_cfg s)\<lparr>status_level := STATUS_PROGRESS\<rparr>\<rparr>)"
| "scan_opt xs OPT_JSON optarg s =
     Inr (s\<lparr>s_cfg := (s_cfg s)\<lparr>status_level := STATUS_JSON, json_output := True\<rparr>\<rparr>)"
| "scan_opt xs OPT_QUEUE_DEPTH optarg s =
     map_sum id (\<lambda>r. s\<lparr>s_cfg := (s_cfg s)\<lparr>async_queue_depth := r\<rparr>\<rparr>)
       (checked_integer xs (\<lambda>r. r < 2 \<or> r > 1024) ''invalid queue depth'' (arg_of optarg))"
| "scan_opt xs OPT_q optarg s = Inr (s\<lparr>s_cfg := (s_cfg s)\<lparr>status_level := STATUS_NONE\<rparr>\<rparr>)"
| "scan_opt xs OPT_j optarg s =
     map_sum id (\<lambda>r. s\<lparr>s_cfg := (s_cfg s)\<lparr>threads := r\<rparr>\<rparr>)
       (checked_integer xs (\<lambda>r. r \<le> 0 \<or> r > 1024) ''invalid thread count'' (arg_of optarg))"
| "scan_opt xs OPT_f optarg s =
     Inr (s\<lparr>s_cfg := (s_cfg s)\<lparr>output_flags := output_flags (s_cfg s) OR O_FORCE\<rparr>\<rparr>)"
| "scan_opt xs OPT_n optarg s = Inr (s\<lparr>s_cfg := (s_cfg s)\<lparr>dry_run := True\<rparr>\<rparr>)"
| "scan_opt xs OPT_AUTOTUNE optarg s = Inr (s\<lparr>s_cfg := set_conv C_AUTOTUNE (s_cfg s)\<rparr>)"
| "scan_opt xs OPT_HASH optarg s = map_sum id (\<lambda>c. s\<lparr>s_cfg := c\<rparr>) (scan_hash optarg (s_cfg s))"
| "scan_opt xs OPT_SHA256 optarg s =
     Inr (s\<lparr>s_cfg := set_conv C_SHA256 ((s_cfg s)\<lparr>hash_algo := HASH_ALGO_SHA256\<rparr>)\<rparr>)"
| "scan_opt xs OPT_BLAKE3 optarg s =
     Inr (s\<lparr>s_cfg := set_conv C_BLAKE3 ((s_cfg s)\<lparr>hash_algo := HASH_ALGO_BLAKE3\<rparr>)\<rparr>)"
| "scan_opt xs OPT_BLKS optarg s =
     Inr (s\<lparr>s_cfg := set_conv C_BLKS ((s_cfg s)\<lparr>hash_algo := HASH_ALGO_BLKS\<rparr>)\<rparr>)"
| "scan_opt xs OPT_DIRECT optarg s =
     Inr (s\<lparr>s_cfg := (s_cfg s)\<lparr>input_flags := input_flags (s_cfg s) OR O_DIRECT,
                                output_flags := output_flags (s_cfg s) OR O_DIRECT\<rparr>\<rparr>)"
| "scan_opt xs OPT_NOCACHE optarg s = Inr (s\<lparr>s_cfg := (s_cfg s)\<lparr>i_nocache := True, o_nocache := True\<rparr>\<rparr>)"
| "scan_opt xs OPT_SPARSE optarg s = Inr (s\<lparr>s_cfg := set_conv C_SPARSE (s_cfg s)\<rparr>)"
| "scan_opt xs OPT_SYNC optarg s = Inr (s\<lparr>s_cfg := set_conv C_SYNC (s_cfg s)\<rparr>)"
| "scan_opt xs OPT_SWAB optarg s = Inr (s\<lparr>s_cfg := set_conv C_SWAB (s_cfg s)\<rparr>)"
| "scan_opt xs OPT_SKIP optarg s =
     map_sum id (\<lambda>r. s\<lparr>s_skip := r\<rparr>)
       (checked_integer xs (\<lambda>r. r < 0) ''invalid skip offset'' (arg_of optarg))"
| "scan_opt xs OPT_SEEK optarg s =
     map_sum id (\<lambda>r. s\<lparr>s_seek := r\<rparr>)
       (checked_integer xs (\<lambda>r. r < 0) ''invalid seek offset'' (arg_of optarg))"
| "scan_opt xs OPT_FDATASYNC optarg s = Inr (s\<lparr>s_cfg := set_conv C_FDATASYNC (s_cfg s)\<rparr>)"
| "scan_opt xs OPT_FSYNC optarg s = Inr (s\<lparr>s_cfg := set_conv C_FSYNC (s_cfg s)\<rparr>)"
| "scan_opt xs OPT_NOERROR optarg s = Inr (s\<lparr>s_cfg := set_conv C_NOERROR (s_cfg s)\<rparr>)"
| "scan_opt xs OPT_NOTRUNC optarg s = Inr (s\<lparr>s_cfg := set_conv C_NOTRUNC (s_cfg s)\<rparr>)"
| "scan_opt xs OPT_h optarg s = Inl (Usage EXIT_SUCCESS)"
| "scan_opt xs OPT_v optarg s = Inl VersionExit"
| "scan_opt xs OPT_other optarg s = Inl (Usage EXIT_FAILURE)"

section \<open>The loop, the operands and the resolution\<close>

fun scan_opts :: "xstrtoumax \<Rightarrow> (optcode \<times> string option) list \<Rightarrow> scan \<Rightarrow> arg_exit + scan" where
  "scan_opts xs [] s = Inr s"
| "scan_opts xs ((c, optarg) # os) s =
     (case scan_opt xs c optarg s of Inl x \<Rightarrow> Inl x | Inr s' \<Rightarrow> scan_opts xs os s')"

fun scan_operands :: "string list \<Rightarrow> dd_config \<Rightarrow> arg_exit + dd_config" where
  "scan_operands [] cfg = Inr cfg"
| "scan_operands (a # as) cfg =
     (if input_file cfg = None then scan_operands as (cfg\<lparr>input_file := Some a\<rparr>)
      else if output_file cfg = None then scan_operands as (cfg\<lparr>output_file := Some a\<rparr>)
      else Inl (Usage EXIT_FAILURE))"

definition DEFAULT_BLOCKSIZE :: int where "DEFAULT_BLOCKSIZE = 512"

definition resolve_count :: "int \<Rightarrow> int \<Rightarrow> dd_config \<Rightarrow> dd_config" where
  "resolve_count count bs cfg =
     (if count \<noteq> INTMAX_MAX
      then let cfg = cfg\<lparr>max_records := count\<rparr>
           in if bytes_to_copy cfg < 0
              then (case ckd_mul count bs of
                      (overflow, total_bytes) \<Rightarrow>
                        if \<not> overflow
                        then cfg\<lparr>bytes_to_copy := total_bytes, input_flags := input_flags cfg OR O_COUNT_BYTES\<rparr>
                        else cfg)
              else cfg
      else cfg)"

definition scan_resolve :: "scan \<Rightarrow> dd_config \<Rightarrow> dd_config" where
  "scan_resolve s cfg =
     (let bs = (if s_blocksize s \<le> 0 then DEFAULT_BLOCKSIZE else s_blocksize s);
          cfg = cfg\<lparr>blocksize := bs\<rparr>;
          cfg = (if 0 < s_skip s then cfg\<lparr>skip_bytes := s_skip s\<rparr> else cfg);
          cfg = (if 0 < s_seek s then cfg\<lparr>seek_bytes := s_seek s\<rparr> else cfg)
      in resolve_count (s_count s) bs cfg)"

text \<open>
  \<open>dd_scanargs\<close>. It also stores \<open>false\<close> in \<open>*warn_partial_read\<close> and \<open>*use_fullblock\<close>, on every
  path that returns.
\<close>

definition dd_scanargs ::
  "xstrtoumax \<Rightarrow> (optcode \<times> string option) list \<Rightarrow> string list \<Rightarrow> dd_config
     \<Rightarrow> arg_exit + (dd_config \<times> bool \<times> bool)" where
  "dd_scanargs xs opts operands cfg =
     (case scan_opts xs opts \<lparr>s_cfg = cfg, s_blocksize = 0, s_count = INTMAX_MAX, s_skip = 0, s_seek = 0\<rparr> of
        Inl x \<Rightarrow> Inl x
      | Inr s \<Rightarrow>
          (case scan_operands operands (s_cfg s) of
             Inl x \<Rightarrow> Inl x
           | Inr c \<Rightarrow> Inr (scan_resolve s c, False, False)))"

section \<open>parse_integer and the range checks\<close>

lemma parse_integer_bounds: "parse_integer xs str = (r, e) \<Longrightarrow> 0 \<le> r \<and> r \<le> INTMAX_MAX"
  by (auto simp: parse_integer_def Let_def INTMAX_MAX_def split: prod.splits if_splits)

lemma parse_integer_value:
  "parse_integer xs str = (r, LONGINT_OK) \<Longrightarrow> r = int (fst (snd (xs str)))"
  by (auto simp: parse_integer_def Let_def LONGINT_OK_def LONGINT_OVERFLOW_def split: prod.splits if_splits)

lemma checked_integer_Inr:
  assumes "checked_integer xs bad what arg = Inr r"
  shows "\<not> bad r" and "0 \<le> r" and "r \<le> INTMAX_MAX" and "r = int (fst (snd (xs arg)))"
proof -
  obtain r' e where p: "parse_integer xs arg = (r', e)" by fastforce
  with assms have e: "e = LONGINT_OK" and r: "r' = r" and b: "\<not> bad r"
    by (auto simp: checked_integer_def split: if_splits)
  show "\<not> bad r" by (rule b)
  show "0 \<le> r" "r \<le> INTMAX_MAX" using parse_integer_bounds [OF p] r by auto
  show "r = int (fst (snd (xs arg)))" using parse_integer_value p e r by blast
qed

lemma map_sum_Inr: "map_sum id f x = Inr y \<longleftrightarrow> (\<exists>r. x = Inr r \<and> y = f r)"
  by (cases x) auto

lemma set_conv_simps [simp]:
  "conv (set_conv c cfg) d \<longleftrightarrow> conv cfg d \<or> any_set c d"
  "engine (set_conv c cfg) = engine cfg"
  by (simp_all add: conv_def set_conv_def)

section \<open>What a successful parse guarantees\<close>

text \<open>
  The invariant of the scan: every number read is inside the range its option documents, and the
  engine that needs a mask bit has it.
\<close>

definition engine_bit :: "blkcp_engine \<Rightarrow> mask \<Rightarrow> bool" where
  "engine_bit e m \<longleftrightarrow>
     (case e of
        ENGINE_URING \<Rightarrow> any_set m C_URING
      | ENGINE_ASYNC \<Rightarrow> any_set m C_ASYNC
      | ENGINE_REFLINK \<Rightarrow> any_set m C_REFLINK
      | ENGINE_SPLICE \<Rightarrow> any_set m C_SPLICE
      | _ \<Rightarrow> True)"

lemma engine_bit_or: "engine_bit e m \<Longrightarrow> engine_bit e (m OR c)"
  by (cases e) (auto simp: engine_bit_def)

lemma engine_bit_set:
  "engine_bit ENGINE_URING (m OR C_URING)" "engine_bit ENGINE_ASYNC (m OR C_ASYNC)"
  "engine_bit ENGINE_REFLINK (m OR C_REFLINK)" "engine_bit ENGINE_SPLICE (m OR C_SPLICE)"
  "engine_bit ENGINE_SYNC m" "engine_bit ENGINE_AUTO m"
  by (simp_all add: engine_bit_def cfg_simps)

definition cfg_ranges :: "dd_config \<Rightarrow> bool" where
  "cfg_ranges cfg \<longleftrightarrow>
     - 1 \<le> bytes_to_copy cfg \<and> bytes_to_copy cfg \<le> INTMAX_MAX \<and>
     1 \<le> threads cfg \<and> threads cfg \<le> 1024 \<and>
     (async_queue_depth cfg = 0 \<or> 2 \<le> async_queue_depth cfg \<and> async_queue_depth cfg \<le> 1024) \<and>
     0 \<le> max_records cfg \<and> max_records cfg \<le> INTMAX_MAX \<and> max_bytes cfg = 0 \<and>
     skip_records cfg = 0 \<and> 0 \<le> skip_bytes cfg \<and> skip_bytes cfg \<le> INTMAX_MAX \<and>
     seek_records cfg = 0 \<and> 0 \<le> seek_bytes cfg \<and> seek_bytes cfg \<le> INTMAX_MAX \<and>
     engine_bit (engine cfg) (conversions_mask cfg)"

definition scan_wf :: "scan \<Rightarrow> bool" where
  "scan_wf s \<longleftrightarrow> cfg_ranges (s_cfg s) \<and> 0 \<le> s_blocksize s \<and> s_blocksize s \<le> INTMAX_MAX \<and>
     0 \<le> s_count s \<and> s_count s \<le> INTMAX_MAX \<and> 0 \<le> s_skip s \<and> s_skip s \<le> INTMAX_MAX \<and>
     0 \<le> s_seek s \<and> s_seek s \<le> INTMAX_MAX"

lemma cfg_ranges_set_conv: "cfg_ranges cfg \<Longrightarrow> cfg_ranges (set_conv c cfg)"
  by (simp add: cfg_ranges_def set_conv_def engine_bit_or)

lemma cfg_ranges_engine:
  "cfg_ranges cfg \<Longrightarrow> engine_bit e m \<Longrightarrow> cfg_ranges (cfg\<lparr>engine := e, conversions_mask := m\<rparr>)"
  "cfg_ranges cfg \<Longrightarrow> engine_bit e (conversions_mask cfg) \<Longrightarrow> cfg_ranges (cfg\<lparr>engine := e\<rparr>)"
  by (simp_all add: cfg_ranges_def)

lemma cfg_ranges_frame [simp]:
  "cfg_ranges (cfg\<lparr>input_file := f\<rparr>) = cfg_ranges cfg"
  "cfg_ranges (cfg\<lparr>output_file := f\<rparr>) = cfg_ranges cfg"
  "cfg_ranges (cfg\<lparr>status_level := l\<rparr>) = cfg_ranges cfg"
  "cfg_ranges (cfg\<lparr>json_output := b\<rparr>) = cfg_ranges cfg"
  "cfg_ranges (cfg\<lparr>dry_run := b\<rparr>) = cfg_ranges cfg"
  "cfg_ranges (cfg\<lparr>hash_algo := h\<rparr>) = cfg_ranges cfg"
  "cfg_ranges (cfg\<lparr>input_flags := m\<rparr>) = cfg_ranges cfg"
  "cfg_ranges (cfg\<lparr>output_flags := m\<rparr>) = cfg_ranges cfg"
  "cfg_ranges (cfg\<lparr>i_nocache := b\<rparr>) = cfg_ranges cfg"
  "cfg_ranges (cfg\<lparr>o_nocache := b\<rparr>) = cfg_ranges cfg"
  "cfg_ranges (cfg\<lparr>blocksize := n\<rparr>) = cfg_ranges cfg"
  by (simp_all add: cfg_ranges_def)

lemma scan_engine_wf: "scan_engine arg cfg = Inr cfg' \<Longrightarrow> cfg_ranges cfg \<Longrightarrow> cfg_ranges cfg'"
  by (auto simp: scan_engine_def set_conv_def cfg_ranges_engine engine_bit_set split: if_splits)

lemma scan_hash_wf: "scan_hash optarg cfg = Inr cfg' \<Longrightarrow> cfg_ranges cfg \<Longrightarrow> cfg_ranges cfg'"
  by (auto simp: scan_hash_def cfg_ranges_set_conv split: if_splits option.splits)

lemma cfg_ranges_upd:
  "cfg_ranges cfg \<Longrightarrow> 0 \<le> r \<Longrightarrow> r \<le> INTMAX_MAX \<Longrightarrow> cfg_ranges (cfg\<lparr>bytes_to_copy := r\<rparr>)"
  "cfg_ranges cfg \<Longrightarrow> 2 \<le> r \<Longrightarrow> r \<le> 1024 \<Longrightarrow> cfg_ranges (cfg\<lparr>async_queue_depth := r\<rparr>)"
  "cfg_ranges cfg \<Longrightarrow> 1 \<le> r \<Longrightarrow> r \<le> 1024 \<Longrightarrow> cfg_ranges (cfg\<lparr>threads := r\<rparr>)"
  "cfg_ranges cfg \<Longrightarrow> 0 \<le> r \<Longrightarrow> r \<le> INTMAX_MAX \<Longrightarrow> cfg_ranges (cfg\<lparr>max_records := r\<rparr>)"
  "cfg_ranges cfg \<Longrightarrow> 0 \<le> r \<Longrightarrow> r \<le> INTMAX_MAX \<Longrightarrow> cfg_ranges (cfg\<lparr>skip_bytes := r\<rparr>)"
  "cfg_ranges cfg \<Longrightarrow> 0 \<le> r \<Longrightarrow> r \<le> INTMAX_MAX \<Longrightarrow> cfg_ranges (cfg\<lparr>seek_bytes := r\<rparr>)"
  by (simp_all add: cfg_ranges_def)

text \<open>An option either changes the configuration alone, or stores one number it has checked.\<close>

lemma scan_wf_cfg: "scan_wf s \<Longrightarrow> cfg_ranges c \<Longrightarrow> scan_wf (s\<lparr>s_cfg := c\<rparr>)"
  by (simp add: scan_wf_def)

lemma scan_wf_num:
  "scan_wf s \<Longrightarrow> 0 \<le> r \<Longrightarrow> r \<le> INTMAX_MAX \<Longrightarrow> scan_wf (s\<lparr>s_blocksize := r\<rparr>)"
  "scan_wf s \<Longrightarrow> 0 \<le> r \<Longrightarrow> r \<le> INTMAX_MAX \<Longrightarrow> scan_wf (s\<lparr>s_count := r\<rparr>)"
  "scan_wf s \<Longrightarrow> 0 \<le> r \<Longrightarrow> r \<le> INTMAX_MAX \<Longrightarrow> scan_wf (s\<lparr>s_skip := r\<rparr>)"
  "scan_wf s \<Longrightarrow> 0 \<le> r \<Longrightarrow> r \<le> INTMAX_MAX \<Longrightarrow> scan_wf (s\<lparr>s_seek := r\<rparr>)"
  by (simp_all add: scan_wf_def)

lemma scan_wf_ranges: "scan_wf s \<Longrightarrow> cfg_ranges (s_cfg s)"
  by (simp add: scan_wf_def)

lemma scan_opt_wf:
  assumes opt: "scan_opt xs c optarg s = Inr s'" and wf: "scan_wf s"
  shows "scan_wf s'"
proof -
  note rng = scan_wf_ranges [OF wf]
  note [simp] = map_sum_Inr rng cfg_ranges_set_conv
  show ?thesis
    using opt
    by (cases c)
      (auto dest: checked_integer_Inr scan_engine_wf [OF _ rng] scan_hash_wf [OF _ rng]
        intro!: scan_wf_cfg [OF wf] scan_wf_num [OF wf] cfg_ranges_upd [OF rng] split: if_splits)
qed

lemma scan_opts_wf: "scan_opts xs os s = Inr s' \<Longrightarrow> scan_wf s \<Longrightarrow> scan_wf s'"
  by (induction xs os s rule: scan_opts.induct) (auto dest: scan_opt_wf split: sum.splits)

lemma scan_operands_wf: "scan_operands as cfg = Inr cfg' \<Longrightarrow> cfg_ranges cfg \<Longrightarrow> cfg_ranges cfg'"
  by (induction as cfg rule: scan_operands.induct) (auto split: if_splits)

lemma resolve_count_wf:
  "cfg_ranges cfg \<Longrightarrow> 0 \<le> n \<Longrightarrow> n \<le> INTMAX_MAX \<Longrightarrow> 0 \<le> bs \<Longrightarrow> cfg_ranges (resolve_count n bs cfg)"
  by (auto simp: resolve_count_def Let_def ckd_mul_def in_intmax_def intro!: cfg_ranges_upd split: prod.splits)

lemma scan_resolve_wf:
  assumes "scan_wf s" and "cfg_ranges cfg"
  shows "cfg_ranges (scan_resolve s cfg)"
  using assms by (auto simp: scan_resolve_def Let_def scan_wf_def DEFAULT_BLOCKSIZE_def
      intro!: resolve_count_wf cfg_ranges_upd)

lemma cfg_ranges_default: "cfg_ranges dd_init_default_config"
  by (simp add: cfg_ranges_def dd_init_default_config_def engine_bit_set INTMAX_MAX_def)

text \<open>
  C21: whatever the command line, a parse that returns leaves every number in the range the code
  documents: a positive block size, a byte limit of \<open>-1\<close> or more, 1 to 1024 threads, a queue depth of 0
  or 2 to 1024, non-negative offsets and record limit; and an engine that is named has its mask bit.
\<close>

theorem dd_scanargs_ranges:
  assumes "dd_scanargs xs opts operands dd_init_default_config = Inr (cfg, warn, fullblock)"
  shows "0 < blocksize cfg \<and> blocksize cfg \<le> INTMAX_MAX \<and> - 1 \<le> bytes_to_copy cfg \<and> 1 \<le> threads cfg \<and> threads cfg \<le> 1024 \<and>
    (async_queue_depth cfg = 0 \<or> 2 \<le> async_queue_depth cfg \<and> async_queue_depth cfg \<le> 1024) \<and>
    0 \<le> max_records cfg \<and> 0 \<le> skip_bytes cfg \<and> 0 \<le> seek_bytes cfg \<and> engine_bit (engine cfg) (conversions_mask cfg)"
proof (intro conjI)
  let ?s0 = "\<lparr>s_cfg = dd_init_default_config, s_blocksize = 0, s_count = INTMAX_MAX, s_skip = 0, s_seek = 0\<rparr>"
  obtain s c where s: "scan_opts xs opts ?s0 = Inr s" and c: "scan_operands operands (s_cfg s) = Inr c"
    and r: "cfg = scan_resolve s c"
    using assms by (auto simp: dd_scanargs_def split: sum.splits)
  have wf0: "scan_wf ?s0" by (simp add: scan_wf_def cfg_ranges_default INTMAX_MAX_def)
  have wf: "scan_wf s" using scan_opts_wf [OF s wf0] .
  have "cfg_ranges cfg"
    using scan_resolve_wf [OF wf scan_operands_wf [OF c scan_wf_ranges [OF wf]]] r by simp
  then show "- 1 \<le> bytes_to_copy cfg" "1 \<le> threads cfg" "threads cfg \<le> 1024"
    "async_queue_depth cfg = 0 \<or> 2 \<le> async_queue_depth cfg \<and> async_queue_depth cfg \<le> 1024"
    "0 \<le> max_records cfg" "0 \<le> skip_bytes cfg" "0 \<le> seek_bytes cfg" "engine_bit (engine cfg) (conversions_mask cfg)"
    by (auto simp: cfg_ranges_def)
  have "blocksize cfg = (if s_blocksize s \<le> 0 then DEFAULT_BLOCKSIZE else s_blocksize s)"
    by (simp add: r scan_resolve_def resolve_count_def Let_def split: prod.splits)
  then show "0 < blocksize cfg" "blocksize cfg \<le> INTMAX_MAX"
    using wf by (auto simp: scan_wf_def DEFAULT_BLOCKSIZE_def INTMAX_MAX_def)
qed

lemma dd_scanargs_ranges_witness:
  "0 < blocksize (scan_resolve \<lparr>s_cfg = dd_init_default_config, s_blocksize = 4096, s_count = INTMAX_MAX, s_skip = 0, s_seek = 0\<rparr>
     (dd_init_default_config\<lparr>input_file := Some ''a''\<rparr>))"
  by (rule conjunct1 [OF dd_scanargs_ranges [of "\<lambda>_. (0, 4096, 4)" "[(OPT_b, Some ''4096'')]" "[''a'']" _ False False]])
    (simp add: dd_scanargs_def checked_integer_def parse_integer_def cchar_def LONGINT_OVERFLOW_def
      LONGINT_INVALID_SUFFIX_CHAR_def LONGINT_OK_def Let_def streq_def arg_of_def INTMAX_MAX_def
      dd_init_default_config_def)

text \<open>
  A block count never wraps: with \<open>--count\<close> given and no explicit limit, either the byte limit is
  exactly count times block size, or that product does not fit 64 bits and the limit stays unset, so
  that the record limit alone bounds the copy.
\<close>

theorem resolve_count_exact:
  assumes "count \<noteq> INTMAX_MAX" "bytes_to_copy cfg < 0"
  shows "max_records (resolve_count count bs cfg) = count \<and>
    (if in_intmax (count * bs)
     then bytes_to_copy (resolve_count count bs cfg) = count * bs \<and> any_set (input_flags (resolve_count count bs cfg)) O_COUNT_BYTES
     else bytes_to_copy (resolve_count count bs cfg) = bytes_to_copy cfg)"
  using assms by (simp add: resolve_count_def ckd_mul_def Let_def cfg_simps)

lemma resolve_count_exact_witness:
  "max_records (resolve_count 3 512 dd_init_default_config) = 3"
  by (rule conjunct1 [OF resolve_count_exact]) (simp_all add: INTMAX_MAX_def dd_init_default_config_def)

text \<open>
  \<open>parse_integer\<close> never returns an out-of-range value as valid: an accepted number is the value
  \<open>xstrtoumax\<close> stored, and one above \<open>INTMAX_MAX\<close> is reported as an overflow with the largest value.
\<close>

theorem parse_integer_sound:
  "case parse_integer xs str of (r, e) \<Rightarrow>
     0 \<le> r \<and> r \<le> INTMAX_MAX \<and>
     (if int (fst (snd (xs str))) \<le> INTMAX_MAX then r = int (fst (snd (xs str)))
      else r = INTMAX_MAX \<and> e = LONGINT_OVERFLOW)"
  by (auto simp: parse_integer_def Let_def INTMAX_MAX_def split: prod.splits)

lemma scan_opts_append:
  "scan_opts xs (as @ bs) s = (case scan_opts xs as s of Inl x \<Rightarrow> Inl x | Inr s' \<Rightarrow> scan_opts xs bs s')"
  by (induction xs as s rule: scan_opts.induct) (auto split: sum.splits)

end
