(* ===== verification/TargetSafety.thy ===== *)
theory TargetSafety
  imports Config
begin

text \<open>
  The safety guard of \<open>src/src/io_engine.c\<close>: before a block device is opened for writing,
  \<open>evaluate_target_safety\<close> reads \<open>/proc/mounts\<close> and \<open>/proc/swaps\<close> and refuses a target that carries a
  mounted system path or an active swap area. \<open>stat\<close> and the contents of the two files are arguments
  of the model; \<open>fgets\<close> and \<open>sscanf\<close> are written out as the code uses them.
\<close>

section \<open>The library calls\<close>

text \<open>\<open>struct stat\<close> as far as the guard looks: is it a block device, and its device number, major and minor.\<close>

record stat_t =
  s_isblk :: bool
  st_rdev :: "nat \<times> nat"

definition major :: "nat \<times> nat \<Rightarrow> nat" where "major d = fst d"

definition isspace :: "char \<Rightarrow> bool" where
  "isspace c \<longleftrightarrow> c \<in> {CHR '' '', CHR 0x09, CHR 0x0A, CHR 0x0B, CHR 0x0C, CHR 0x0D}"

definition isdigit :: "char \<Rightarrow> bool" where
  "isdigit c \<longleftrightarrow> c \<in> set ''0123456789''"

text \<open>\<open>fgets (line, size, fp)\<close>: up to \<open>size - 1\<close> characters, through the first newline.\<close>

definition fgets :: "nat \<Rightarrow> string \<Rightarrow> string \<times> string" where
  "fgets sz s =
     (let l = takeWhile (\<lambda>c. c \<noteq> CHR 0x0A) s;
          n = min (sz - 1) (if length l < length s then length l + 1 else length l)
      in (take n s, drop n s))"

function fgets_lines :: "string \<Rightarrow> string list" where
  "fgets_lines s = (if s = [] then [] else case fgets 1024 s of (l, r) \<Rightarrow> l # fgets_lines r)"
  by pat_completeness auto
termination
proof (relation "measure length")
  fix s l r assume "s \<noteq> []" "(l, r) = fgets 1024 s"
  then show "(r, s) \<in> measure length" by (cases s) (auto simp: fgets_def Let_def)
qed simp

declare fgets_lines.simps [simp del]

text \<open>One \<open>%511s\<close> of \<open>sscanf\<close>: the token and the rest, or \<open>None\<close> at the end of the string.\<close>

definition scan_s :: "string \<Rightarrow> (string \<times> string) option" where
  "scan_s s =
     (let r = dropWhile isspace s; tok = take 511 (takeWhile (\<lambda>c. \<not> isspace c) r)
      in if r = [] then None else Some (tok, drop (length tok) r))"

definition sscanf_two :: "string \<Rightarrow> (string \<times> string) option" where
  "sscanf_two line =
     (case scan_s line of None \<Rightarrow> None
      | Some (a, r) \<Rightarrow> (case scan_s r of None \<Rightarrow> None | Some (b, _) \<Rightarrow> Some (a, b)))"

text \<open>The text after the last slash, \<open>None\<close> without one (\<open>strrchr\<close> and the increment after it).\<close>

definition after_slash :: "string \<Rightarrow> string option" where
  "after_slash p =
     (if CHR ''/'' \<in> set p then Some (rev (takeWhile (\<lambda>c. c \<noteq> CHR ''/'') (rev p))) else None)"

section \<open>The guard\<close>

definition at_nul :: "string \<Rightarrow> nat \<Rightarrow> char" where
  "at_nul s i = (if i < length s then s ! i else CHR 0x00)"

definition is_partition_of_device :: "string \<Rightarrow> string \<Rightarrow> bool" where
  "is_partition_of_device dev_name disk_name =
     (let dlen = length disk_name in
      if dlen = 0 \<or> take dlen dev_name \<noteq> disk_name then False
      else let next_c = at_nul dev_name dlen in
        if next_c = CHR 0x00 then True
        else if isdigit (disk_name ! (dlen - 1))
          then next_c = CHR ''p'' \<and> isdigit (at_nul dev_name (dlen + 1))
        else isdigit next_c)"

datatype target_safety_status =
  TARGET_SAFETY_OK | TARGET_SAFETY_MOUNTED_SYSTEM string | TARGET_SAFETY_ACTIVE_SWAP string

text \<open>The comparison of one mounted or swap device with the target, the same in both loops.\<close>

definition dev_match :: "string \<Rightarrow> stat_t \<Rightarrow> string \<Rightarrow> stat_t \<Rightarrow> bool" where
  "dev_match path target_st devpath m_st =
     (if st_rdev m_st = st_rdev target_st then True
      else if major (st_rdev m_st) = major (st_rdev target_st)
        then (case (after_slash path, after_slash devpath) of
                (Some tgt_base, Some dev_base) \<Rightarrow> is_partition_of_device dev_base tgt_base
              | _ \<Rightarrow> False)
      else False)"

definition system_paths :: "string list" where
  "system_paths = [''/'', ''/boot'', ''/boot/efi'', ''/home'']"

fun scan_mounts :: "(string \<Rightarrow> stat_t option) \<Rightarrow> string \<Rightarrow> stat_t \<Rightarrow> string list \<Rightarrow> string option" where
  "scan_mounts stat path target_st [] = None"
| "scan_mounts stat path target_st (line # ls) =
     (case sscanf_two line of
        None \<Rightarrow> scan_mounts stat path target_st ls
      | Some (devpath, mountpoint) \<Rightarrow>
          (case (if mountpoint \<in> set system_paths then stat devpath else None) of
             Some m_st \<Rightarrow>
               if s_isblk m_st \<and> dev_match path target_st devpath m_st then Some mountpoint
               else scan_mounts stat path target_st ls
           | None \<Rightarrow> scan_mounts stat path target_st ls))"

fun scan_swaps :: "(string \<Rightarrow> stat_t option) \<Rightarrow> string \<Rightarrow> stat_t \<Rightarrow> string list \<Rightarrow> string option" where
  "scan_swaps stat path target_st [] = None"
| "scan_swaps stat path target_st (line # ls) =
     (case scan_s line of
        None \<Rightarrow> scan_swaps stat path target_st ls
      | Some (swap_dev, _) \<Rightarrow>
          (case stat swap_dev of
             Some sw_st \<Rightarrow>
               if s_isblk sw_st \<and> dev_match path target_st swap_dev sw_st then Some swap_dev
               else scan_swaps stat path target_st ls
           | None \<Rightarrow> scan_swaps stat path target_st ls))"

text \<open>\<open>mounts\<close> and \<open>swaps\<close>: the contents of the two files, \<open>None\<close> if \<open>fopen\<close> fails. \<open>detail_size\<close> is positive at both calls.\<close>

definition evaluate_target_safety ::
  "(string \<Rightarrow> stat_t option) \<Rightarrow> string option \<Rightarrow> string option \<Rightarrow> nat \<Rightarrow> string option \<Rightarrow> target_safety_status" where
  "evaluate_target_safety stat mounts swaps detail_size target =
     (case target of
        None \<Rightarrow> TARGET_SAFETY_OK
      | Some path \<Rightarrow>
          (case stat path of
             None \<Rightarrow> TARGET_SAFETY_OK
           | Some target_st \<Rightarrow>
               if \<not> s_isblk target_st then TARGET_SAFETY_OK
               else
                 (case (case mounts of None \<Rightarrow> None
                        | Some m \<Rightarrow> scan_mounts stat path target_st (fgets_lines m)) of
                    Some mountpoint \<Rightarrow> TARGET_SAFETY_MOUNTED_SYSTEM (take (detail_size - 1) mountpoint)
                  | None \<Rightarrow>
                      (case (case swaps of None \<Rightarrow> None
                             | Some s \<Rightarrow> scan_swaps stat path target_st (drop 1 (fgets_lines s))) of
                         Some dev \<Rightarrow> TARGET_SAFETY_ACTIVE_SWAP (take (detail_size - 1) dev)
                       | None \<Rightarrow> TARGET_SAFETY_OK))))"

text \<open>\<open>check_target_safety\<close>: \<open>None\<close> if it returns, the refusal if it exits.\<close>

definition check_target_safety ::
  "(string \<Rightarrow> stat_t option) \<Rightarrow> string option \<Rightarrow> string option \<Rightarrow> dd_config \<Rightarrow> target_safety_status option" where
  "check_target_safety stat mounts swaps c =
     (if output_file c = None then None
      else if any_set (output_flags c) O_FORCE \<or> conv c C_FORCE then None
      else (case evaluate_target_safety stat mounts swaps 512 (output_file c) of
              TARGET_SAFETY_OK \<Rightarrow> None
            | r \<Rightarrow> Some r))"

section \<open>What the scans find\<close>

definition mount_hit :: "(string \<Rightarrow> stat_t option) \<Rightarrow> string \<Rightarrow> stat_t \<Rightarrow> string \<Rightarrow> string \<Rightarrow> bool" where
  "mount_hit stat path tgt line mountpoint \<longleftrightarrow>
     (\<exists>dev st. sscanf_two line = Some (dev, mountpoint) \<and> mountpoint \<in> set system_paths \<and>
               stat dev = Some st \<and> s_isblk st \<and> dev_match path tgt dev st)"

definition swap_hit :: "(string \<Rightarrow> stat_t option) \<Rightarrow> string \<Rightarrow> stat_t \<Rightarrow> string \<Rightarrow> string \<Rightarrow> bool" where
  "swap_hit stat path tgt line dev \<longleftrightarrow>
     (\<exists>r st. scan_s line = Some (dev, r) \<and> stat dev = Some st \<and> s_isblk st \<and> dev_match path tgt dev st)"

lemma scan_mounts_None: "scan_mounts stat p t ls = None \<longleftrightarrow> (\<forall>l \<in> set ls. \<forall>m. \<not> mount_hit stat p t l m)"
  by (induction ls) (auto simp: mount_hit_def split: option.splits if_splits)

lemma scan_mounts_Some: "scan_mounts stat p t ls = Some m \<Longrightarrow> \<exists>l \<in> set ls. mount_hit stat p t l m"
  by (induction ls) (auto simp: mount_hit_def split: option.splits if_splits)

lemma scan_swaps_None: "scan_swaps stat p t ls = None \<longleftrightarrow> (\<forall>l \<in> set ls. \<forall>d. \<not> swap_hit stat p t l d)"
  by (induction ls) (auto simp: swap_hit_def split: option.splits if_splits)

lemma scan_swaps_Some: "scan_swaps stat p t ls = Some d \<Longrightarrow> \<exists>l \<in> set ls. swap_hit stat p t l d"
  by (induction ls) (auto simp: swap_hit_def split: option.splits if_splits)

lemma scan_s_props: "scan_s s = Some (tok, r) \<Longrightarrow> length tok \<le> 511 \<and> tok \<noteq> []"
proof -
  assume h: "scan_s s = Some (tok, r)"
  then have ne: "dropWhile isspace s \<noteq> []" and t: "tok = take 511 (takeWhile (\<lambda>c. \<not> isspace c) (dropWhile isspace s))"
    by (auto simp: scan_s_def Let_def split: if_splits)
  from ne have "\<not> isspace (hd (dropWhile isspace s))" by (rule hd_dropWhile)
  with ne have "takeWhile (\<lambda>c. \<not> isspace c) (dropWhile isspace s) \<noteq> []"
    by (cases "dropWhile isspace s") auto
  with t show ?thesis by simp
qed

lemma isdigit_not_nul [simp]: "\<not> isdigit (CHR 0x00)"
  by (simp add: isdigit_def)

lemma system_paths_short: "m \<in> set system_paths \<Longrightarrow> take 511 m = m"
  by (auto simp: system_paths_def)

lemma prefix_split: "take (length a) b = a \<longleftrightarrow> (\<exists>r. b = a @ r)"
  by (metis append_eq_conv_conj append_take_drop_id)

text \<open>
  The partition test accepts exactly the disk itself and its partitions: the disk name followed by
  a digit, or by \<open>p\<close> and a digit when the disk name ends in a digit. So \<open>sdaa1\<close> is no partition of
  \<open>sda\<close>, and \<open>nvme0n10\<close> none of \<open>nvme0n1\<close>.
\<close>

theorem is_partition_of_device_iff:
  assumes "CHR 0x00 \<notin> set dev"
  shows "is_partition_of_device dev disk \<longleftrightarrow> disk \<noteq> [] \<and>
    (dev = disk \<or> (\<exists>d r. isdigit d \<and> dev = (if isdigit (last disk) then disk @ CHR ''p'' # d # r else disk @ d # r)))"
proof (cases "disk \<noteq> [] \<and> take (length disk) dev = disk")
  case False
  then show ?thesis by (auto simp: is_partition_of_device_def prefix_split split: if_splits)
next
  case True
  then obtain r where dev: "dev = disk @ r" and ne: "disk \<noteq> []" by (auto simp: prefix_split)
  have last: "disk ! (length disk - 1) = last disk" using ne by (simp add: last_conv_nth)
  show ?thesis
  proof (cases r)
    case Nil
    with ne show ?thesis by (simp add: is_partition_of_device_def dev at_nul_def)
  next
    case (Cons c r')
    then have c: "c \<noteq> CHR 0x00" using assms dev by auto
    show ?thesis
      using ne last c
      by (cases r') (auto simp: is_partition_of_device_def dev Cons at_nul_def nth_append Let_def)
  qed
qed

lemma is_partition_of_device_iff_witness:
  "is_partition_of_device ''sda1'' ''sda'' \<and> \<not> is_partition_of_device ''sdaa1'' ''sda''"
  using is_partition_of_device_iff [of "''sda1''" "''sda''"] is_partition_of_device_iff [of "''sdaa1''" "''sda''"]
  by (auto simp: isdigit_def)

text \<open>
  The guard decides exactly what it says. It lets a target through iff it has no name, cannot be
  stat'ed, is no block device, or no line of \<open>/proc/mounts\<close> names a block device that is mounted on a
  system path and matches the target, and no line of \<open>/proc/swaps\<close> after the header names a matching one.
\<close>

theorem evaluate_target_safety_ok_iff:
  "evaluate_target_safety stat mounts swaps n (Some path) = TARGET_SAFETY_OK \<longleftrightarrow>
    (case stat path of
       None \<Rightarrow> True
     | Some t \<Rightarrow> \<not> s_isblk t \<or>
         (\<forall>m. mounts = Some m \<longrightarrow> (\<forall>l \<in> set (fgets_lines m). \<forall>p. \<not> mount_hit stat path t l p)) \<and>
         (\<forall>s. swaps = Some s \<longrightarrow> (\<forall>l \<in> set (drop 1 (fgets_lines s)). \<forall>d. \<not> swap_hit stat path t l d)))"
  unfolding scan_mounts_None [symmetric] scan_swaps_None [symmetric]
  by (auto simp: evaluate_target_safety_def split: option.splits)

lemma evaluate_target_safety_ok_iff_witness:
  "evaluate_target_safety (\<lambda>_. None) (Some ''x'') None 512 (Some ''out'') = TARGET_SAFETY_OK"
  by (subst evaluate_target_safety_ok_iff) simp




end
