(* ===== verification/Kernel.thy ===== *)
theory Kernel
  imports Config
begin

text \<open>
  The system calls the engine uses on its two descriptors, standard input (the source) and
  standard output (the target): \<open>read\<close>, \<open>write\<close>, \<open>lseek\<close>, \<open>fcntl\<close>, \<open>fstat\<close>, \<open>posix_fadvise\<close> and the
  monotonic clock, with their POSIX meaning.

  What POSIX leaves open (how many bytes one call moves, which call fails and how, what the
  clock shows) is an argument of the model: the kernel state carries the answers still to come.
  Every theorem quantifies over them, so it holds for every behaviour of the kernel. A schedule
  of answers that is used up means that the calls transfer all they can.
\<close>

datatype fd = STDIN_FILENO | STDOUT_FILENO

datatype file_type = S_IFREG | S_IFBLK | S_IFCHR | S_IFIFO | S_IFDIR | S_IFOTHER

text \<open>One answer of the kernel to \<open>read\<close> or \<open>write\<close>: at most so many bytes, or an errno.\<close>

datatype ans = Xfer nat | Fail int

text \<open>What the program prints and advises, in order: the observable trace besides the output file.\<close>

datatype event =
  Diagnose int string
| Newline
| Progress int
| JsonProgress int int
| Records int int int int
| Truncated int
| XferStats int
| JsonSummary int
| HashLine "byte list"
| Fadvise fd int int
| FadviseSequential fd
| Stdout string

text \<open>
  Which completions \<open>io_uring_peek_batch_cqe\<close> or \<open>io_uring_wait_cqe\<close> finds: of all requests in flight, of the
  read or of the write alone, or none and the errno of the wait.
\<close>

datatype reap = ReapAll | ReapRead | ReapWrite | WaitFail int

text \<open>
  Answers of the rest of the platform. \<open>geom\<close> is what \<open>fstat\<close> and the block-device \<open>ioctl\<close>s say of a
  descriptor (\<open>None\<close>: the \<open>ioctl\<close> fails). \<open>rate_gt\<close> compares two transfer rates, bytes over
  nanoseconds, as the CPU's double-precision division and \<open>>\<close> do. \<open>sigs\<close> has, for each check for signals,
  how many information requests are pending and the interrupt signal, 0 for none. The other lists answer
  \<open>copy_file_range\<close>, \<open>splice\<close> out of the source and into the target, and the calls that report 0 or an
  errno (\<open>ftruncate\<close>, \<open>fdatasync\<close>, \<open>fsync\<close>, \<open>close\<close>), and \<open>sched\<close> says how far another thread gets
  each time the scheduler lets it run; \<open>mem_fits n\<close> says whether \<open>n\<close> aligned block buffers can be had, and
  \<open>reaps\<close> what each look at an \<open>io_uring\<close> finds, all of it once they are used up. \<open>files\<close> are the files
  there are before the program runs.
\<close>

record disk_file =
  f_data :: "byte list"
  f_type :: file_type
  f_seek :: bool

record geom =
  logical_sector :: "int option"
  phys_sector :: "int option"
  opt_io :: "int option"
  st_blksize :: int
  blk_bytes :: "int option"

record platform =
  in_geom :: geom
  out_geom :: geom
  cpu_avx2 :: bool
  rate_gt :: "int \<times> int \<Rightarrow> int \<times> int \<Rightarrow> bool"
  sigs :: "(nat \<times> int) list"
  cfr_ans :: "ans list"
  pipe_capacity :: "nat option"
  spl_in_ans :: "ans list"
  spl_out_ans :: "ans list"
  err_ans :: "int list"
  sched :: "nat list"
  mem_fits :: "nat \<Rightarrow> bool"
  reaps :: "reap list"
  files :: "string \<Rightarrow> disk_file option"

text \<open>\<open>stable\<close>: the content of the target that the last \<open>fsync\<close> or \<open>fdatasync\<close> brought to stable storage.\<close>

record kern =
  plat :: platform
  in_data :: "byte list"
  in_off :: nat
  in_seek :: bool
  in_type :: "file_type option"
  in_fl :: mask
  rd_ans :: "ans list"
  out_data :: "byte list"
  out_off :: nat
  out_seek :: bool
  out_type :: "file_type option"
  out_fl :: mask
  wr_ans :: "ans list"
  out_rd :: "(int + byte list) list"
  errno :: int
  clock :: "int list"
  line_len :: "dd_stats \<Rightarrow> int"
  junk :: "nat \<Rightarrow> byte"
  trace :: "event list"
  stable :: "byte list"

definition emit :: "event \<Rightarrow> kern \<Rightarrow> kern" where
  "emit e k = k\<lparr>trace := trace k @ [e]\<rparr>"

text \<open>
  A platform that answers every call in full, and the kernel with one regular file as the source and
  an empty one as the target.
\<close>

definition plat0 :: platform where
  "plat0 = \<lparr>in_geom = \<lparr>logical_sector = None, phys_sector = None, opt_io = None, st_blksize = 4096, blk_bytes = None\<rparr>,
     out_geom = \<lparr>logical_sector = None, phys_sector = None, opt_io = None, st_blksize = 4096, blk_bytes = None\<rparr>, cpu_avx2 = True,
     rate_gt = (\<lambda>r q. fst q div snd q < fst r div snd r), sigs = [], cfr_ans = [], pipe_capacity = Some 65536,
     spl_in_ans = [], spl_out_ans = [], err_ans = [], sched = [], mem_fits = (\<lambda>_. True), reaps = [], files = (\<lambda>_. None)\<rparr>"

definition file_to_file :: "byte list \<Rightarrow> kern" where
  "file_to_file data =
     \<lparr>plat = plat0, in_data = data, in_off = 0, in_seek = True, in_type = Some S_IFREG, in_fl = O_RDONLY, rd_ans = [],
      out_data = [], out_off = 0, out_seek = True, out_type = Some S_IFREG, out_fl = O_WRONLY, wr_ans = [], out_rd = [],
      errno = 0, clock = [], line_len = (\<lambda>_. 40), junk = (\<lambda>_. 0xA5), trace = [], stable = []\<rparr>"

section \<open>read\<close>

text \<open>
  \<open>read (STDIN_FILENO, buf, size)\<close>: the bytes put at the start of \<open>buf\<close>, none at end of file, or
  an errno. A call that may move \<open>n\<close> bytes moves at least one if one is there.
\<close>

definition avail :: "kern \<Rightarrow> byte list" where
  "avail k = drop (in_off k) (in_data k)"

definition take_input :: "nat \<Rightarrow> kern \<Rightarrow> byte list \<times> kern" where
  "take_input n k = (take n (avail k), k\<lparr>in_off := in_off k + length (take n (avail k))\<rparr>)"

definition sys_read0 :: "nat \<Rightarrow> kern \<Rightarrow> (int + byte list) \<times> kern" where
  "sys_read0 sz k =
     (case rd_ans k of
        [] \<Rightarrow> (case take_input sz k of (bs, k') \<Rightarrow> (Inr bs, k'))
      | Xfer n # as \<Rightarrow>
          (case take_input (min sz (max 1 n)) (k\<lparr>rd_ans := as\<rparr>) of (bs, k') \<Rightarrow> (Inr bs, k'))
      | Fail e # as \<Rightarrow> (Inl e, k\<lparr>rd_ans := as, errno := e\<rparr>))"

text \<open>
  \<open>read\<close> on standard output, which \<open>skip\<close> tries when the target does not seek: what it gives is
  open, and \<open>EBADF\<close> (9) once the answers are used up.
\<close>

definition sys_read1 :: "nat \<Rightarrow> kern \<Rightarrow> (int + byte list) \<times> kern" where
  "sys_read1 sz k =
     (case out_rd k of
        [] \<Rightarrow> (Inl 9, k\<lparr>errno := 9\<rparr>)
      | Inl e # as \<Rightarrow> (Inl e, k\<lparr>out_rd := as, errno := e\<rparr>)
      | Inr bs # as \<Rightarrow> (Inr (take sz bs), k\<lparr>out_rd := as\<rparr>))"

definition sys_read :: "fd \<Rightarrow> nat \<Rightarrow> kern \<Rightarrow> (int + byte list) \<times> kern" where
  "sys_read fd sz k = (case fd of STDIN_FILENO \<Rightarrow> sys_read0 sz k | STDOUT_FILENO \<Rightarrow> sys_read1 sz k)"

section \<open>write and lseek on the target, fcntl, clock\<close>

definition out_pos :: "kern \<Rightarrow> nat" where
  "out_pos k = (if any_set (out_fl k) O_APPEND then length (out_data k) else out_off k)"

definition put_output :: "byte list \<Rightarrow> kern \<Rightarrow> kern" where
  "put_output bs k =
     (if bs = [] then k
      else k\<lparr>out_data := write_at (out_data k) (out_pos k) bs, out_off := out_pos k + length bs\<rparr>)"

definition sys_write :: "byte list \<Rightarrow> kern \<Rightarrow> (int + nat) \<times> kern" where
  "sys_write bs k =
     (case wr_ans k of
        [] \<Rightarrow> (Inr (length bs), put_output bs k)
      | Xfer n # as \<Rightarrow> (Inr (length (take n bs)), put_output (take n bs) (k\<lparr>wr_ans := as\<rparr>))
      | Fail e # as \<Rightarrow> (Inl e, k\<lparr>wr_ans := as, errno := e\<rparr>))"

text \<open>\<open>lseek (fd, off, SEEK_CUR)\<close> with the resulting offset, or \<open>None\<close> for \<open>-1\<close> (\<open>ESPIPE\<close>, or \<open>EINVAL\<close> below 0).\<close>

definition sys_lseek :: "fd \<Rightarrow> int \<Rightarrow> kern \<Rightarrow> int option \<times> kern" where
  "sys_lseek fd off k =
     (case fd of
        STDIN_FILENO \<Rightarrow>
          (if \<not> in_seek k then (None, k\<lparr>errno := ESPIPE\<rparr>)
           else if int (in_off k) + off < 0 then (None, k\<lparr>errno := EINVAL\<rparr>)
           else (Some (int (in_off k) + off), k\<lparr>in_off := nat (int (in_off k) + off)\<rparr>))
      | STDOUT_FILENO \<Rightarrow>
          (if \<not> out_seek k then (None, k\<lparr>errno := ESPIPE\<rparr>)
           else if int (out_off k) + off < 0 then (None, k\<lparr>errno := EINVAL\<rparr>)
           else (Some (int (out_off k) + off), k\<lparr>out_off := nat (int (out_off k) + off)\<rparr>)))"

definition f_getfl :: "fd \<Rightarrow> kern \<Rightarrow> mask" where
  "f_getfl fd k = (case fd of STDIN_FILENO \<Rightarrow> in_fl k | STDOUT_FILENO \<Rightarrow> out_fl k)"

definition f_setfl :: "fd \<Rightarrow> mask \<Rightarrow> kern \<Rightarrow> kern" where
  "f_setfl fd m k = (case fd of STDIN_FILENO \<Rightarrow> k\<lparr>in_fl := m\<rparr> | STDOUT_FILENO \<Rightarrow> k\<lparr>out_fl := m\<rparr>)"

definition gethrxtime :: "kern \<Rightarrow> int \<times> kern" where
  "gethrxtime k = (case clock k of [] \<Rightarrow> (0, k) | t # ts \<Rightarrow> (t, k\<lparr>clock := ts\<rparr>))"

text \<open>The next answer of a call that reports 0 or an errno; it succeeds once the answers are used up.\<close>

definition next_err :: "kern \<Rightarrow> int \<times> kern" where
  "next_err k =
     (case err_ans (plat k) of
        [] \<Rightarrow> (0, k)
      | e # es \<Rightarrow> (e, k\<lparr>plat := (plat k)\<lparr>err_ans := es\<rparr>, errno := (if e = 0 then errno k else e)\<rparr>))"

text \<open>Memory from \<open>alignalloc\<close>: \<open>n\<close> bytes of unknown content.\<close>

definition alignalloc :: "nat \<Rightarrow> kern \<Rightarrow> byte list" where
  "alignalloc n k = map (junk k) [0..<n]"

lemma length_alignalloc [simp]: "length (alignalloc n k) = n"
  by (simp add: alignalloc_def)

section \<open>What the calls leave alone\<close>

text \<open>
  \<open>same_io k k'\<close>: the two descriptors, their data and the answers to come are those of \<open>k\<close>; only
  what the program printed, the clock and \<open>errno\<close> may differ.
\<close>

definition same_io :: "kern \<Rightarrow> kern \<Rightarrow> bool" where
  "same_io k k' \<longleftrightarrow>
     in_data k' = in_data k \<and> in_off k' = in_off k \<and> in_seek k' = in_seek k \<and> in_type k' = in_type k \<and>
     in_fl k' = in_fl k \<and> rd_ans k' = rd_ans k \<and> out_data k' = out_data k \<and> out_off k' = out_off k \<and>
     out_seek k' = out_seek k \<and> out_type k' = out_type k \<and> out_fl k' = out_fl k \<and> wr_ans k' = wr_ans k \<and>
     out_rd k' = out_rd k \<and> line_len k' = line_len k \<and> junk k' = junk k"

lemma same_io_refl [simp]: "same_io k k"
  by (simp add: same_io_def)

lemma same_io_trans [trans]: "same_io k k' \<Longrightarrow> same_io k' k'' \<Longrightarrow> same_io k k''"
  by (simp add: same_io_def)

lemma same_io_emit [simp]: "same_io k (emit e k)"
  by (simp add: same_io_def emit_def)

lemma same_io_emit_iff [simp]: "same_io k (emit e k') = same_io k k'"
  by (simp add: same_io_def emit_def)

lemma same_io_gethrxtime: "gethrxtime k = (t, k') \<Longrightarrow> same_io k k'"
  by (auto simp: gethrxtime_def same_io_def split: list.splits)

lemma next_err_frame: "next_err k = (e, k') \<Longrightarrow> same_io k k'"
  by (auto simp: next_err_def same_io_def split: list.splits)

lemma same_ioD:
  assumes "same_io k k'"
  shows "avail k' = avail k" "out_data k' = out_data k" "out_off k' = out_off k" "out_pos k' = out_pos k"
    "rd_ans k' = rd_ans k" "wr_ans k' = wr_ans k" "in_off k' = in_off k" "in_data k' = in_data k"
    "out_seek k' = out_seek k" "in_fl k' = in_fl k" "out_fl k' = out_fl k" "in_seek k' = in_seek k"
    "out_type k' = out_type k" "in_type k' = in_type k"
  using assms by (simp_all add: same_io_def avail_def out_pos_def)

text \<open>Reading and writing do not meet: what one changes of the other's side.\<close>

lemma avail_put_output [kern_simps]: "avail (put_output bs k) = avail k"
  by (simp add: avail_def put_output_def)

lemma put_output_frame [kern_simps]:
  "in_data (put_output bs k) = in_data k" "in_off (put_output bs k) = in_off k"
  "rd_ans (put_output bs k) = rd_ans k" "wr_ans (put_output bs k) = wr_ans k"
  "out_fl (put_output bs k) = out_fl k" "in_fl (put_output bs k) = in_fl k"
  "out_seek (put_output bs k) = out_seek k" "trace (put_output bs k) = trace k"
  by (simp_all add: put_output_def)

lemma out_pos_put_output [kern_simps]:
  "bs \<noteq> [] \<Longrightarrow> out_data k = pre \<Longrightarrow> out_pos k = length pre \<Longrightarrow>
     out_data (put_output bs k) = pre @ bs \<and> out_pos (put_output bs k) = length pre + length bs"
  by (auto simp: put_output_def out_pos_def)

lemma take_input_props:
  assumes "take_input n k = (bs, k')"
  shows "avail k = bs @ avail k'" and "length bs \<le> n"
    and "bs = [] \<longrightarrow> n = 0 \<or> avail k = []" and "k' = k\<lparr>in_off := in_off k + length bs\<rparr>"
proof -
  have bs: "bs = take n (avail k)" and k': "k' = k\<lparr>in_off := in_off k + length bs\<rparr>"
    using assms by (auto simp: take_input_def)
  have "avail k' = drop (length bs) (avail k)"
    by (simp add: k' avail_def add.commute)
  also have "\<dots> = drop n (avail k)"
    by (cases "n \<le> length (avail k)") (simp_all add: bs)
  finally show "avail k = bs @ avail k'" by (simp add: bs)
  show "length bs \<le> n" "bs = [] \<longrightarrow> n = 0 \<or> avail k = []" by (simp_all add: bs)
  show "k' = k\<lparr>in_off := in_off k + length bs\<rparr>" by (rule k')
qed

lemma sys_read0_cases:
  assumes "sys_read0 sz k = (r, k')"
  obtains (data) bs as where "r = Inr bs" "avail k = bs @ avail k'" "length bs \<le> sz"
      "bs = [] \<longrightarrow> sz = 0 \<or> avail k = []" "length as \<le> length (rd_ans k)"
      "k' = k\<lparr>rd_ans := as, in_off := in_off k + length bs\<rparr>"
  | (error) e as where "r = Inl e" "rd_ans k = Fail e # as" "k' = k\<lparr>rd_ans := as, errno := e\<rparr>"
proof (cases "rd_ans k")
  case Nil
  then obtain bs where t: "take_input sz k = (bs, k')" and r: "r = Inr bs"
    using assms by (auto simp: sys_read0_def split: prod.splits)
  have k': "k' = k\<lparr>rd_ans := rd_ans k, in_off := in_off k + length bs\<rparr>"
    using take_input_props(4) [OF t] by simp
  show ?thesis
    by (rule data [OF r take_input_props(1-3) [OF t] order_refl k'])
next
  case (Cons a as)
  show ?thesis
  proof (cases a)
    case (Xfer n)
    let ?k = "k\<lparr>rd_ans := as\<rparr>"
    obtain bs where t: "take_input (min sz (max 1 n)) ?k = (bs, k')" and r: "r = Inr bs"
      using assms Cons Xfer by (auto simp: sys_read0_def split: prod.splits)
    have a: "avail ?k = avail k" by (simp add: avail_def)
    have len: "length bs \<le> sz" "bs = [] \<longrightarrow> sz = 0 \<or> avail k = []"
      using take_input_props(2,3) [OF t] by (auto simp: a)
    have as: "length as \<le> length (rd_ans k)" by (simp add: Cons)
    have k': "k' = k\<lparr>rd_ans := as, in_off := in_off k + length bs\<rparr>"
      using take_input_props(4) [OF t] by simp
    show ?thesis
      by (rule data [OF r take_input_props(1) [OF t, unfolded a] len as k'])
  next
    case (Fail e)
    show ?thesis
      by (rule error [of e as]) (use assms Cons Fail in \<open>auto simp: sys_read0_def\<close>)
  qed
qed

section \<open>The target as a stream\<close>

text \<open>
  The \<^emph>\<open>view\<close> of the target: its bytes up to the current offset, a hole reading as zeros; and what
  lies \<^emph>\<open>beyond\<close> the offset. \<open>extends bs k k'\<close>: the call put exactly \<open>bs\<close> at the end of the view,
  over whatever lay there, and left the source and the descriptors' flags alone.
\<close>

definition view :: "kern \<Rightarrow> byte list" where
  "view k = take (out_pos k) (out_data k) @ replicate (out_pos k - length (out_data k)) 0"

definition beyond :: "kern \<Rightarrow> byte list" where
  "beyond k = drop (out_pos k) (out_data k)"

definition input_same :: "kern \<Rightarrow> kern \<Rightarrow> bool" where
  "input_same k k' \<longleftrightarrow> in_data k' = in_data k \<and> in_off k' = in_off k \<and> in_seek k' = in_seek k \<and>
     in_type k' = in_type k \<and> in_fl k' = in_fl k \<and> rd_ans k' = rd_ans k"

definition extends :: "byte list \<Rightarrow> kern \<Rightarrow> kern \<Rightarrow> bool" where
  "extends bs k k' \<longleftrightarrow> view k' = view k @ bs \<and> beyond k' = drop (length bs) (beyond k) \<and>
     out_fl k' = out_fl k \<and> out_seek k' = out_seek k \<and> out_type k' = out_type k \<and> input_same k k'"

lemma length_view [simp]: "length (view k) = out_pos k"
  by (simp add: view_def)

lemma input_same_refl [simp]: "input_same k k"
  by (simp add: input_same_def)

lemma input_same_trans: "input_same k k' \<Longrightarrow> input_same k' k'' \<Longrightarrow> input_same k k''"
  by (simp add: input_same_def)

lemma input_sameD: "input_same k k' \<Longrightarrow> avail k' = avail k" "input_same k k' \<Longrightarrow> rd_ans k' = rd_ans k"
  by (simp_all add: input_same_def avail_def)

lemma extends_refl [simp]: "extends [] k k"
  by (simp add: extends_def)

lemma extends_trans: "extends bs k k' \<Longrightarrow> extends cs k' k'' \<Longrightarrow> extends (bs @ cs) k k''"
  by (auto simp: extends_def add.commute intro: input_same_trans)

lemma extends_cong:
  assumes "out_data k' = out_data k" "out_off k' = out_off k" "out_fl k' = out_fl k" "out_seek k' = out_seek k"
    "out_type k' = out_type k" "input_same k k'"
  shows "extends [] k k'"
  using assms by (simp add: extends_def view_def beyond_def out_pos_def)

lemma extends_same_io: "same_io k k' \<Longrightarrow> extends [] k k'"
  by (rule extends_cong) (simp_all add: same_io_def input_same_def)

lemma extendsD:
  assumes "extends bs k k'"
  shows "view k' = view k @ bs" "beyond k' = drop (length bs) (beyond k)" "out_fl k' = out_fl k"
    "out_seek k' = out_seek k" "out_type k' = out_type k" "input_same k k'" "out_pos k' = out_pos k + length bs"
    "avail k' = avail k" "rd_ans k' = rd_ans k"
proof -
  show v: "view k' = view k @ bs" using assms by (simp add: extends_def)
  show "out_pos k' = out_pos k + length bs" using arg_cong [OF v, of length] by simp
qed (use assms in \<open>auto simp: extends_def dest: input_sameD\<close>)

text \<open>
  \<open>solid k\<close>: there is no hole at the end, the offset is within the file. \<open>puts\<close> is \<open>extends\<close> by real
  writes, after which there is none.
\<close>

definition solid :: "kern \<Rightarrow> bool" where
  "solid k \<longleftrightarrow> out_pos k \<le> length (out_data k)"

definition puts :: "byte list \<Rightarrow> kern \<Rightarrow> kern \<Rightarrow> bool" where
  "puts bs k k' \<longleftrightarrow> extends bs k k' \<and> (bs \<noteq> [] \<or> solid k \<longrightarrow> solid k')"

lemma putsD: "puts bs k k' \<Longrightarrow> extends bs k k'" "puts bs k k' \<Longrightarrow> bs \<noteq> [] \<or> solid k \<Longrightarrow> solid k'"
  by (simp_all add: puts_def)

lemma puts_refl [simp]: "puts [] k k"
  by (simp add: puts_def)

lemma puts_trans: "puts bs k k' \<Longrightarrow> puts cs k' k'' \<Longrightarrow> puts (bs @ cs) k k''"
  by (auto simp: puts_def intro: extends_trans)

lemma solid_data: "solid k \<Longrightarrow> out_data k = view k @ beyond k"
  by (simp add: solid_def view_def beyond_def)

lemma puts_cong:
  assumes "out_data k' = out_data k" "out_off k' = out_off k" "out_fl k' = out_fl k" "out_seek k' = out_seek k"
    "out_type k' = out_type k" "input_same k k'"
  shows "puts [] k k'"
  using assms by (simp add: puts_def extends_cong solid_def out_pos_def)

lemma puts_same_io: "same_io k k' \<Longrightarrow> puts [] k k'"
  by (rule puts_cong) (simp_all add: same_io_def input_same_def)

lemma puts_put_output: "puts bs k (put_output bs k)"
proof (cases "bs = []")
  case False
  let ?p = "out_pos k" and ?f = "out_data k"
  let ?k = "put_output bs k"
  have d: "out_data ?k = take ?p ?f @ replicate (?p - length ?f) 0 @ bs @ drop (?p + length bs) ?f"
    using False by (simp add: put_output_def write_at_def)
  have pos: "out_pos ?k = ?p + length bs"
    using False by (auto simp: put_output_def out_pos_def length_write_at)
  have l: "length (take ?p ?f @ replicate (?p - length ?f) (0 :: byte) @ bs) = ?p + length bs" by simp
  have "take (out_pos ?k) (out_data ?k) = take ?p ?f @ replicate (?p - length ?f) 0 @ bs"
    and "drop (out_pos ?k) (out_data ?k) = drop (?p + length bs) ?f"
    using append_eq_conv_conj [of "take ?p ?f @ replicate (?p - length ?f) 0 @ bs" "drop (?p + length bs) ?f" "out_data ?k"]
    by (simp_all only: d pos l append.assoc simp_thms)
  moreover have "out_pos ?k \<le> length (out_data ?k)"
    using l by (simp add: d pos)
  ultimately have "extends bs k ?k"
    by (simp add: extends_def view_def beyond_def kern_simps input_same_def add.commute)
      (simp add: put_output_def)
  then show ?thesis
    using l by (simp add: puts_def solid_def d pos)
qed (simp add: put_output_def)

lemma sys_write_puts:
  assumes "sys_write bs k = (r, k')"
  shows "(\<exists>n \<le> length bs. r = Inr n \<and> puts (take n bs) k k') \<or> (\<exists>e. r = Inl e \<and> puts [] k k' \<and> Fail e \<in> set (wr_ans k))"
proof (cases "wr_ans k")
  case Nil
  then show ?thesis using assms puts_put_output [of bs k] by (auto simp: sys_write_def)
next
  case (Cons a as)
  have s: "puts [] k (k\<lparr>wr_ans := as\<rparr>)" "puts [] k (k\<lparr>wr_ans := as, errno := e\<rparr>)" for e
    by (rule puts_cong; simp add: input_same_def)+
  show ?thesis
  proof (cases a)
    case (Xfer n)
    then have "r = Inr (min (length bs) n)" "puts (take n bs) k k'"
      using assms Cons puts_trans [OF s(1) puts_put_output [of "take n bs"]] by (auto simp: sys_write_def)
    then show ?thesis by (auto simp: min_def)
  next
    case (Fail e)
    then show ?thesis using assms Cons s(2) by (auto simp: sys_write_def)
  qed
qed

lemma out_pos_fl: "any_set f O_APPEND = any_set (out_fl k) O_APPEND \<Longrightarrow> out_pos (k\<lparr>out_fl := f\<rparr>) = out_pos k"
  by (simp add: out_pos_def)

lemma view_fl:
  assumes "any_set f O_APPEND = any_set (out_fl k) O_APPEND"
  shows "view (k\<lparr>out_fl := f\<rparr>) = view k" "beyond (k\<lparr>out_fl := f\<rparr>) = beyond k"
    "solid (k\<lparr>out_fl := f\<rparr>) = solid k"
  using assms by (simp_all add: solid_def view_def beyond_def out_pos_fl)

lemma undirect_append: "any_set (f AND NOT O_DIRECT) O_APPEND = any_set f O_APPEND"
proof -
  have "(f AND NOT O_DIRECT) AND O_APPEND = f AND O_APPEND"
    by (simp add: O_DIRECT_def O_APPEND_def and.assoc)
  then show ?thesis by (simp add: any_set_def)
qed

text \<open>\<open>consumes bs k k'\<close>: the call took exactly \<open>bs\<close> from the source and left the target alone.\<close>

definition consumes :: "byte list \<Rightarrow> kern \<Rightarrow> kern \<Rightarrow> bool" where
  "consumes bs k k' \<longleftrightarrow> avail k = bs @ avail k' \<and> in_off k' = in_off k + length bs \<and> in_data k' = in_data k \<and>
     in_seek k' = in_seek k \<and> in_type k' = in_type k \<and> in_fl k' = in_fl k \<and> out_data k' = out_data k \<and>
     out_off k' = out_off k \<and> out_fl k' = out_fl k \<and> out_seek k' = out_seek k \<and> out_type k' = out_type k \<and>
     wr_ans k' = wr_ans k"

lemma consumes_refl [simp]: "consumes [] k k"
  by (simp add: consumes_def)

lemma consumes_trans: "consumes bs k k' \<Longrightarrow> consumes cs k' k'' \<Longrightarrow> consumes (bs @ cs) k k''"
  by (simp add: consumes_def)

lemma consumes_same_io: "same_io k k' \<Longrightarrow> consumes [] k k'"
  by (auto dest: same_ioD simp: consumes_def)

lemma consumesD:
  assumes "consumes bs k k'"
  shows "avail k = bs @ avail k'" "view k' = view k" "beyond k' = beyond k" "out_fl k' = out_fl k"
    "out_pos k' = out_pos k" "out_seek k' = out_seek k" "out_type k' = out_type k" "wr_ans k' = wr_ans k"
    "in_seek k' = in_seek k" "in_type k' = in_type k" "in_fl k' = in_fl k"
  using assms by (simp_all add: consumes_def view_def beyond_def out_pos_def)

lemma sys_read0_consumes:
  assumes "sys_read0 sz k = (r, k')"
  shows "(\<exists>bs. r = Inr bs \<and> consumes bs k k' \<and> length bs \<le> sz \<and> (bs = [] \<longrightarrow> sz = 0 \<or> avail k = [])) \<or>
         (\<exists>e. r = Inl e \<and> consumes [] k k' \<and> Fail e \<in> set (rd_ans k))"
  using assms
proof (cases rule: sys_read0_cases)
  case (data bs as)
  then show ?thesis by (auto simp: consumes_def)
next
  case (error e as)
  then show ?thesis by (auto simp: consumes_def avail_def)
qed

text \<open>A failed call consumes an answer, so an error can be repeated only finitely often.\<close>

lemma sys_read0_rd_ans: "sys_read0 sz k = (r, k') \<Longrightarrow> set (rd_ans k') \<subseteq> set (rd_ans k)"
  by (auto simp: sys_read0_def take_input_def split: list.splits ans.splits)

end
