(* ===== verification/Context.thy ===== *)
theory Context
  imports Kernel
begin

text \<open>
  The runtime context \<open>dd_context_t\<close> and the helpers every driver shares: diagnostics, the
  throttled progress report and the final report of \<open>src/src/stats.c\<close>, the buffers, the input
  offset and the cache advice of \<open>src/src/io_engine.c\<close>.

  The digest libraries (OpenSSL EVP, BLAKE3, BLKS-384) are not part of the repository's C code:
  they are the parameter \<open>hash_api\<close> over an arbitrary type of hasher states. \<open>active_ctx\<close> is the
  one context throughout \<open>dd_execute\<close>, so it is not a separate variable.
\<close>

section \<open>The context\<close>

record 'h hash_api =
  EVP_new :: "'h option"
  EVP_update :: "'h \<Rightarrow> byte list \<Rightarrow> 'h"
  EVP_final :: "'h \<Rightarrow> byte list"
  blake3_init :: 'h
  blake3_update :: "'h \<Rightarrow> byte list \<Rightarrow> 'h"
  blake3_finalize :: "'h \<Rightarrow> byte list"
  blks_new :: "'h option"
  blks_update :: "'h \<Rightarrow> byte list \<Rightarrow> 'h"
  blks_finalize :: "'h \<Rightarrow> byte list"

text \<open>
  \<open>ibuf\<close> and \<open>obuf\<close>: \<open>NULL\<close>, an allocation with its content, or, for \<open>obuf\<close>, the same pointer as
  \<open>ibuf\<close>. \<open>iread_fnc\<close> says whether the pointer is set; \<open>main\<close> only ever sets it to
  \<open>dd_iread_fullblock\<close>.
\<close>

datatype obuf_ptr = ONull | OShared | OOwn "byte list"

record 'h dd_context =
  cfg :: dd_config
  stats :: dd_stats
  page_size :: nat
  ibuf :: "byte list option"
  obuf :: obuf_ptr
  oc :: nat
  input_seekable :: bool
  input_offset :: int
  final_op_was_seek :: bool
  warn_partial_read :: bool
  iread_fnc :: bool
  i_nocache_pending :: int
  o_nocache_pending :: int
  ctx_hash_algo :: dd_hash_algo
  sha_evp_ctx :: "'h option"
  b3_hasher :: 'h
  blks_hasher :: "'h option"
  sha_digest :: "byte list"
  sha_computed :: bool
  total_input_size :: int

abbreviation "bsize ctx \<equiv> blocksize (cfg ctx)"
abbreviation "bs_nat ctx \<equiv> nat (blocksize (cfg ctx))"

definition stats0 :: dd_stats where
  "stats0 = \<lparr>r_full = 0, r_partial = 0, r_truncate = 0, w_full = 0, w_partial = 0, w_bytes = 0,
     reported_w_bytes = 0, start_time = 0, next_time = 0, progress_len = 0, progress_check_counter = 0,
     last_clock_check_bytes = 0, async_capacity = 0, async_reader_stalls = 0, async_writer_stalls = 0\<rparr>"

text \<open>The \<open>static dd_context_t ctx\<close> of \<open>main\<close>: zero but for the page size and the configuration.\<close>

definition ctx0 :: "'h \<Rightarrow> nat \<Rightarrow> dd_config \<Rightarrow> 'h dd_context" where
  "ctx0 h page c =
     \<lparr>cfg = c, stats = stats0, page_size = page, ibuf = None, obuf = ONull, oc = 0,
      input_seekable = False, input_offset = 0, final_op_was_seek = False, warn_partial_read = False,
      iread_fnc = False, i_nocache_pending = 0, o_nocache_pending = 0, ctx_hash_algo = HASH_ALGO_NONE,
      sha_evp_ctx = None, b3_hasher = h, blks_hasher = None, sha_digest = [], sha_computed = False,
      total_input_size = 0\<rparr>"

text \<open>The operations below act on the context and the kernel together.\<close>

type_synonym 'h st = "'h dd_context \<times> kern"

text \<open>
  A digest library that remembers what it was fed: the model to instantiate \<open>hash_api\<close> with. A
  streaming digest does not depend on how its input is cut (\<open>hash_stream\<close>).
\<close>

definition list_hash :: "byte list hash_api" where
  "list_hash = \<lparr>EVP_new = Some [], EVP_update = (@), EVP_final = id, blake3_init = [], blake3_update = (@),
     blake3_finalize = id, blks_new = Some [], blks_update = (@), blks_finalize = id\<rparr>"

definition hash_stream :: "'h hash_api \<Rightarrow> bool" where
  "hash_stream H \<longleftrightarrow> (\<forall>h a b. EVP_update H h (a @ b) = EVP_update H (EVP_update H h a) b) \<and>
     (\<forall>h a b. blake3_update H h (a @ b) = blake3_update H (blake3_update H h a) b) \<and>
     (\<forall>h a b. blks_update H h (a @ b) = blks_update H (blks_update H h a) b) \<and>
     (\<forall>h. EVP_update H h [] = h \<and> blake3_update H h [] = h \<and> blks_update H h [] = h)"

lemma hash_stream_list_hash: "hash_stream list_hash"
  by (simp add: hash_stream_def list_hash_def)

section \<open>Diagnostics and reports\<close>

definition clear_progress :: "'h st \<Rightarrow> 'h st" where
  "clear_progress s =
     (case s of (ctx, k) \<Rightarrow>
        if 0 < progress_len (stats ctx)
        then (ctx\<lparr>stats := (stats ctx)\<lparr>progress_len := 0\<rparr>\<rparr>, emit Newline k)
        else (ctx, k))"

definition dd_diagnose :: "int \<Rightarrow> string \<Rightarrow> 'h st \<Rightarrow> 'h st" where
  "dd_diagnose errnum msg s =
     (case clear_progress s of (ctx, k) \<Rightarrow> (ctx, emit (Diagnose errnum msg) k))"

definition is_json :: "dd_config \<Rightarrow> bool" where
  "is_json c \<longleftrightarrow> json_output c \<or> status_level c = STATUS_JSON"

text \<open>The length \<open>fprintf\<close> reports for the progress line is the answer \<open>line_len\<close> of the environment.\<close>

definition dd_check_progress :: "'h st \<Rightarrow> 'h st" where
  "dd_check_progress s =
     (case s of (ctx, k) \<Rightarrow>
        let is_text = (status_level (cfg ctx) = STATUS_PROGRESS \<and> \<not> is_json (cfg ctx)) in
        if \<not> is_json (cfg ctx) \<and> \<not> is_text then (ctx, k)
        else
          let c = progress_check_counter (stats ctx) + 1;
              ctx = ctx\<lparr>stats := (stats ctx)\<lparr>progress_check_counter := c\<rparr>\<rparr>
          in if c AND 63 \<noteq> 0 \<and> w_bytes (stats ctx) - last_clock_check_bytes (stats ctx) < 65536
             then (ctx, k)
             else
               let ctx = ctx\<lparr>stats := (stats ctx)\<lparr>last_clock_check_bytes := w_bytes (stats ctx)\<rparr>\<rparr>;
                   (now, k) = gethrxtime k
               in if next_time (stats ctx) \<le> now
                  then (if is_json (cfg ctx)
                        then (ctx\<lparr>stats := (stats ctx)\<lparr>next_time := now + 1000000000\<rparr>\<rparr>,
                              emit (JsonProgress (if 0 < bytes_to_copy (cfg ctx) then bytes_to_copy (cfg ctx)
                                                  else total_input_size ctx) now) k)
                        else (ctx\<lparr>stats := (stats ctx)\<lparr>progress_len := line_len k (stats ctx),
                                                      next_time := now + 1000000000\<rparr>\<rparr>,
                              emit (Progress (w_bytes (stats ctx))) k))
                  else (ctx, k))"

definition dd_print_stats :: "'h st \<Rightarrow> 'h st" where
  "dd_print_stats s =
     (case s of (ctx, k) \<Rightarrow>
        if is_json (cfg ctx) then
          (case gethrxtime k of (now, k) \<Rightarrow> (ctx, emit (JsonSummary (w_bytes (stats ctx))) k))
        else
          let (ctx, k) =
                (if status_level (cfg ctx) \<noteq> STATUS_NONE then
                   let (ctx, k) = clear_progress (ctx, k);
                       k = emit (Records (r_full (stats ctx)) (r_partial (stats ctx))
                                         (w_full (stats ctx)) (w_partial (stats ctx))) k;
                       k = (if r_truncate (stats ctx) \<noteq> 0 then emit (Truncated (r_truncate (stats ctx))) k else k);
                       k = (if status_level (cfg ctx) \<noteq> STATUS_NOXFER
                            then emit (XferStats (w_bytes (stats ctx))) (snd (gethrxtime k)) else k)
                   in (ctx, k)
                 else (ctx, k))
          in (ctx, if sha_computed ctx then emit (HashLine (sha_digest ctx)) k else k))"

section \<open>Buffers\<close>

definition round_up_page :: "nat \<Rightarrow> nat \<Rightarrow> nat" where
  "round_up_page page n =
     (if 0 < page \<and> n mod page \<noteq> 0 then ((n + page - 1) div page) * page else n)"

definition tuned_bs :: "'h dd_context \<Rightarrow> nat" where
  "tuned_bs ctx =
     (let bs = bs_nat ctx
      in if conv (cfg ctx) C_AUTOTUNE \<and> bs < 4 * 1024 * 1024 then 4 * 1024 * 1024 else bs)"

definition dd_alloc_ibuf :: "kern \<Rightarrow> 'h dd_context \<Rightarrow> 'h dd_context" where
  "dd_alloc_ibuf k ctx =
     (if ibuf ctx \<noteq> None then ctx
      else ctx\<lparr>ibuf := Some (alignalloc (round_up_page (page_size ctx) (tuned_bs ctx + 2)) k)\<rparr>)"

definition dd_alloc_obuf :: "kern \<Rightarrow> 'h dd_context \<Rightarrow> 'h dd_context" where
  "dd_alloc_obuf k ctx =
     (if obuf ctx \<noteq> ONull then ctx
      else if conv (cfg ctx) C_SWAB
        then ctx\<lparr>obuf := OOwn (alignalloc (round_up_page (page_size ctx) (tuned_bs ctx + 2)) k)\<rparr>
      else if ibuf ctx \<noteq> None then ctx\<lparr>obuf := OShared\<rparr>
      else ctx\<lparr>obuf := OOwn (alignalloc (round_up_page (page_size ctx) (tuned_bs ctx)) k)\<rparr>)"

definition ibuf_bytes :: "'h dd_context \<Rightarrow> byte list" where
  "ibuf_bytes ctx = (case ibuf ctx of None \<Rightarrow> [] | Some b \<Rightarrow> b)"

definition obuf_bytes :: "'h dd_context \<Rightarrow> byte list" where
  "obuf_bytes ctx = (case obuf ctx of ONull \<Rightarrow> [] | OShared \<Rightarrow> ibuf_bytes ctx | OOwn b \<Rightarrow> b)"

definition set_obuf :: "byte list \<Rightarrow> 'h dd_context \<Rightarrow> 'h dd_context" where
  "set_obuf b ctx = (case obuf ctx of OShared \<Rightarrow> ctx\<lparr>ibuf := Some b\<rparr> | _ \<Rightarrow> ctx\<lparr>obuf := OOwn b\<rparr>)"

text \<open>\<open>memcpy (buf + off, src, len)\<close> and \<open>memset\<close> inside a buffer.\<close>

definition blit :: "byte list \<Rightarrow> nat \<Rightarrow> byte list \<Rightarrow> byte list" where
  "blit buf off src = take off buf @ src @ drop (off + length src) buf"

lemma length_blit [simp]: "off + length src \<le> length buf \<Longrightarrow> length (blit buf off src) = length buf"
  by (simp add: blit_def)

lemma take_blit0 [simp]: "take (length src) (blit buf 0 src) = src"
  by (simp add: blit_def)

section \<open>Input offset and cache advice\<close>

definition dd_advance_input_offset :: "int \<Rightarrow> 'h dd_context \<Rightarrow> 'h dd_context" where
  "dd_advance_input_offset nread ctx =
     (if 0 \<le> input_offset ctx
      then (case ckd_add (input_offset ctx) nread of
              (overflow, r) \<Rightarrow> ctx\<lparr>input_offset := (if overflow then - 1 else r)\<rparr>)
      else ctx)"

definition dd_invalidate_cache :: "fd \<Rightarrow> int \<Rightarrow> kern \<Rightarrow> kern" where
  "dd_invalidate_cache fd len k =
     (case sys_lseek fd 0 k of
        (Some pos, k) \<Rightarrow> emit (Fadvise fd (if len < pos then pos - len else 0) len) k
      | (None, k) \<Rightarrow> k)"

definition NOCACHE_CHUNK_THRESHOLD :: int where "NOCACHE_CHUNK_THRESHOLD = 32 * 1024 * 1024"

text \<open>The callers always pass a \<open>pending\<close> counter; its new value is returned.\<close>

definition dd_invalidate_cache_chunked :: "fd \<Rightarrow> int \<Rightarrow> int \<Rightarrow> bool \<Rightarrow> kern \<Rightarrow> int \<times> kern" where
  "dd_invalidate_cache_chunked fd bytes pending force_flush k =
     (let to_evict = pending + bytes in
      if NOCACHE_CHUNK_THRESHOLD \<le> to_evict \<or> force_flush \<and> 0 < to_evict
      then (case sys_lseek fd 0 k of
              (Some pos, k) \<Rightarrow> (0, emit (Fadvise fd (if to_evict < pos then pos - to_evict else 0) to_evict) k)
            | (None, k) \<Rightarrow> (0, k))
      else (to_evict, k))"

section \<open>What these helpers leave alone\<close>

text \<open>
  \<open>same_data ctx ctx'\<close>: the configuration, the buffers, the hashers and the counters of the transfer
  are those of \<open>ctx\<close>; only the bookkeeping of the reports may differ.
\<close>

definition counters :: "dd_stats \<Rightarrow> int \<times> int \<times> int \<times> int \<times> int" where
  "counters s = (r_full s, r_partial s, w_full s, w_partial s, w_bytes s)"

definition same_data :: "'h dd_context \<Rightarrow> 'h dd_context \<Rightarrow> bool" where
  "same_data ctx ctx' \<longleftrightarrow> ctx' = ctx\<lparr>stats := stats ctx'\<rparr> \<and> counters (stats ctx') = counters (stats ctx)"

lemma same_data_refl [simp]: "same_data ctx ctx"
  by (simp add: same_data_def)

lemma same_data_trans [trans]: "same_data a b \<Longrightarrow> same_data b c \<Longrightarrow> same_data a c"
  unfolding same_data_def by (metis dd_context.update_convs(2) dd_context.surjective)

lemma same_dataI: "counters s = counters (stats ctx) \<Longrightarrow> same_data ctx (ctx\<lparr>stats := s\<rparr>)"
  by (simp add: same_data_def)

lemma same_dataD:
  assumes "same_data ctx ctx'"
  shows "cfg ctx' = cfg ctx" "page_size ctx' = page_size ctx" "ibuf ctx' = ibuf ctx" "obuf ctx' = obuf ctx"
    "oc ctx' = oc ctx" "final_op_was_seek ctx' = final_op_was_seek ctx" "iread_fnc ctx' = iread_fnc ctx"
    "sha_evp_ctx ctx' = sha_evp_ctx ctx" "b3_hasher ctx' = b3_hasher ctx" "blks_hasher ctx' = blks_hasher ctx"
    "input_offset ctx' = input_offset ctx" "sha_digest ctx' = sha_digest ctx"
    "total_input_size ctx' = total_input_size ctx"
    "r_full (stats ctx') = r_full (stats ctx)" "r_partial (stats ctx') = r_partial (stats ctx)"
    "w_full (stats ctx') = w_full (stats ctx)" "w_partial (stats ctx') = w_partial (stats ctx)"
    "w_bytes (stats ctx') = w_bytes (stats ctx)"
proof -
  have e: "ctx' = ctx\<lparr>stats := stats ctx'\<rparr>" and c: "counters (stats ctx') = counters (stats ctx)"
    using assms by (simp_all add: same_data_def)
  show "cfg ctx' = cfg ctx" "page_size ctx' = page_size ctx" "ibuf ctx' = ibuf ctx" "obuf ctx' = obuf ctx"
    "oc ctx' = oc ctx" "final_op_was_seek ctx' = final_op_was_seek ctx" "iread_fnc ctx' = iread_fnc ctx"
    "sha_evp_ctx ctx' = sha_evp_ctx ctx" "b3_hasher ctx' = b3_hasher ctx" "blks_hasher ctx' = blks_hasher ctx"
    "input_offset ctx' = input_offset ctx" "sha_digest ctx' = sha_digest ctx"
    "total_input_size ctx' = total_input_size ctx"
    by (subst e, simp)+
  show "r_full (stats ctx') = r_full (stats ctx)" "r_partial (stats ctx') = r_partial (stats ctx)"
    "w_full (stats ctx') = w_full (stats ctx)" "w_partial (stats ctx') = w_partial (stats ctx)"
    "w_bytes (stats ctx') = w_bytes (stats ctx)"
    using c by (simp_all add: counters_def)
qed

definition quiet_step :: "'h st \<Rightarrow> 'h st \<Rightarrow> bool" where
  "quiet_step s s' \<longleftrightarrow> same_data (fst s) (fst s') \<and> same_io (snd s) (snd s')"

lemma quiet_step_trans [trans]: "quiet_step a b \<Longrightarrow> quiet_step b c \<Longrightarrow> quiet_step a c"
  by (auto simp: quiet_step_def intro: same_data_trans same_io_trans)

lemma quiet_step_refl [simp]: "quiet_step s s"
  by (simp add: quiet_step_def)

lemma quiet_clear_progress: "quiet_step s (clear_progress s)"
  by (auto simp: quiet_step_def clear_progress_def counters_def intro!: same_dataI split: prod.splits)

lemma quiet_dd_diagnose: "quiet_step s (dd_diagnose e m s)"
  using quiet_clear_progress [of s]
  by (auto simp: quiet_step_def dd_diagnose_def split: prod.splits)

lemma quiet_dd_check_progress: "quiet_step s (dd_check_progress s)"
proof (cases s)
  case (Pair ctx k)
  obtain t k' where g: "gethrxtime k = (t, k')" by fastforce
  show ?thesis
    using same_io_gethrxtime [OF g]
    by (auto simp: Pair quiet_step_def dd_check_progress_def g Let_def counters_def intro!: same_dataI)
qed

lemma quiet_dd_print_stats: "quiet_step s (dd_print_stats s)"
proof (cases s)
  case (Pair ctx k)
  have c: "quiet_step (ctx, k) (clear_progress (ctx, k))" by (rule quiet_clear_progress)
  have g: "same_io a (snd (gethrxtime b)) = same_io a b" for a b
    by (auto simp: gethrxtime_def same_io_def split: list.splits)
  show ?thesis
    using c by (auto simp: Pair quiet_step_def dd_print_stats_def Let_def g case_prod_beta split: prod.splits)
qed

end
