(* ===== verification/EngineIO.thy ===== *)
theory EngineIO
  imports Context
begin

text \<open>
  The I/O primitives of \<open>src/src/io_engine.c\<close> that every driver is built from: \<open>dd_iread\<close>,
  \<open>dd_iread_fullblock\<close>, \<open>dd_iwrite\<close>, \<open>dd_write_output\<close> and \<open>dd_copy_simple\<close>, and the zero test
  \<open>is_nul\<close> of \<open>src/src/system.h\<close>.

  The lemmas speak of the \<^emph>\<open>view\<close> of the target: its bytes up to the current offset, holes read as
  zeros. Writing and hole punching extend the view by the same bytes.
\<close>

section \<open>is_nul\<close>

definition is_nul :: "byte list \<Rightarrow> bool" where
  "is_nul buf =
     (let len = length buf in
      if len = 0 then True
      else let head = (if len < 16 then len else 16) in
        if \<not> list_all (\<lambda>b. b = 0) (take head buf) then False
        else if len \<le> 16 then True
        else take (len - 16) buf = take (len - 16) (drop 16 buf))"

lemma is_nul_all_zero: "is_nul buf \<longleftrightarrow> buf = replicate (length buf) 0"
proof -
  have step: "\<forall>j < length buf. buf ! j = 0"
    if h: "\<forall>j < 16. buf ! j = 0" and len: "16 < length buf"
      and m: "take (length buf - 16) buf = take (length buf - 16) (drop 16 buf)"
  proof (intro allI impI)
    fix j assume "j < length buf"
    then show "buf ! j = 0"
    proof (induction j rule: less_induct)
      case (less j)
      show ?case
      proof (cases "j < 16")
        case True
        with h show ?thesis by simp
      next
        case False
        then have i: "j - 16 < length buf - 16" "j - 16 < j" "j - 16 < length buf" using less.prems by auto
        have "take (length buf - 16) buf ! (j - 16) = take (length buf - 16) (drop 16 buf) ! (j - 16)"
          by (simp only: m)
        then have "buf ! (j - 16) = buf ! j" using i(1) False len by simp
        with less.IH [OF i(2,3)] show ?thesis by simp
      qed
    qed
  qed
  show ?thesis
  proof
    assume nul: "is_nul buf"
    have "\<forall>j < length buf. buf ! j = 0"
    proof (cases "length buf \<le> 16")
      case True
      with nul show ?thesis
        by (auto simp: is_nul_def Let_def list_all_length split: if_splits)
    next
      case False
      with nul show ?thesis
        by (intro step) (auto simp: is_nul_def Let_def list_all_length split: if_splits)
    qed
    then show "buf = replicate (length buf) 0" by (simp add: list_eq_iff_nth_eq)
  next
    assume z: "buf = replicate (length buf) 0"
    have n: "is_nul (replicate n 0)" for n
      by (auto simp: is_nul_def Let_def list_all_iff)
    show "is_nul buf" using n [of "length buf"] z by simp
  qed
qed

text \<open>
  \<open>is_nul\<close>, which compares the buffer with itself shifted by 16 bytes, is true exactly of buffers of
  zero bytes.
\<close>

theorem is_nul_correct: "is_nul buf = list_all (\<lambda>b. b = 0) buf"
  unfolding is_nul_all_zero by (auto simp: list_all_length list_eq_iff_nth_eq)

section \<open>Reading\<close>

text \<open>
  \<open>dd_iread (fd, buf, size)\<close>: retry on \<open>EINTR\<close>; on \<open>EINVAL\<close> with \<open>O_DIRECT\<close> set, drop the flag for one
  read and put it back.
\<close>

definition iread_undirect :: "fd \<Rightarrow> nat \<Rightarrow> kern \<Rightarrow> (int + byte list) \<times> kern" where
  "iread_undirect fd sz k =
     (let cur_flags = f_getfl fd k;
          k = f_setfl fd (cur_flags AND NOT O_DIRECT) k;
          (ret, k) = sys_read fd sz k;
          k = (case ret of Inr bs \<Rightarrow> if bs \<noteq> [] then dd_invalidate_cache fd (int (length bs)) k else k
                         | Inl e \<Rightarrow> k)
      in (ret, f_setfl fd cur_flags k))"

lemma sys_read_consumes:
  "sys_read fd sz k = (Inl e, k') \<Longrightarrow> e \<noteq> 9 \<Longrightarrow>
     length (rd_ans k') + length (out_rd k') < length (rd_ans k) + length (out_rd k)"
  by (auto simp: sys_read_def sys_read0_def sys_read1_def split: fd.splits list.splits ans.splits sum.splits prod.splits)

function dd_iread :: "fd \<Rightarrow> nat \<Rightarrow> kern \<Rightarrow> (int + byte list) \<times> kern" where
  "dd_iread fd sz k =
     (case sys_read fd sz k of
        (Inr bs, k') \<Rightarrow> (Inr bs, k')
      | (Inl e, k') \<Rightarrow>
          if e = EINTR then dd_iread fd sz k'
          else if e = EINVAL \<and> any_set (f_getfl fd k') O_DIRECT then iread_undirect fd sz k'
          else (Inl e, k'))"
  by pat_completeness auto

termination
  by (relation "measure (\<lambda>(fd, sz, k). length (rd_ans k) + length (out_rd k))")
    (auto dest: sys_read_consumes [OF sym])

declare dd_iread.simps [simp del]

function dd_iread_fullblock :: "fd \<Rightarrow> nat \<Rightarrow> kern \<Rightarrow> (int + byte list) \<times> kern" where
  "dd_iread_fullblock fd sz k =
     (if sz = 0 then (Inr [], k)
      else case dd_iread fd sz k of
             (Inl e, k') \<Rightarrow> (Inl e, k')
           | (Inr bs, k') \<Rightarrow>
               if bs = [] then (Inr [], k')
               else (case dd_iread_fullblock fd (sz - length bs) k' of
                       (Inl e, k'') \<Rightarrow> (Inl e, k'')
                     | (Inr bs', k'') \<Rightarrow> (Inr (bs @ bs'), k'')))"
  by pat_completeness auto
termination
  by (relation "measure (\<lambda>(fd, sz, k). sz)") auto

declare dd_iread_fullblock.simps [simp del]

definition iread :: "'h dd_context \<Rightarrow> fd \<Rightarrow> nat \<Rightarrow> kern \<Rightarrow> (int + byte list) \<times> kern" where
  "iread ctx fd sz k = (if iread_fnc ctx then dd_iread_fullblock fd sz k else dd_iread fd sz k)"

text \<open>What a read of the source does: it consumes the bytes it returns, and fails without consuming.\<close>

lemma same_io_lseek_0: "sys_lseek fd 0 k = (r, k') \<Longrightarrow> same_io k k'"
  by (cases fd) (auto simp: sys_lseek_def same_io_def split: if_splits)

lemma same_io_invalidate: "same_io k (dd_invalidate_cache fd n k)"
  by (auto simp: dd_invalidate_cache_def split: prod.splits option.splits dest!: same_io_lseek_0)

lemma same_io_invalidate_chunked: "dd_invalidate_cache_chunked fd n p b k = (p', k') \<Longrightarrow> same_io k k'"
  by (auto simp: dd_invalidate_cache_chunked_def Let_def split: prod.splits option.splits if_splits
      dest!: same_io_lseek_0)

lemma consumes_in_fl:
  "consumes bs (k\<lparr>in_fl := w\<rparr>) k' \<Longrightarrow> consumes bs k (k'\<lparr>in_fl := in_fl k\<rparr>)"
  by (simp add: consumes_def avail_def)

lemma consumes_invalidate: "consumes bs k k' \<Longrightarrow> consumes bs k (dd_invalidate_cache fd n k')"
  using consumes_trans [OF _ consumes_same_io [OF same_io_invalidate]] by fastforce

lemma iread_undirect_consumes:
  assumes "iread_undirect STDIN_FILENO sz k = (r, k')"
  shows "(\<exists>bs. r = Inr bs \<and> consumes bs k k' \<and> length bs \<le> sz \<and> (bs = [] \<longrightarrow> sz = 0 \<or> avail k = [])) \<or>
         (\<exists>e. r = Inl e \<and> consumes [] k k' \<and> Fail e \<in> set (rd_ans k))"
proof -
  let ?u = "k\<lparr>in_fl := in_fl k AND NOT O_DIRECT\<rparr>"
  obtain k1 where r: "sys_read0 sz ?u = (r, k1)"
    using assms by (auto simp: iread_undirect_def f_getfl_def f_setfl_def sys_read_def Let_def split: prod.splits)
  have a: "avail ?u = avail k" by (simp add: avail_def)
  have k': "k' = (case r of Inr bs \<Rightarrow> if bs \<noteq> [] then dd_invalidate_cache STDIN_FILENO (int (length bs)) k1 else k1
                          | Inl e \<Rightarrow> k1)\<lparr>in_fl := in_fl k\<rparr>"
    using assms r by (simp add: iread_undirect_def f_getfl_def f_setfl_def sys_read_def Let_def)
  show ?thesis
    using sys_read0_consumes [OF r]
    by (auto simp: k' a split: if_splits intro!: consumes_in_fl consumes_invalidate)
qed

lemma dd_iread_consumes:
  assumes "dd_iread STDIN_FILENO sz k = (r, k')"
  shows "(\<exists>bs. r = Inr bs \<and> consumes bs k k' \<and> length bs \<le> sz \<and> (bs = [] \<longrightarrow> sz = 0 \<or> avail k = [])) \<or>
         (\<exists>e. r = Inl e \<and> consumes [] k k' \<and> (Fail e \<in> set (rd_ans k)))"
  using assms
proof (induction "STDIN_FILENO" sz k arbitrary: r k' rule: dd_iread.induct)
  case (1 sz k)
  obtain r1 k1 where s: "sys_read STDIN_FILENO sz k = (r1, k1)" by fastforce
  then have s0: "sys_read0 sz k = (r1, k1)" by (simp add: sys_read_def)
  note c = sys_read0_consumes [OF s0] and sub = sys_read0_rd_ans [OF s0]
  show ?case
  proof (cases r1)
    case (Inr bs)
    then have "r = Inr bs" "k' = k1" using "1.prems" s by (subst (asm) dd_iread.simps; simp)+
    with c Inr show ?thesis by auto
  next
    case (Inl e)
    then have ce: "consumes [] k k1" and av: "avail k1 = avail k" and fe: "Fail e \<in> set (rd_ans k)"
      using c by (auto dest: consumesD(1))
    have lift: "(\<exists>bs. r = Inr bs \<and> consumes bs k k' \<and> length bs \<le> sz \<and> (bs = [] \<longrightarrow> sz = 0 \<or> avail k = [])) \<or>
        (\<exists>e. r = Inl e \<and> consumes [] k k' \<and> (Fail e \<in> set (rd_ans k)))"
      if "(\<exists>bs. r = Inr bs \<and> consumes bs k1 k' \<and> length bs \<le> sz \<and> (bs = [] \<longrightarrow> sz = 0 \<or> avail k1 = [])) \<or>
          (\<exists>e. r = Inl e \<and> consumes [] k1 k' \<and> (Fail e \<in> set (rd_ans k1)))"
      using that sub consumes_trans [OF ce] by (fastforce simp: av)
    consider "e = EINTR" | "e \<noteq> EINTR" "e = EINVAL \<and> any_set (f_getfl STDIN_FILENO k1) O_DIRECT"
      | "e \<noteq> EINTR" "\<not> (e = EINVAL \<and> any_set (f_getfl STDIN_FILENO k1) O_DIRECT)" by blast
    then show ?thesis
    proof cases
      case e: 1
      then have "dd_iread STDIN_FILENO sz k1 = (r, k')"
        using "1.prems" s Inl by (subst (asm) dd_iread.simps) simp
      with "1.hyps" [OF s [symmetric] Inl e] show ?thesis by (intro lift)
    next
      case 2
      then have "iread_undirect STDIN_FILENO sz k1 = (r, k')"
        using "1.prems" s Inl by (subst (asm) dd_iread.simps) simp
      from iread_undirect_consumes [OF this] show ?thesis by (rule lift)
    next
      case 3
      then have "r = Inl e" "k' = k1" using "1.prems" s Inl by (subst (asm) dd_iread.simps; auto)+
      with ce fe show ?thesis by auto
    qed
  qed
qed

lemma dd_iread_fullblock_consumes:
  assumes "dd_iread_fullblock STDIN_FILENO sz k = (r, k')"
  shows "(\<exists>bs. r = Inr bs \<and> consumes bs k k' \<and> length bs \<le> sz \<and> (length bs < sz \<longrightarrow> avail k' = [])) \<or>
         (\<exists>e bs. r = Inl e \<and> consumes bs k k')"
  using assms
proof (induction "STDIN_FILENO" sz k arbitrary: r k' rule: dd_iread_fullblock.induct)
  case (1 sz k)
  show ?case
  proof (cases "sz = 0")
    case True
    then show ?thesis using "1.prems" by (subst (asm) dd_iread_fullblock.simps) auto
  next
    case pos: False
    obtain r1 k1 where s: "dd_iread STDIN_FILENO sz k = (r1, k1)" by fastforce
    note c = dd_iread_consumes [OF s]
    show ?thesis
    proof (cases r1)
      case (Inl e)
      then show ?thesis using "1.prems" s pos c by (subst (asm) dd_iread_fullblock.simps) auto
    next
      case (Inr bs)
      then have cb: "consumes bs k k1" "length bs \<le> sz" "bs = [] \<longrightarrow> avail k = []" using c pos by auto
      show ?thesis
      proof (cases "bs = []")
        case True
        then show ?thesis using "1.prems" s pos Inr cb consumesD(1) [OF cb(1)]
          by (subst (asm) dd_iread_fullblock.simps) auto
      next
        case False
        obtain r2 k2 where t: "dd_iread_fullblock STDIN_FILENO (sz - length bs) k1 = (r2, k2)" by fastforce
        have res: "k' = k2 \<and> r = (case r2 of Inl e \<Rightarrow> Inl e | Inr bs' \<Rightarrow> Inr (bs @ bs'))"
          using "1.prems" s pos Inr False t by (subst (asm) dd_iread_fullblock.simps) (auto split: sum.splits)
        note ih = "1.hyps" [OF pos s [symmetric] Inr False t]
        show ?thesis using ih
        proof
          assume "\<exists>bs'. r2 = Inr bs' \<and> consumes bs' k1 k2 \<and> length bs' \<le> sz - length bs \<and>
                        (length bs' < sz - length bs \<longrightarrow> avail k2 = [])"
          then show ?thesis using res cb consumes_trans [OF cb(1)] by fastforce
        next
          assume "\<exists>e bs'. r2 = Inl e \<and> consumes bs' k1 k2"
          then show ?thesis using res consumes_trans [OF cb(1)] by fastforce
        qed
      qed
    qed
  qed
qed

section \<open>Writing\<close>

definition hash_feed :: "'h hash_api \<Rightarrow> byte list \<Rightarrow> 'h dd_context \<Rightarrow> 'h dd_context" where
  "hash_feed H bs ctx = ctx\<lparr>
     sha_evp_ctx := (if conv (cfg ctx) C_SHA256 \<and> bs \<noteq> []
                     then map_option (\<lambda>h. EVP_update H h bs) (sha_evp_ctx ctx) else sha_evp_ctx ctx),
     b3_hasher := (if conv (cfg ctx) C_BLAKE3 \<and> bs \<noteq> []
                   then blake3_update H (b3_hasher ctx) bs else b3_hasher ctx),
     blks_hasher := (if conv (cfg ctx) C_BLKS \<and> bs \<noteq> []
                     then map_option (\<lambda>h. blks_update H h bs) (blks_hasher ctx) else blks_hasher ctx)\<rparr>"

lemma wr_ans_invalidate [simp]: "wr_ans (dd_invalidate_cache fd n k) = wr_ans k"
  by (auto simp: dd_invalidate_cache_def sys_lseek_def emit_def split: fd.splits)

lemma iwrite_loop_measure:
  assumes "(r, k') = sys_write (drop t bs) k"
  shows "t < length bs \<Longrightarrow> r = Inr n \<Longrightarrow> length (wr_ans k') < length (wr_ans k) \<or>
           length (wr_ans k') = length (wr_ans k) \<and> length bs - (t + n) < length bs - t"
    and "r = Inl e \<Longrightarrow> length (wr_ans k') < length (wr_ans k)"
    and "length (wr_ans k') \<le> length (wr_ans k)"
  using assms by (auto simp: sys_write_def kern_simps split: list.splits ans.splits)

lemma iwrite_loop_measure_direct:
  assumes "(Inl e, k') = sys_write bs k" "(r, k2) = sys_write bs (k'\<lparr>out_fl := f\<rparr>)"
  shows "length (wr_ans k2) < length (wr_ans k)"
  using assms by (auto simp: sys_write_def kern_simps split: list.splits ans.splits)

text \<open>The write loop: how many bytes of \<open>bs\<close> it wrote in all.\<close>

function iwrite_loop :: "mask \<Rightarrow> byte list \<Rightarrow> nat \<Rightarrow> kern \<Rightarrow> nat \<times> kern" where
  "iwrite_loop oflags bs tot k =
     (if tot < length bs then
        (case sys_write (drop tot bs) k of
           (Inr n, k') \<Rightarrow> iwrite_loop oflags bs (tot + n) k'
         | (Inl e, k') \<Rightarrow>
             if e = EINTR then iwrite_loop oflags bs tot k'
             else if e = EINVAL \<and> any_set oflags O_DIRECT \<and> any_set (out_fl k') O_DIRECT then
               (let cur_flags = out_fl k';
                    k1 = k'\<lparr>out_fl := cur_flags AND NOT O_DIRECT\<rparr>
                in (case sys_write (drop tot bs) k1 of
                      (Inr n, k2) \<Rightarrow>
                        if 0 < n
                        then iwrite_loop oflags bs (tot + n)
                               ((dd_invalidate_cache STDOUT_FILENO (int n) k2)\<lparr>out_fl := cur_flags\<rparr>)
                        else (tot, k2\<lparr>out_fl := cur_flags\<rparr>)
                    | (Inl e2, k2) \<Rightarrow> (tot, k2\<lparr>out_fl := cur_flags\<rparr>)))
             else (tot, k'))
      else (tot, k))"
  by pat_completeness auto

termination
  by (relation "measures [\<lambda>(oflags, bs, tot, k). length (wr_ans k), \<lambda>(oflags, bs, tot, k). length bs - tot]")
    (auto dest: iwrite_loop_measure iwrite_loop_measure_direct simp: Let_def)

declare iwrite_loop.simps [simp del]

text \<open>The loop writes a prefix of what is left, in order, and puts \<open>O_DIRECT\<close> back.\<close>

lemma sys_write_undirect_puts:
  assumes "sys_write bs (k\<lparr>out_fl := out_fl k AND NOT O_DIRECT\<rparr>) = (r, k')"
  shows "(\<exists>n \<le> length bs. r = Inr n \<and> puts (take n bs) k (k'\<lparr>out_fl := out_fl k\<rparr>)) \<or>
         (\<exists>e. r = Inl e \<and> puts [] k (k'\<lparr>out_fl := out_fl k\<rparr>) \<and> Fail e \<in> set (wr_ans k))"
proof -
  let ?u = "k\<lparr>out_fl := out_fl k AND NOT O_DIRECT\<rparr>"
  have a: "any_set (out_fl k) O_APPEND = any_set (out_fl ?u) O_APPEND"
    by (simp add: undirect_append)
  have u: "view ?u = view k" "beyond ?u = beyond k" "solid ?u = solid k"
    by (rule view_fl; simp add: undirect_append)+
  have "puts bs' k (k'\<lparr>out_fl := out_fl k\<rparr>)" if e: "puts bs' ?u k'" for bs'
  proof -
    have "view (k'\<lparr>out_fl := out_fl k\<rparr>) = view k'" "beyond (k'\<lparr>out_fl := out_fl k\<rparr>) = beyond k'"
      "solid (k'\<lparr>out_fl := out_fl k\<rparr>) = solid k'"
      using extendsD(3) [OF putsD(1) [OF e]] a by (simp_all add: view_fl)
    then show ?thesis using e u by (simp add: puts_def extends_def input_same_def)
  qed
  with sys_write_puts [OF assms] show ?thesis by auto
qed

lemma puts_invalidate: "puts [] k (dd_invalidate_cache fd n k)"
  by (rule puts_same_io [OF same_io_invalidate])

lemma out_fl_invalidate [simp]: "out_fl (dd_invalidate_cache fd n k) = out_fl k"
  using extendsD(3) [OF putsD(1) [OF puts_invalidate [of k fd n]]] .

lemma view_invalidate_fl:
  "view ((dd_invalidate_cache fd n k)\<lparr>out_fl := f\<rparr>) = view (k\<lparr>out_fl := f\<rparr>)"
  "beyond ((dd_invalidate_cache fd n k)\<lparr>out_fl := f\<rparr>) = beyond (k\<lparr>out_fl := f\<rparr>)"
  "solid ((dd_invalidate_cache fd n k)\<lparr>out_fl := f\<rparr>) = solid (k\<lparr>out_fl := f\<rparr>)"
  by (auto simp: solid_def dd_invalidate_cache_def sys_lseek_def emit_def view_def beyond_def out_pos_def split: fd.splits)

lemma invalidate_fl:
  assumes "puts bs k (k'\<lparr>out_fl := f\<rparr>)"
  shows "puts bs k ((dd_invalidate_cache fd n k')\<lparr>out_fl := f\<rparr>)"
  using assms extendsD(4-6) [OF putsD(1) [OF puts_invalidate [of k' fd n]]]
  by (auto simp add: puts_def extends_def view_invalidate_fl input_same_def)

lemma iwrite_loop_puts:
  assumes "iwrite_loop oflags bs t k = (m, k')" "t \<le> length bs"
  shows "t \<le> m \<and> m \<le> length bs \<and> puts (take (m - t) (drop t bs)) k k' \<and>
         (m < length bs \<longrightarrow> (\<exists>e. Fail e \<in> set (wr_ans k) \<and> e \<noteq> EINTR))"
  using assms
proof (induction oflags bs t k arbitrary: m k' rule: iwrite_loop.induct)
  case (1 oflags bs t k)
  have join: "t \<le> m \<and> m \<le> length bs \<and> puts (take (m - t) (drop t bs)) k k'"
    if "puts (take n (drop t bs)) k k1" "t + n \<le> m \<and> m \<le> length bs \<and> puts (take (m - (t + n)) (drop (t + n) bs)) k1 k'"
    for n k1 m k'
  proof -
    have "take n (drop t bs) @ take (m - (t + n)) (drop (t + n) bs) = take (m - t) (drop t bs)"
      using that(2) take_take_drop [of n "drop t bs" "m - (t + n)"] by (simp add: add.commute)
    then show ?thesis using puts_trans [OF that(1), of "take (m - (t + n)) (drop (t + n) bs)" k'] that(2) by simp
  qed
  show ?case
  proof (cases "t < length bs")
    case False
    then show ?thesis using "1.prems" by (subst (asm) iwrite_loop.simps) simp
  next
    case lt: True
    obtain r k1 where w: "sys_write (drop t bs) k = (r, k1)" by fastforce
    note e = sys_write_puts [OF w]
    have wl: "Fail e' \<in> set (wr_ans k1) \<Longrightarrow> Fail e' \<in> set (wr_ans k)" for e'
      using w by (auto simp: sys_write_def kern_simps split: list.splits ans.splits)
    show ?thesis
    proof (cases r)
      case (Inr n)
      then have n: "n \<le> length bs - t" "puts (take n (drop t bs)) k k1" using e by auto
      have "iwrite_loop oflags bs (t + n) k1 = (m, k')"
        using "1.prems" lt w Inr by (subst (asm) iwrite_loop.simps) simp
      then show ?thesis using "1.IH"(3) [OF lt w [symmetric] Inr] n lt join [OF n(2), of m k'] wl by fastforce
    next
      case (Inl er)
      then have n: "puts [] k k1" "Fail er \<in> set (wr_ans k)" using e by auto
      consider (intr) "er = EINTR" | (direct) "er = EINVAL" "any_set oflags O_DIRECT" "any_set (out_fl k1) O_DIRECT"
        | (stop) "er \<noteq> EINTR" "\<not> (er = EINVAL \<and> any_set oflags O_DIRECT \<and> any_set (out_fl k1) O_DIRECT)" by blast
      then show ?thesis
      proof cases
        case intr
        have "iwrite_loop oflags bs t k1 = (m, k')"
          using "1.prems" lt w Inl intr by (subst (asm) iwrite_loop.simps) simp
        then show ?thesis
          using "1.IH"(1) [OF lt w [symmetric] Inl intr] "1.prems" join [of 0 k1 m k'] n(1) wl by auto
      next
        case stop
        then have "m = t" "k' = k1"
          using "1.prems" lt w Inl by (subst (asm) iwrite_loop.simps; auto)+
        then show ?thesis using n stop(1) lt by auto
      next
        case direct
        have ne: "er \<noteq> EINTR" using direct by simp
        let ?f = "out_fl k1"
        obtain r2 k2 where w2: "sys_write (drop t bs) (k1\<lparr>out_fl := ?f AND NOT O_DIRECT\<rparr>) = (r2, k2)" by fastforce
        note e2 = sys_write_undirect_puts [OF w2]
        show ?thesis
        proof (cases "\<exists>n>0. r2 = Inr n")
          case True
          then obtain n2 where r2: "r2 = Inr n2" "0 < n2" by blast
          let ?k3 = "(dd_invalidate_cache STDOUT_FILENO (int n2) k2)\<lparr>out_fl := ?f\<rparr>"
          have step: "iwrite_loop oflags bs (t + n2) ?k3 = (m, k')"
            using "1.prems" lt w Inl direct w2 r2
            by (subst (asm) iwrite_loop.simps) (simp add: Let_def)
          have n2: "n2 \<le> length bs - t" "puts (take n2 (drop t bs)) k1 (k2\<lparr>out_fl := ?f\<rparr>)" using e2 r2 by auto
          have ex: "puts (take n2 (drop t bs)) k ?k3"
            using puts_trans [OF n(1) invalidate_fl [OF n2(2)]] by simp
          have "t + n2 \<le> m \<and> m \<le> length bs \<and> puts (take (m - (t + n2)) (drop (t + n2) bs)) ?k3 k'"
            using "1.IH"(2) [OF lt w [symmetric] Inl ne _ refl refl w2 [symmetric] r2 step] direct n2 lt by auto
          from join [OF ex this] show ?thesis using n(2) ne by auto
        next
          case False
          then have mk: "m = t" "k' = k2\<lparr>out_fl := ?f\<rparr>"
            using "1.prems" lt w Inl direct w2
            by (subst (asm) iwrite_loop.simps; auto simp: Let_def split: sum.splits)+
          have "r2 = Inr 0 \<or> (\<exists>e. r2 = Inl e)" using False by (cases r2) auto
          then have "puts [] k1 k'" using e2 by (auto simp: mk)
          then show ?thesis using n ne lt puts_trans [OF n(1), of "[]" k'] by (auto simp: mk(1))
        qed
      qed
    qed
  qed
qed

definition dd_iwrite :: "'h hash_api \<Rightarrow> byte list \<Rightarrow> 'h st \<Rightarrow> nat \<times> 'h st" where
  "dd_iwrite H bs s =
     (case s of (ctx, k) \<Rightarrow>
        let ctx = hash_feed H bs ctx;
            (seeked, k) =
              (if conv (cfg ctx) C_SPARSE \<and> is_nul bs
               then (case sys_lseek STDOUT_FILENO (int (length bs)) k of
                       (Some off, k) \<Rightarrow> (True, k)
                     | (None, k) \<Rightarrow> (False, k))
               else (False, k))
        in if seeked then (length bs, ctx\<lparr>final_op_was_seek := True\<rparr>, k)
           else
             let ctx = ctx\<lparr>final_op_was_seek := False\<rparr>;
                 (tot, k) = iwrite_loop (output_flags (cfg ctx)) bs 0 k
             in if o_nocache (cfg ctx) \<and> 0 < tot
                then (case dd_invalidate_cache_chunked STDOUT_FILENO (int tot) (o_nocache_pending ctx) False k of
                        (p, k) \<Rightarrow> (tot, ctx\<lparr>o_nocache_pending := p\<rparr>, k))
                else (tot, ctx, k))"

text \<open>
  \<open>sparse_ok\<close>: a target that \<open>--sparse\<close> may punch holes into has nothing beyond the offset (else the
  old bytes stay where a hole was meant) and no \<open>O_APPEND\<close>. \<open>whole\<close>: the file reaches its offset, unless
  the last operation was a seek, which \<open>dd_copy\<close> makes good at the end.
\<close>

definition sparse_ok :: "dd_config \<Rightarrow> kern \<Rightarrow> bool" where
  "sparse_ok c k \<longleftrightarrow> (conv c C_SPARSE \<longrightarrow> beyond k = [] \<and> \<not> any_set (out_fl k) O_APPEND)"

definition whole :: "'h dd_context \<Rightarrow> kern \<Rightarrow> bool" where
  "whole ctx k \<longleftrightarrow> solid k \<or> final_op_was_seek ctx"

text \<open>What the write of \<open>bs\<close> may change in the context: the hashers, the seek flag and the eviction counter.\<close>

definition wrote :: "'h hash_api \<Rightarrow> byte list \<Rightarrow> 'h dd_context \<Rightarrow> 'h dd_context \<Rightarrow> bool" where
  "wrote H bs ctx ctx' \<longleftrightarrow> (\<exists>b p. ctx' = (hash_feed H bs ctx)\<lparr>final_op_was_seek := b, o_nocache_pending := p\<rparr>)"

lemma sparse_ok_extends: "sparse_ok c k \<Longrightarrow> extends bs k k' \<Longrightarrow> sparse_ok c k'"
  by (auto simp: sparse_ok_def dest: extendsD)

lemma sparse_ok_consumes: "sparse_ok c k \<Longrightarrow> consumes bs k k' \<Longrightarrow> sparse_ok c k'"
  by (auto simp: sparse_ok_def dest: consumesD)

lemma hash_feed_frame [frame_simps]:
  "cfg (hash_feed H bs ctx) = cfg ctx" "stats (hash_feed H bs ctx) = stats ctx" "ibuf (hash_feed H bs ctx) = ibuf ctx"
  "obuf (hash_feed H bs ctx) = obuf ctx" "oc (hash_feed H bs ctx) = oc ctx" "page_size (hash_feed H bs ctx) = page_size ctx"
  "iread_fnc (hash_feed H bs ctx) = iread_fnc ctx" "o_nocache_pending (hash_feed H bs ctx) = o_nocache_pending ctx"
  "input_offset (hash_feed H bs ctx) = input_offset ctx" "final_op_was_seek (hash_feed H bs ctx) = final_op_was_seek ctx"
  by (simp_all add: hash_feed_def)

lemma wroteD:
  assumes "wrote H bs ctx ctx'"
  shows "cfg ctx' = cfg ctx" "stats ctx' = stats ctx" "ibuf ctx' = ibuf ctx" "obuf ctx' = obuf ctx" "oc ctx' = oc ctx"
    "page_size ctx' = page_size ctx" "iread_fnc ctx' = iread_fnc ctx" "input_offset ctx' = input_offset ctx"
  using assms by (auto simp: wrote_def frame_simps)

lemma seek_extends:
  assumes "sys_lseek STDOUT_FILENO (int n) k = (Some off, k')" "beyond k = []" "\<not> any_set (out_fl k) O_APPEND"
  shows "extends (replicate n 0) k k'"
proof -
  have k': "k' = k\<lparr>out_off := out_off k + n\<rparr>"
    using assms(1) by (auto simp: sys_lseek_def nat_add_distrib split: if_splits)
  have le: "length (out_data k) \<le> out_off k" using assms(2,3) by (simp add: beyond_def out_pos_def)
  have "replicate (out_off k + n - length (out_data k)) (0 :: byte) =
      replicate (out_off k - length (out_data k)) 0 @ replicate n 0"
    using le by (simp add: replicate_add [symmetric])
  then show ?thesis
    using le assms(3)
    by (simp add: k' extends_def view_def beyond_def out_pos_def input_same_def)
qed

lemma same_io_lseek_fail: "sys_lseek fd off k = (None, k') \<Longrightarrow> same_io k k'"
  by (cases fd) (auto simp: sys_lseek_def same_io_def split: if_splits)

lemma no_fail_same_io: "same_io k k' \<Longrightarrow> wr_ans k' = wr_ans k"
  by (simp add: same_io_def)

text \<open>The contract of \<open>dd_iwrite\<close>.\<close>

lemma dd_iwrite_contract:
  assumes w: "dd_iwrite H bs (ctx, k) = (n, ctx', k')" and sp: "sparse_ok (cfg ctx) k"
  shows "n \<le> length bs" "extends (take n bs) k k'" "wrote H bs ctx ctx'"
    "n < length bs \<Longrightarrow> \<exists>e. Fail e \<in> set (wr_ans k) \<and> e \<noteq> EINTR"
    "n = length bs \<Longrightarrow> bs \<noteq> [] \<Longrightarrow> whole ctx' k'"
proof -
  let ?c = "hash_feed H bs ctx"
  have "n \<le> length bs \<and> extends (take n bs) k k' \<and> wrote H bs ctx ctx' \<and>
    (n < length bs \<longrightarrow> (\<exists>e. Fail e \<in> set (wr_ans k) \<and> e \<noteq> EINTR)) \<and>
    (n = length bs \<and> bs \<noteq> [] \<longrightarrow> whole ctx' k')"
  proof (cases "conv (cfg ctx) C_SPARSE \<and> is_nul bs \<and> fst (sys_lseek STDOUT_FILENO (int (length bs)) k) \<noteq> None")
    case True
    then obtain off k1 where l: "sys_lseek STDOUT_FILENO (int (length bs)) k = (Some off, k1)"
      by (cases "sys_lseek STDOUT_FILENO (int (length bs)) k") auto
    have r: "n = length bs" "ctx' = ?c\<lparr>final_op_was_seek := True\<rparr>" "k' = k1"
      using w True l by (auto simp: dd_iwrite_def Let_def frame_simps)
    have "bs = replicate (length bs) 0" using True is_nul_all_zero by blast
    then have "extends bs k k1"
      using seek_extends [OF l] sp True by (simp add: sparse_ok_def)
    moreover have "wrote H bs ctx ctx'"
      unfolding wrote_def by (rule exI [of _ True], rule exI [of _ "o_nocache_pending ctx"]) (simp add: r frame_simps)
    ultimately show ?thesis by (simp add: r whole_def)
  next
    case False
    define k1 where "k1 = (if conv (cfg ctx) C_SPARSE \<and> is_nul bs
      then snd (sys_lseek STDOUT_FILENO (int (length bs)) k) else k)"
    have s1: "same_io k k1"
      using False same_io_lseek_fail [of STDOUT_FILENO "int (length bs)" k]
      by (cases "sys_lseek STDOUT_FILENO (int (length bs)) k") (auto simp: k1_def)
    obtain m k2 where lp: "iwrite_loop (output_flags (cfg ctx)) bs 0 k1 = (m, k2)" by fastforce
    have res: "\<exists>p. n = m \<and> same_io k2 k' \<and> ctx' = ?c\<lparr>final_op_was_seek := False, o_nocache_pending := p\<rparr>"
    proof -
      have ch: "same_io k2 k3" if "dd_invalidate_cache_chunked STDOUT_FILENO (int m) q False k2 = (p, k3)" for q p k3
        using same_io_invalidate_chunked [OF that] .
      have sk: "(if conv (cfg ctx) C_SPARSE \<and> is_nul bs
          then case sys_lseek STDOUT_FILENO (int (length bs)) k of
                 (Some off, k) \<Rightarrow> (True, k) | (None, k) \<Rightarrow> (False, k)
          else (False, k)) = (False, k1)"
        using False by (auto simp: k1_def split: prod.splits option.splits)
      show ?thesis
      proof (cases "o_nocache (cfg ctx) \<and> 0 < m")
        case True
        obtain p k3 where c: "dd_invalidate_cache_chunked STDOUT_FILENO (int m) (o_nocache_pending ctx) False k2 = (p, k3)"
          by fastforce
        have "n = m \<and> k' = k3 \<and> ctx' = ?c\<lparr>final_op_was_seek := False, o_nocache_pending := p\<rparr>"
          using w True c lp sk by (simp add: dd_iwrite_def Let_def frame_simps)
        with ch [OF c] show ?thesis by auto
      next
        case f: False
        have "n = m \<and> k' = k2 \<and> ctx' = ?c\<lparr>final_op_was_seek := False\<rparr>"
          using w f lp sk by (auto simp: dd_iwrite_def Let_def frame_simps)
        moreover have "?c\<lparr>final_op_was_seek := False\<rparr> = ?c\<lparr>final_op_was_seek := False, o_nocache_pending := o_nocache_pending ?c\<rparr>"
          by simp
        ultimately show ?thesis using same_io_refl [of k2] by metis
      qed
    qed
    then obtain p where r: "n = m" "same_io k2 k'" "ctx' = ?c\<lparr>final_op_was_seek := False, o_nocache_pending := p\<rparr>"
      by blast
    have l: "m \<le> length bs" "puts (take m bs) k1 k2" "m < length bs \<longrightarrow> (\<exists>e. Fail e \<in> set (wr_ans k1) \<and> e \<noteq> EINTR)"
      using iwrite_loop_puts [OF lp] by simp_all
    have p: "puts (take m bs) k k'"
      using puts_trans [OF puts_same_io [OF s1] puts_trans [OF l(2) puts_same_io [OF r(2)]]] by simp
    have "wr_ans k1 = wr_ans k" using s1 by (rule no_fail_same_io)
    moreover have "wrote H bs ctx ctx'" unfolding wrote_def using r(3) by blast
    moreover have "m = length bs \<and> bs \<noteq> [] \<longrightarrow> whole ctx' k'"
      using putsD(2) [OF p] by (auto simp: whole_def)
    ultimately show ?thesis using r l putsD(1) [OF p] by auto
  qed
  then show "n \<le> length bs" "extends (take n bs) k k'" "wrote H bs ctx ctx'"
    "n < length bs \<Longrightarrow> \<exists>e. Fail e \<in> set (wr_ans k) \<and> e \<noteq> EINTR"
    "n = length bs \<Longrightarrow> bs \<noteq> [] \<Longrightarrow> whole ctx' k'" by auto
qed

text \<open>\<open>dd_write_output\<close>: one whole output block from \<open>obuf\<close>. A failed write is only diagnosed.\<close>

definition dd_write_output :: "'h hash_api \<Rightarrow> 'h st \<Rightarrow> 'h st" where
  "dd_write_output H s =
     (case s of (ctx, k) \<Rightarrow>
        let bs = take (bs_nat ctx) (obuf_bytes ctx);
            (nwritten, ctx, k) = dd_iwrite H bs (ctx, k);
            ctx = ctx\<lparr>stats := (stats ctx)\<lparr>w_bytes := w_bytes (stats ctx) + int nwritten\<rparr>\<rparr>;
            (ctx, k) =
              (if int nwritten \<noteq> bsize ctx then
                 let (ctx, k) = dd_diagnose (errno k) ''error writing'' (ctx, k)
                 in (if nwritten \<noteq> 0
                     then ctx\<lparr>stats := (stats ctx)\<lparr>w_partial := w_partial (stats ctx) + 1\<rparr>\<rparr> else ctx, k)
               else (ctx\<lparr>stats := (stats ctx)\<lparr>w_full := w_full (stats ctx) + 1\<rparr>\<rparr>, k))
        in dd_check_progress (ctx\<lparr>oc := 0\<rparr>, k))"

text \<open>
  \<open>dd_copy_simple\<close>. The loop computes \<open>copy_now = output_blocksize - oc\<close>; if that is not positive,
  \<open>memcpy\<close> gets a negative length or the loop does not advance, and the result is \<open>None\<close>.
\<close>

function copy_simple_loop :: "'h hash_api \<Rightarrow> byte list \<Rightarrow> 'h st \<Rightarrow> 'h st option" where
  "copy_simple_loop H buf s =
     (case s of (ctx, k) \<Rightarrow>
        if buf = [] then Some (ctx, k)
        else if bsize ctx - int (oc ctx) \<le> 0 then None
        else
          let copy_now = min (nat (bsize ctx - int (oc ctx))) (length buf);
              ctx = set_obuf (blit (obuf_bytes ctx) (oc ctx) (take copy_now buf)) ctx;
              ctx = ctx\<lparr>oc := oc ctx + copy_now\<rparr>
          in copy_simple_loop H (drop copy_now buf)
               (if bsize ctx \<le> int (oc ctx) then dd_write_output H (ctx, k) else (ctx, k)))"
  by pat_completeness auto
termination
  by (relation "measure (\<lambda>(H, buf, s). length buf)") auto

declare copy_simple_loop.simps [simp del]

definition dd_copy_simple :: "'h hash_api \<Rightarrow> byte list \<Rightarrow> 'h st \<Rightarrow> 'h st option" where
  "dd_copy_simple H buf s =
     (case s of (ctx, k) \<Rightarrow>
        if oc ctx = 0 \<and> int (length buf) = bsize ctx then
          let (nwritten, ctx, k) = dd_iwrite H buf (ctx, k);
              ctx = ctx\<lparr>stats := (stats ctx)\<lparr>w_bytes := w_bytes (stats ctx) + int nwritten\<rparr>\<rparr>;
              (ctx, k) =
                (if nwritten \<noteq> length buf then
                   let (ctx, k) = dd_diagnose (errno k) ''error writing'' (ctx, k)
                   in (if nwritten \<noteq> 0
                       then ctx\<lparr>stats := (stats ctx)\<lparr>w_partial := w_partial (stats ctx) + 1\<rparr>\<rparr> else ctx, k)
                 else (ctx\<lparr>stats := (stats ctx)\<lparr>w_full := w_full (stats ctx) + 1\<rparr>\<rparr>, k))
          in Some (dd_check_progress (ctx, k))
        else copy_simple_loop H buf (ctx, k))"

section \<open>Properties of the primitives\<close>

text \<open>
  \<open>dd_iread\<close> on the source is a total function of the kernel's answers. It returns a prefix of what
  is left, at most the size asked for, and none only at the end of the input or for size 0; or it returns
  an error of the kernel having consumed nothing. The target, the offsets and the flags it drops for one
  read are as before.
\<close>

theorem dd_iread_correct:
  "case dd_iread STDIN_FILENO sz k of
     (Inr bs, k') \<Rightarrow> consumes bs k k' \<and> length bs \<le> sz \<and> (bs = [] \<longleftrightarrow> sz = 0 \<or> avail k = [])
   | (Inl e, k') \<Rightarrow> consumes [] k k' \<and> Fail e \<in> set (rd_ans k)"
proof -
  obtain r k' where d: "dd_iread STDIN_FILENO sz k = (r, k')" by fastforce
  have nil: "bs = []" if "consumes bs k k'" "length bs \<le> sz" "sz = 0 \<or> avail k = []" for bs
    using consumesD(1) [OF that(1)] that(2,3) by auto
  from dd_iread_consumes [OF d] show ?thesis
    unfolding d prod.case using nil by (elim disjE exE conjE) (simp, blast, simp)
qed

text \<open>
  C5: \<open>dd_iwrite\<close>, through \<open>EINTR\<close>, short writes, the \<open>O_DIRECT\<close> trap and hole punching: the view of the
  target grows by a prefix of the buffer of the length returned; it is the whole buffer unless the kernel
  refused a write for another reason than \<open>EINTR\<close>; the source is untouched and \<open>O_DIRECT\<close> is back. After a
  whole block that did not end in a hole the file holds it.
\<close>

theorem dd_iwrite_correct:
  assumes "dd_iwrite H bs (ctx, k) = (n, ctx', k')" "sparse_ok (cfg ctx) k"
  shows "n \<le> length bs \<and> view k' = view k @ take n bs \<and> avail k' = avail k \<and> out_fl k' = out_fl k \<and>
    (n < length bs \<longrightarrow> (\<exists>e. Fail e \<in> set (wr_ans k) \<and> e \<noteq> EINTR)) \<and>
    (n = length bs \<and> bs \<noteq> [] \<and> \<not> final_op_was_seek ctx' \<longrightarrow> out_data k' = view k @ bs @ beyond k')"
proof (intro conjI)
  note c = dd_iwrite_contract [OF assms] and e = extendsD [OF dd_iwrite_contract(2) [OF assms]]
  show "n \<le> length bs" "view k' = view k @ take n bs" "avail k' = avail k" "out_fl k' = out_fl k"
    "n < length bs \<longrightarrow> (\<exists>e. Fail e \<in> set (wr_ans k) \<and> e \<noteq> EINTR)"
    using c(1,4) e by auto
  show "n = length bs \<and> bs \<noteq> [] \<and> \<not> final_op_was_seek ctx' \<longrightarrow> out_data k' = view k @ bs @ beyond k'"
    using c(5) e(1) solid_data [of k'] by (auto simp: whole_def)
qed

lemma dd_iwrite_correct_witness:
  "view (snd (snd (dd_iwrite list_hash [1, 2, 3] (ctx0 [] 4096 dd_init_default_config, (file_to_file [])\<lparr>wr_ans := [Xfer 1, Fail EINTR]\<rparr>))))
     = view ((file_to_file [])\<lparr>wr_ans := [Xfer 1, Fail EINTR]\<rparr>) @
       take (fst (dd_iwrite list_hash [1, 2, 3] (ctx0 [] 4096 dd_init_default_config, (file_to_file [])\<lparr>wr_ans := [Xfer 1, Fail EINTR]\<rparr>))) [1, 2, 3]"
  by (rule conjunct1 [OF conjunct2 [OF dd_iwrite_correct
        [of list_hash _ "ctx0 [] 4096 dd_init_default_config" _ _ "fst (snd (dd_iwrite list_hash [1, 2, 3] (ctx0 [] 4096 dd_init_default_config, (file_to_file [])\<lparr>wr_ans := [Xfer 1, Fail EINTR]\<rparr>)))"]]])
    (simp_all add: sparse_ok_def conv_def ctx0_def dd_init_default_config_def)

section \<open>Which read errors can come back\<close>

lemma rd_ans_invalidate [kern_simps]: "rd_ans (dd_invalidate_cache fd n k) = rd_ans k"
  using same_ioD(5) [OF same_io_invalidate] by blast

lemma iread_undirect_rd_ans: "iread_undirect STDIN_FILENO sz k = (r, k') \<Longrightarrow> set (rd_ans k') \<subseteq> set (rd_ans k)"
proof -
  assume a: "iread_undirect STDIN_FILENO sz k = (r, k')"
  let ?u = "k\<lparr>in_fl := in_fl k AND NOT O_DIRECT\<rparr>"
  obtain r1 k1 where s: "sys_read0 sz ?u = (r1, k1)" by fastforce
  have "rd_ans k' = rd_ans k1"
    using a s by (auto simp: iread_undirect_def f_getfl_def f_setfl_def sys_read_def Let_def kern_simps split: sum.splits)
  then show ?thesis using sys_read0_rd_ans [OF s] by simp
qed

lemma dd_iread_rd_ans: "dd_iread STDIN_FILENO sz k = (r, k') \<Longrightarrow> set (rd_ans k') \<subseteq> set (rd_ans k)"
proof (induction "STDIN_FILENO" sz k arbitrary: r k' rule: dd_iread.induct)
  case (1 sz k)
  obtain r1 k1 where s: "sys_read STDIN_FILENO sz k = (r1, k1)" by fastforce
  then have "sys_read0 sz k = (r1, k1)" by (simp add: sys_read_def)
  note sub = sys_read0_rd_ans [OF this]
  from "1.prems" have d: "(case r1 of Inr bs \<Rightarrow> (Inr bs, k1)
      | Inl e \<Rightarrow> if e = EINTR then dd_iread STDIN_FILENO sz k1
          else if e = EINVAL \<and> any_set (f_getfl STDIN_FILENO k1) O_DIRECT then iread_undirect STDIN_FILENO sz k1
          else (Inl e, k1)) = (r, k')"
    by (subst (asm) dd_iread.simps) (simp add: s split: sum.splits)
  show ?case
  proof (cases r1)
    case (Inl e)
    then show ?thesis
      using d sub "1.hyps" [OF s [symmetric] Inl] iread_undirect_rd_ans [of sz k1] by (fastforce split: if_splits)
  qed (use d sub in auto)
qed

lemma dd_iread_fullblock_rd_ans:
  "dd_iread_fullblock STDIN_FILENO sz k = (r, k') \<Longrightarrow>
     set (rd_ans k') \<subseteq> set (rd_ans k) \<and> ((\<forall>e. Fail e \<notin> set (rd_ans k)) \<longrightarrow> (\<exists>bs. r = Inr bs))"
proof (induction "STDIN_FILENO" sz k arbitrary: r k' rule: dd_iread_fullblock.induct)
  case (1 sz k)
  obtain r1 k1 where s: "dd_iread STDIN_FILENO sz k = (r1, k1)" by fastforce
  note sub = dd_iread_rd_ans [OF s] and c = dd_iread_consumes [OF s]
  show ?case
  proof (cases "sz = 0 \<or> (\<exists>e. r1 = Inl e) \<or> r1 = Inr []")
    case True
    then show ?thesis using "1.prems" s sub c by (subst (asm) dd_iread_fullblock.simps) (auto split: if_splits)
  next
    case False
    then obtain bs where pos: "sz \<noteq> 0" and r1: "r1 = Inr bs" "bs \<noteq> []" by (cases r1) auto
    obtain r2 k2 where t: "dd_iread_fullblock STDIN_FILENO (sz - length bs) k1 = (r2, k2)" by fastforce
    have "k' = k2 \<and> r = (case r2 of Inl e \<Rightarrow> Inl e | Inr bs' \<Rightarrow> Inr (bs @ bs'))"
      using "1.prems" s pos r1 t by (subst (asm) dd_iread_fullblock.simps) (auto split: sum.splits)
    then show ?thesis using "1.hyps" [OF pos s [symmetric] r1 t] sub by (auto split: sum.splits)
  qed
qed

lemma iread_consumes:
  assumes "iread ctx STDIN_FILENO sz k = (r, k')"
  shows "(\<exists>bs. r = Inr bs \<and> consumes bs k k' \<and> length bs \<le> sz \<and> (bs = [] \<longrightarrow> sz = 0 \<or> avail k = [])) \<or>
         (\<exists>e bs. r = Inl e \<and> consumes bs k k')"
proof (cases "iread_fnc ctx")
  case True
  then have "dd_iread_fullblock STDIN_FILENO sz k = (r, k')" using assms by (simp add: iread_def)
  from dd_iread_fullblock_consumes [OF this] show ?thesis
  proof (elim disjE exE conjE)
    fix bs assume r: "r = Inr bs" "consumes bs k k'" "length bs \<le> sz" "length bs < sz \<longrightarrow> avail k' = []"
    then have "bs = [] \<longrightarrow> sz = 0 \<or> avail k = []" using consumesD(1) [OF r(2)] by auto
    with r show ?thesis by auto
  qed auto
next
  case False
  then have "dd_iread STDIN_FILENO sz k = (r, k')" using assms by (simp add: iread_def)
  from dd_iread_consumes [OF this] show ?thesis by auto
qed

text \<open>
  \<open>read_clean\<close>: a failing read reports an errno, and no read of part of a block is followed by a failure
  (which is when \<open>dd_iread_fullblock\<close> drops what it has).
\<close>

definition read_clean :: "bool \<Rightarrow> kern \<Rightarrow> bool" where
  "read_clean full k \<longleftrightarrow> (\<forall>e. Fail e \<in> set (rd_ans k) \<longrightarrow> e \<noteq> 0 \<and> \<not> full)"

lemma iread_clean:
  assumes "iread ctx STDIN_FILENO sz k = (r, k')" "read_clean (iread_fnc ctx) k"
  shows "read_clean (iread_fnc ctx) k' \<and> (\<forall>e. r = Inl e \<longrightarrow> e \<noteq> 0 \<and> consumes [] k k')"
proof (cases "iread_fnc ctx")
  case True
  then have "dd_iread_fullblock STDIN_FILENO sz k = (r, k')" using assms by (simp add: iread_def)
  from dd_iread_fullblock_rd_ans [OF this] show ?thesis using assms(2) True by (auto simp: read_clean_def)
next
  case False
  then have d: "dd_iread STDIN_FILENO sz k = (r, k')" using assms by (simp add: iread_def)
  from dd_iread_rd_ans [OF d] dd_iread_consumes [OF d] show ?thesis using assms(2) False by (auto simp: read_clean_def)
qed

end
