(* ===== verification/Driver.thy ===== *)
theory Driver
  imports EngineIO
begin

text \<open>
  The driver interface of \<open>src/src/io_driver.h\<close>: what one \<open>step\<close> of a backend returns, the laws
  the orchestration loop relies on (a locale), and the hardware probes of \<open>src/src/io_engine.c\<close> that the
  drivers share.
\<close>

section \<open>Hardware probes\<close>

definition fd_type :: "fd \<Rightarrow> kern \<Rightarrow> file_type option" where
  "fd_type fd k = (case fd of STDIN_FILENO \<Rightarrow> in_type k | STDOUT_FILENO \<Rightarrow> out_type k)"

definition fd_geom :: "fd \<Rightarrow> kern \<Rightarrow> geom" where
  "fd_geom fd k = (case fd of STDIN_FILENO \<Rightarrow> in_geom (plat k) | STDOUT_FILENO \<Rightarrow> out_geom (plat k))"

definition dd_detect_sector_size :: "fd \<Rightarrow> kern \<Rightarrow> int" where
  "dd_detect_sector_size fd k =
     (case fd_type fd k of
        None \<Rightarrow> 512
      | Some t \<Rightarrow>
          (case (if t = S_IFBLK then logical_sector (fd_geom fd k) else None) of
             Some n \<Rightarrow> if 0 < n then n else 512
           | None \<Rightarrow> 512))"

definition dd_detect_optimal_blocksize :: "fd \<Rightarrow> kern \<Rightarrow> int" where
  "dd_detect_optimal_blocksize fd k =
     (case fd_type fd k of
        None \<Rightarrow> 0
      | Some t \<Rightarrow>
          (case (if t = S_IFBLK then phys_sector (fd_geom fd k) else None) of
             Some phys \<Rightarrow>
               if 0 < phys
               then (case opt_io (fd_geom fd k) of
                       Some opt \<Rightarrow> if phys \<le> opt then opt else phys
                     | None \<Rightarrow> phys)
               else 0
           | None \<Rightarrow> if t = S_IFREG \<and> 0 < st_blksize (fd_geom fd k) then st_blksize (fd_geom fd k) else 0))"

section \<open>Other threads\<close>

text \<open>The scheduler lets another thread run: for as many micro-steps as \<open>sched\<close> says, or four once it is used up.\<close>

definition next_turn :: "kern \<Rightarrow> nat \<times> kern" where
  "next_turn k =
     (case sched (plat k) of [] \<Rightarrow> (4, k) | n # ns \<Rightarrow> (n, k\<lparr>plat := (plat k)\<lparr>sched := ns\<rparr>\<rparr>))"

section \<open>One step of a driver\<close>

text \<open>
  The results of \<open>step (ctx, state, &eof, &fallback)\<close>. A step whose C code has undefined behaviour (an
  access outside a buffer) is \<open>None\<close> instead.
\<close>

record ('s, 'h) step_out =
  rc :: int
  eof :: bool
  fallback :: bool
  dstate :: 's
  world :: "'h st"

definition done_ok :: "'s \<Rightarrow> 'h st \<Rightarrow> ('s, 'h) step_out option" where
  "done_ok d w = Some \<lparr>rc = EXIT_SUCCESS, eof = False, fallback = False, dstate = d, world = w\<rparr>"

definition done_eof :: "'s \<Rightarrow> 'h st \<Rightarrow> ('s, 'h) step_out option" where
  "done_eof d w = Some \<lparr>rc = EXIT_SUCCESS, eof = True, fallback = False, dstate = d, world = w\<rparr>"

definition done_fail :: "'s \<Rightarrow> 'h st \<Rightarrow> ('s, 'h) step_out option" where
  "done_fail d w = Some \<lparr>rc = EXIT_FAILURE, eof = False, fallback = False, dstate = d, world = w\<rparr>"

definition done_fallback :: "'s \<Rightarrow> 'h st \<Rightarrow> ('s, 'h) step_out option" where
  "done_fallback d w = Some \<lparr>rc = EXIT_SUCCESS, eof = False, fallback = True, dstate = d, world = w\<rparr>"

lemmas done_defs = done_ok_def done_eof_def done_fail_def done_fallback_def

text \<open>The equations that evaluate a run on a concrete input.\<close>

lemmas io_eval = Let_def ctx0_def stats0_def dd_alloc_ibuf_def dd_alloc_obuf_def conv_def cfg_simps
  dd_init_default_config_def tuned_bs_def round_up_page_def alignalloc_def upt_rec file_to_file_def
  iread_def dd_iread.simps sys_read_def sys_read0_def take_input_def avail_def
  blit_def dd_advance_input_offset_def ckd_add_def in_intmax_def INTMAX_MAX_def INTMAX_MIN_def wrap64_def
  dd_iwrite_def hash_feed_def iwrite_loop.simps sys_write_def
  put_output_def write_at_def out_pos_def done_defs set_obuf_def ibuf_bytes_def obuf_bytes_def
  dd_copy_simple_def copy_simple_loop.simps dd_write_output_def dd_check_progress_def is_json_def any_set_def

section \<open>What a faithful copy step does\<close>

text \<open>\<open>moves bs k k'\<close>: exactly the next bytes \<open>bs\<close> of the source went to the end of the target's view.\<close>

definition moves :: "byte list \<Rightarrow> kern \<Rightarrow> kern \<Rightarrow> bool" where
  "moves bs k k' \<longleftrightarrow> avail k = bs @ avail k' \<and> view k' = view k @ bs \<and> beyond k' = drop (length bs) (beyond k) \<and>
     out_fl k' = out_fl k \<and> out_seek k' = out_seek k \<and> out_type k' = out_type k \<and> in_seek k' = in_seek k \<and> in_type k' = in_type k"

lemma moves_refl [simp]: "moves [] k k"
  by (simp add: moves_def)

lemma moves_trans: "moves as k k' \<Longrightarrow> moves bs k' k'' \<Longrightarrow> moves (as @ bs) k k''"
  by (simp add: moves_def add.commute)

lemma moves_consumes_extends:
  assumes "consumes bs k k'" "extends bs k' k''"
  shows "moves bs k k''"
  using consumesD [OF assms(1)] extendsD [OF assms(2)] by (simp add: moves_def input_same_def)

lemma moves_same_io: "same_io k k' \<Longrightarrow> moves [] k k'"
  using moves_consumes_extends [OF consumes_same_io extends_refl] by auto

lemma movesD:
  assumes "moves bs k k'"
  shows "avail k = bs @ avail k'" "view k' = view k @ bs" "beyond k' = drop (length bs) (beyond k)" "out_fl k' = out_fl k"
    "out_seek k' = out_seek k" "out_type k' = out_type k" "in_seek k' = in_seek k" "in_type k' = in_type k"
  using assms by (simp_all add: moves_def)

lemma sparse_ok_moves: "sparse_ok c k \<Longrightarrow> moves bs k k' \<Longrightarrow> sparse_ok c k'"
  by (auto simp: sparse_ok_def dest: movesD)

text \<open>
  \<open>hole_ok w\<close>: the file reaches its offset, but for a hole at its end after a seek of \<open>--sparse\<close>, which is
  remembered. \<open>carried H bs w w'\<close>: the hashers were fed exactly \<open>bs\<close>, nothing waits in \<open>obuf\<close> that did not
  wait before, and \<open>hole_ok\<close> is kept.
\<close>

definition digest :: "'h dd_context \<Rightarrow> 'h option \<times> 'h \<times> 'h option" where
  "digest ctx = (sha_evp_ctx ctx, b3_hasher ctx, blks_hasher ctx)"

text \<open>
  What the options ask of a copy. Autotuning changes the block size, and the record limit with it where that stands for
  a number of bytes (\<open>rescaled\<close>).
\<close>

definition rescaled :: "dd_config \<Rightarrow> bool" where
  "rescaled c \<longleftrightarrow> conv c C_AUTOTUNE \<and> (0 \<le> bytes_to_copy c \<or> any_set (input_flags c) O_COUNT_BYTES)"

definition request :: "dd_config \<Rightarrow> mask \<times> int \<times> bool \<times> int option \<times> (int \<times> int) option" where
  "request c = (conversions_mask c, bytes_to_copy c, any_set (input_flags c) O_COUNT_BYTES,
     if conv c C_AUTOTUNE then None else Some (blocksize c), if rescaled c then None else Some (max_records c, max_bytes c))"

lemma requestD:
  assumes "request c' = request c"
  shows "conversions_mask c' = conversions_mask c" "bytes_to_copy c' = bytes_to_copy c" "rescaled c' = rescaled c"
    "\<not> rescaled c \<Longrightarrow> max_records c' = max_records c" "\<not> rescaled c \<Longrightarrow> max_bytes c' = max_bytes c" "conv c' = conv c"
proof -
  have e: "conversions_mask c' = conversions_mask c" "bytes_to_copy c' = bytes_to_copy c"
      "any_set (input_flags c') O_COUNT_BYTES = any_set (input_flags c) O_COUNT_BYTES"
    using assms by (simp_all add: request_def)
  then show r: "conversions_mask c' = conversions_mask c" "bytes_to_copy c' = bytes_to_copy c" "rescaled c' = rescaled c"
      "conv c' = conv c"
    by (simp_all add: rescaled_def conv_def fun_eq_iff)
  show "\<not> rescaled c \<Longrightarrow> max_records c' = max_records c" "\<not> rescaled c \<Longrightarrow> max_bytes c' = max_bytes c"
    using assms r(3) by (simp_all add: request_def)
qed

lemma request_cong:
  assumes "conversions_mask c' = conversions_mask c" "bytes_to_copy c' = bytes_to_copy c" "input_flags c' = input_flags c"
    and "\<not> conv c C_AUTOTUNE \<Longrightarrow> blocksize c' = blocksize c"
    and "\<not> rescaled c \<Longrightarrow> max_records c' = max_records c \<and> max_bytes c' = max_bytes c"
  shows "request c' = request c"
  using assms by (auto simp: request_def rescaled_def conv_def)

definition hole_ok :: "'h st \<Rightarrow> bool" where
  "hole_ok w \<longleftrightarrow>
     (if final_op_was_seek (fst w)
      then conv (cfg (fst w)) C_SPARSE \<and> view (snd w) \<noteq> [] \<and> last (view (snd w)) = 0
      else conv (cfg (fst w)) C_SPARSE \<longrightarrow> solid (snd w))"

definition carried :: "'h hash_api \<Rightarrow> byte list \<Rightarrow> 'h st \<Rightarrow> 'h st \<Rightarrow> bool" where
  "carried H bs w w' \<longleftrightarrow> oc (fst w') = oc (fst w) \<and>
     request (cfg (fst w')) = request (cfg (fst w)) \<and>
     digest (fst w') = digest (hash_feed H bs (fst w)) \<and> (hole_ok w \<longrightarrow> hole_ok w')"

lemma digest_upd: "digest (ctx\<lparr>ibuf := b\<rparr>) = digest ctx" "digest (ctx\<lparr>stats := s\<rparr>) = digest ctx"
    "digest (ctx\<lparr>input_offset := i\<rparr>) = digest ctx"
  by (simp_all add: digest_def)

lemma digest_feed:
  assumes "digest c' = digest c" "conversions_mask (cfg c') = conversions_mask (cfg c)"
  shows "digest (hash_feed H bs c') = digest (hash_feed H bs c)"
  using assms by (simp add: digest_def hash_feed_def conv_def)

lemma digest_feed_Nil [simp]: "digest (hash_feed H [] c) = digest c"
  by (simp add: digest_def hash_feed_def)

lemma digest_feed_append:
  assumes "hash_stream H"
  shows "digest (hash_feed H bs (hash_feed H as c)) = digest (hash_feed H (as @ bs) c)"
  using assms
  by (cases "sha_evp_ctx c"; cases "blks_hasher c"; cases "as = []"; cases "bs = []")
    (auto simp: digest_def hash_feed_def hash_stream_def)

lemma carried_trans:
  assumes "hash_stream H" "carried H as w w'" "carried H bs w' w''"
  shows "carried H (as @ bs) w w''"
proof -
  have "digest (hash_feed H bs (fst w')) = digest (hash_feed H bs (hash_feed H as (fst w)))"
    by (rule digest_feed) (use assms(2) in \<open>simp_all add: carried_def hash_feed_frame request_def\<close>)
  then show ?thesis using assms digest_feed_append [OF assms(1), of bs as "fst w"] by (simp add: carried_def)
qed

lemma solid_cong: "out_data k' = out_data k \<Longrightarrow> out_off k' = out_off k \<Longrightarrow> out_fl k' = out_fl k \<Longrightarrow> solid k' = solid k"
  by (simp add: solid_def out_pos_def)

lemma hole_ok_cong: "cfg c' = cfg c \<Longrightarrow> final_op_was_seek c' = final_op_was_seek c \<Longrightarrow> hole_ok (c', k) = hole_ok (c, k)"
  by (simp add: hole_ok_def)

lemma carried_Nil:
  assumes "digest c' = digest c" "oc c' = oc c" "request (cfg c') = request (cfg c)"
    "final_op_was_seek c' = final_op_was_seek c" "out_data k' = out_data k" "out_off k' = out_off k" "out_fl k' = out_fl k"
  shows "carried H [] (c, k) (c', k')"
  using assms solid_cong [OF assms(5-7)] requestD(6) [OF assms(3)] by (simp add: carried_def hole_ok_def view_def out_pos_def)

lemma carried_write:
  assumes "digest c' = digest (hash_feed H bs c)" "oc c' = oc c" "request (cfg c') = request (cfg c)"
    "hole_ok (c', k')"
  shows "carried H bs (c, k) (c', k')"
  using assms by (simp add: carried_def)

lemma dd_iwrite_hole:
  assumes w: "dd_iwrite H bs (ctx, k) = (length bs, ctx', k')" and sp: "sparse_ok (cfg ctx) k" and bs: "bs \<noteq> []"
  shows "hole_ok (ctx', k')"
proof -
  have c: "cfg ctx' = cfg ctx" using wroteD(1) [OF dd_iwrite_contract(3) [OF w sp]] .
  have v: "view k' = view k @ bs" using extendsD(1) [OF dd_iwrite_contract(2) [OF w sp]] by simp
  have "whole ctx' k'" by (rule dd_iwrite_contract(5) [OF w sp refl bs])
  moreover have "conv (cfg ctx) C_SPARSE \<and> is_nul bs" if "final_op_was_seek ctx'"
    using w that by (auto simp: dd_iwrite_def Let_def hash_feed_frame split: prod.splits if_splits option.splits)
  moreover have "last bs = 0" if "is_nul bs"
    using is_nul_all_zero [of bs] that bs by (metis last_replicate length_greater_0_conv neq0_conv)
  ultimately show ?thesis using c v bs by (auto simp: hole_ok_def whole_def)
qed

lemma wrote_digest: "wrote H bs ctx ctx' \<Longrightarrow> digest ctx' = digest (hash_feed H bs ctx)"
  by (auto simp: wrote_def digest_def hash_feed_def)

text \<open>
  The contract of \<open>io_driver.h\<close> as the loop in \<open>dd_copy\<close> uses it. \<open>ready\<close> is the invariant a driver
  keeps between steps; \<open>stop\<close> says when it may report the end; \<open>eff\<close> is the kernel with the offsets the
  driver works at, which \<open>splice\<close> keeps in its own state, and with what it has in flight carried out; \<open>left\<close>
  bounds the steps still to come; \<open>moved\<close> is the count of the bytes moved, those in flight included. A step that
  succeeds moves the next bytes, counts them, and makes progress unless it stops; one that asks for the
  fallback leaves the descriptors where the synchronous driver can take over.
\<close>

locale io_driver =
  fixes step :: "'s \<Rightarrow> 'h st \<Rightarrow> ('s, 'h) step_out option"
    and ready :: "'s \<Rightarrow> 'h st \<Rightarrow> bool"
    and stop :: "'s \<Rightarrow> 'h st \<Rightarrow> bool"
    and eff :: "'s \<Rightarrow> 'h st \<Rightarrow> kern"
    and left :: "'s \<Rightarrow> 'h st \<Rightarrow> nat"
    and moved :: "'s \<Rightarrow> 'h st \<Rightarrow> int"
  assumes step_defined: "ready d w \<Longrightarrow> step d w \<noteq> None"
    and step_moves: "ready d w \<Longrightarrow> step d w = Some r \<Longrightarrow> rc r = EXIT_SUCCESS \<Longrightarrow> \<not> fallback r \<Longrightarrow>
      ready (dstate r) (world r) \<and>
      (\<exists>bs. moves bs (eff d w) (eff (dstate r) (world r)) \<and>
        moved (dstate r) (world r) = moved d w + int (length bs) \<and>
        (eof r \<longrightarrow> stop (dstate r) (world r)))"
    and step_progress: "ready d w \<Longrightarrow> step d w = Some r \<Longrightarrow> rc r = EXIT_SUCCESS \<Longrightarrow> \<not> fallback r \<Longrightarrow> \<not> eof r \<Longrightarrow>
      left (dstate r) (world r) < left d w"
    and step_fallback: "ready d w \<Longrightarrow> step d w = Some r \<Longrightarrow> fallback r \<Longrightarrow>
      moves [] (eff d w) (snd (world r)) \<and> w_bytes (stats (fst (world r))) = moved d w"
begin

text \<open>The loop of \<open>dd_copy\<close> around \<open>step\<close>, without signals and limits: at most \<open>n\<close> steps.\<close>

fun steps :: "nat \<Rightarrow> 's \<Rightarrow> 'h st \<Rightarrow> ('s, 'h) step_out option" where
  "steps 0 d w = None"
| "steps (Suc n) d w =
     (case step d w of
        None \<Rightarrow> None
      | Some r \<Rightarrow> if rc r \<noteq> EXIT_SUCCESS \<or> fallback r \<or> eof r then Some r else steps n (dstate r) (world r))"

text \<open>However many steps it takes, a run that ends well moved one stretch of the source, in order.\<close>

lemma steps_moves:
  "ready d w \<Longrightarrow> steps n d w = Some r \<Longrightarrow> rc r = EXIT_SUCCESS \<Longrightarrow> \<not> fallback r \<Longrightarrow>
     \<exists>bs. moves bs (eff d w) (eff (dstate r) (world r)) \<and>
       moved (dstate r) (world r) = moved d w + int (length bs) \<and> eof r \<and>
       ready (dstate r) (world r) \<and> stop (dstate r) (world r)"
proof (induction n arbitrary: d w)
  case (Suc n)
  obtain q where q: "step d w = Some q" using step_defined [OF Suc.prems(1)] by blast
  show ?case
  proof (cases "rc q \<noteq> EXIT_SUCCESS \<or> fallback q \<or> eof q")
    case True
    then have "r = q" using Suc.prems(2) q by simp
    then show ?thesis using step_moves [OF Suc.prems(1) q] Suc.prems True by auto
  next
    case False
    then have s: "steps n (dstate q) (world q) = Some r" using Suc.prems(2) q by simp
    obtain bs where bs: "moves bs (eff d w) (eff (dstate q) (world q))" "ready (dstate q) (world q)"
        "moved (dstate q) (world q) = moved d w + int (length bs)"
      using step_moves [OF Suc.prems(1) q] False by auto
    obtain cs where cs: "moves cs (eff (dstate q) (world q)) (eff (dstate r) (world r))" "eof r"
        "ready (dstate r) (world r)" "stop (dstate r) (world r)"
        "moved (dstate r) (world r) = moved (dstate q) (world q) + int (length cs)"
      using Suc.IH [OF bs(2) s Suc.prems(3,4)] by blast
    have "moved (dstate r) (world r) = moved d w + int (length (bs @ cs))"
      using bs(3) cs(5) by simp
    then show ?thesis using moves_trans [OF bs(1) cs(1)] cs(2-4) by blast
  qed
qed simp

text \<open>A run that asks for the fallback has moved what it counted, and the descriptors stand behind it.\<close>

lemma steps_fallback:
  "ready d w \<Longrightarrow> steps n d w = Some r \<Longrightarrow> fallback r \<Longrightarrow>
     \<exists>bs. moves bs (eff d w) (snd (world r)) \<and>
       w_bytes (stats (fst (world r))) = moved d w + int (length bs)"
proof (induction n arbitrary: d w)
  case (Suc n)
  obtain q where q: "step d w = Some q" using step_defined [OF Suc.prems(1)] by blast
  show ?case
  proof (cases "rc q \<noteq> EXIT_SUCCESS \<or> fallback q \<or> eof q")
    case True
    then have "r = q" using Suc.prems(2) q by simp
    then show ?thesis using step_fallback [OF Suc.prems(1) q] Suc.prems(3) by (auto intro: exI [of _ "[]"])
  next
    case False
    then have s: "steps n (dstate q) (world q) = Some r" using Suc.prems(2) q by simp
    obtain bs where bs: "moves bs (eff d w) (eff (dstate q) (world q))" "ready (dstate q) (world q)"
        "moved (dstate q) (world q) = moved d w + int (length bs)"
      using step_moves [OF Suc.prems(1) q] False by auto
    obtain cs where cs: "moves cs (eff (dstate q) (world q)) (snd (world r))"
        "w_bytes (stats (fst (world r))) = moved (dstate q) (world q) + int (length cs)"
      using Suc.IH [OF bs(2) s Suc.prems(3)] by blast
    show ?thesis using moves_trans [OF bs(1) cs(1)] bs(3) cs(2) by (intro exI [of _ "bs @ cs"]) simp
  qed
qed simp

text \<open>A driver whose steps never ask for the fallback does not ask for it in a run.\<close>

lemma steps_no_fallback:
  assumes nf: "\<And>d w r. ready d w \<Longrightarrow> step d w = Some r \<Longrightarrow> \<not> fallback r"
  shows "ready d w \<Longrightarrow> steps n d w = Some r \<Longrightarrow> \<not> fallback r"
proof (induction n arbitrary: d w)
  case (Suc n)
  obtain q where q: "step d w = Some q" using step_defined [OF Suc.prems(1)] by blast
  show ?case
  proof (cases "rc q \<noteq> EXIT_SUCCESS \<or> fallback q \<or> eof q")
    case True
    then show ?thesis using Suc.prems q nf [OF Suc.prems(1) q] by simp
  next
    case False
    then have "ready (dstate q) (world q)" using step_moves [OF Suc.prems(1) q] by auto
    then show ?thesis using Suc.IH Suc.prems(2) q False by simp
  qed
qed simp

text \<open>The loop ends.\<close>

lemma steps_end:
  "ready d w \<Longrightarrow> left d w < n \<Longrightarrow> steps n d w \<noteq> None"
proof (induction n arbitrary: d w)
  case (Suc n)
  obtain q where q: "step d w = Some q" using step_defined [OF Suc.prems(1)] by blast
  show ?case
  proof (cases "rc q \<noteq> EXIT_SUCCESS \<or> fallback q \<or> eof q")
    case True
    with q show ?thesis by simp
  next
    case False
    then have "ready (dstate q) (world q)" using step_moves [OF Suc.prems(1) q] by auto
    moreover have "left (dstate q) (world q) < n"
      using step_progress [OF Suc.prems(1) q] False Suc.prems(2) by auto
    ultimately show ?thesis using Suc.IH q False by simp
  qed
qed simp

end

end
