(* ===== verification/Swab.thy ===== *)
theory Swab
  imports Blkcp_Prelude
begin

text \<open>
  The byte-swapping conversion of \<open>src/src/conversions.c\<close>: the scalar loop, the AVX2/SSSE3
  routine as loads, in-lane byte shuffles and stores on the buffer, and \<open>dd_swab_buffer\<close> with
  its carry of an odd trailing byte from one block to the next. The specification is
  \<open>swap_pairs\<close>: exchange adjacent bytes, keep an odd last one.
\<close>

section \<open>The specification\<close>

fun swap_pairs :: "byte list \<Rightarrow> byte list" where
  "swap_pairs (x # y # r) = y # x # swap_pairs r"
| "swap_pairs r = r"

lemma length_swap_pairs [simp]: "length (swap_pairs xs) = length xs"
  by (induction xs rule: swap_pairs.induct) auto

lemma swap_pairs_append:
  "even (length xs) \<Longrightarrow> swap_pairs (xs @ ys) = swap_pairs xs @ swap_pairs ys"
  by (induction xs rule: swap_pairs.induct) auto

lemma swap_pairs_involution: "swap_pairs (swap_pairs xs) = xs"
  by (induction xs rule: swap_pairs.induct) auto

lemma swap_pairs_nth:
  "even (length xs) \<Longrightarrow> j < length xs \<Longrightarrow>
     swap_pairs xs ! j = (if even j then xs ! (j + 1) else xs ! (j - 1))"
proof (induction xs arbitrary: j rule: swap_pairs.induct)
  case (1 x y r)
  then have IH: "swap_pairs r ! i = (if even i then r ! (i + 1) else r ! (i - 1))"
    if "i < length r" for i using that by simp
  show ?case
  proof (cases j)
    case 0
    then show ?thesis by simp
  next
    case j: (Suc k)
    show ?thesis
    proof (cases k)
      case 0
      with j show ?thesis by simp
    next
      case (Suc i)
      with j "1.prems" have "i < length r" by simp
      from IH [OF this] j Suc show ?thesis by (cases i) auto
    qed
  qed
qed auto

section \<open>The scalar loop\<close>

text \<open>\<open>for (i = 0; i + 2 <= len; i += 2)\<close> exchanging \<open>buf[i]\<close> and \<open>buf[i + 1]\<close>.\<close>

function swab_scalar_from :: "nat \<Rightarrow> byte list \<Rightarrow> nat \<Rightarrow> byte list" where
  "swab_scalar_from i buf len =
     (if i + 2 \<le> len
      then let tmp = buf ! i
           in swab_scalar_from (i + 2) ((buf[i := buf ! (i + 1)])[i + 1 := tmp]) len
      else buf)"
  by pat_completeness auto
termination
  by (relation "measure (\<lambda>(i, buf, len). len - i)") auto

declare swab_scalar_from.simps [simp del]

definition swab_scalar :: "byte list \<Rightarrow> nat \<Rightarrow> byte list" where
  "swab_scalar buf len = swab_scalar_from 0 buf len"

section \<open>The vector routine\<close>

text \<open>
  \<open>_mm_shuffle_epi8\<close> on one 16-byte lane: byte \<open>j\<close> of the result is 0 when bit 7 of mask byte
  \<open>j\<close> is set, and otherwise the source byte selected by the low four bits of the mask byte;
  \<open>_mm256_shuffle_epi8\<close> does so in each of its two lanes.
\<close>

definition shuffle_epi8 :: "byte list \<Rightarrow> nat list \<Rightarrow> byte list" where
  "shuffle_epi8 v msk = map (\<lambda>m. if 128 \<le> m then 0 else v ! (m mod 16)) msk"

definition mm256_shuffle_epi8 :: "byte list \<Rightarrow> nat list \<Rightarrow> byte list" where
  "mm256_shuffle_epi8 v msk =
     shuffle_epi8 (take 16 v) (take 16 msk) @ shuffle_epi8 (drop 16 v) (drop 16 msk)"

definition m128 :: "nat list" where
  "m128 = [1, 0, 3, 2, 5, 4, 7, 6, 9, 8, 11, 10, 13, 12, 15, 14]"

definition m256 :: "nat list" where "m256 = m128 @ m128"

definition loadu :: "nat \<Rightarrow> byte list \<Rightarrow> nat \<Rightarrow> byte list" where
  "loadu w buf i = take w (drop i buf)"

definition storeu :: "byte list \<Rightarrow> nat \<Rightarrow> byte list \<Rightarrow> byte list" where
  "storeu buf i v = take i buf @ v @ drop (i + length v) buf"

function swab_avx2_128 :: "nat \<Rightarrow> byte list \<Rightarrow> nat \<Rightarrow> nat \<times> byte list" where
  "swab_avx2_128 i buf len =
     (if i + 128 \<le> len
      then let v0 = mm256_shuffle_epi8 (loadu 32 buf i) m256;
               v1 = mm256_shuffle_epi8 (loadu 32 buf (i + 32)) m256;
               v2 = mm256_shuffle_epi8 (loadu 32 buf (i + 64)) m256;
               v3 = mm256_shuffle_epi8 (loadu 32 buf (i + 96)) m256;
               buf = storeu buf i v0;
               buf = storeu buf (i + 32) v1;
               buf = storeu buf (i + 64) v2;
               buf = storeu buf (i + 96) v3
           in swab_avx2_128 (i + 128) buf len
      else (i, buf))"
  by pat_completeness auto
termination
  by (relation "measure (\<lambda>(i, buf, len). len - i)") auto

function swab_avx2_32 :: "nat \<Rightarrow> byte list \<Rightarrow> nat \<Rightarrow> nat \<times> byte list" where
  "swab_avx2_32 i buf len =
     (if i + 32 \<le> len
      then swab_avx2_32 (i + 32) (storeu buf i (mm256_shuffle_epi8 (loadu 32 buf i) m256)) len
      else (i, buf))"
  by pat_completeness auto
termination
  by (relation "measure (\<lambda>(i, buf, len). len - i)") auto

declare swab_avx2_128.simps [simp del] swab_avx2_32.simps [simp del]

definition swab_avx2_16 :: "nat \<Rightarrow> byte list \<Rightarrow> nat \<Rightarrow> nat \<times> byte list" where
  "swab_avx2_16 i buf len =
     (if i + 16 \<le> len
      then (i + 16, storeu buf i (shuffle_epi8 (loadu 16 buf i) m128))
      else (i, buf))"

definition swab_avx2 :: "byte list \<Rightarrow> nat \<Rightarrow> byte list" where
  "swab_avx2 buf len =
     (let (i, buf) = swab_avx2_128 0 buf len;
          (i, buf) = swab_avx2_32 i buf len;
          (i, buf) = swab_avx2_16 i buf len
      in take i buf @ swab_scalar (drop i buf) (len - i))"

section \<open>dd_swab_buffer\<close>

text \<open>\<open>for (i = *nread; 1 < i; i -= 2) buf[i] = buf[i - 2];\<close>\<close>

function shift_up :: "nat \<Rightarrow> byte list \<Rightarrow> byte list" where
  "shift_up i buf = (if 1 < i then shift_up (i - 2) (buf[i := buf ! (i - 2)]) else buf)"
  by pat_completeness auto
termination
  by (relation "measure fst") auto

declare shift_up.simps [simp del]

text \<open>
  \<open>dd_swab_buffer (buf, &nread, &saved_byte)\<close> returns the buffer and the new values of
  \<open>*nread\<close> and \<open>*saved_byte\<close> (\<open>-1\<close> when there is none); \<open>avx2\<close> is the answer of
  \<open>__builtin_cpu_supports\<close>.
\<close>

definition dd_swab_buffer :: "bool \<Rightarrow> byte list \<Rightarrow> nat \<Rightarrow> int \<Rightarrow> byte list \<times> nat \<times> int" where
  "dd_swab_buffer avx2 buf nread saved_byte =
     (if nread = 0 then (buf, nread, saved_byte)
      else
        let prev_saved = saved_byte in
        if prev_saved < 0 then
          let (nread, saved_byte) =
                (if odd nread then (nread - 1, uint (buf ! (nread - 1))) else (nread, - 1))
          in (if avx2 then swab_avx2 buf nread else swab_scalar buf nread, nread, saved_byte)
        else
          let (nread, saved_byte) =
                (if odd nread then (nread, - 1) else (nread - 1, uint (buf ! (nread - 1))));
              buf = shift_up nread buf;
              buf = buf[1 := word_of_int prev_saved]
          in (buf, nread + 1, saved_byte))"

section \<open>Every routine computes swap_pairs\<close>

text \<open>
  The loops keep one shape of buffer: everything below the index \<open>i\<close> is swapped, the rest is as
  it was. A store of a swapped block at \<open>i\<close> moves the frontier.
\<close>

definition swabbed_upto :: "nat \<Rightarrow> byte list \<Rightarrow> byte list" where
  "swabbed_upto i buf = swap_pairs (take i buf) @ drop i buf"

lemma length_swabbed_upto [simp]: "length (swabbed_upto i buf) = length buf"
  by (simp add: swabbed_upto_def)

lemma swabbed_upto_0 [simp]: "swabbed_upto 0 buf = buf"
  by (simp add: swabbed_upto_def)

lemma loadu_swabbed:
  "j \<ge> i \<Longrightarrow> i \<le> length buf \<Longrightarrow> loadu w (swabbed_upto i buf) j = loadu w buf j"
  by (simp add: loadu_def swabbed_upto_def)

lemma storeu_frontier:
  assumes "even i" and "i + w \<le> length buf"
  shows "storeu (swabbed_upto i buf) i (swap_pairs (loadu w buf i)) = swabbed_upto (i + w) buf"
proof -
  have "swap_pairs (take (i + w) buf) = swap_pairs (take i buf) @ swap_pairs (take w (drop i buf))"
    using assms by (simp add: take_add swap_pairs_append)
  then show ?thesis
    using assms by (simp add: storeu_def swabbed_upto_def loadu_def add.commute)
qed

lemma swap2_storeu:
  assumes "i + 2 \<le> length buf"
  shows "buf[i := buf ! (i + 1), i + 1 := buf ! i] = storeu buf i (swap_pairs (loadu 2 buf i))"
proof -
  have b: "buf = take i buf @ buf ! i # buf ! (i + 1) # drop (i + 2) buf"
    using assms id_take_nth_drop [of i buf] Cons_nth_drop_Suc [of "Suc i" buf] by simp
  have "loadu 2 buf i = [buf ! i, buf ! (i + 1)]"
    using assms by (subst b) (simp add: loadu_def)
  moreover have "buf[i := buf ! (i + 1), i + 1 := buf ! i] = take i buf @ buf ! (i + 1) # buf ! i # drop (i + 2) buf"
    using assms by (subst b) (simp add: list_update_append)
  ultimately show ?thesis by (simp add: storeu_def)
qed

lemma swab_scalar_from_swabbed:
  assumes "even i" and "i \<le> len" and "len \<le> length buf"
  shows "swab_scalar_from i (swabbed_upto i buf) len = swabbed_upto (len - len mod 2) buf"
  using assms
proof (induction "len - i" arbitrary: i rule: less_induct)
  case less
  show ?case
  proof (cases "i + 2 \<le> len")
    case True
    let ?b = "swabbed_upto i buf"
    have "?b[i := ?b ! (i + 1), i + 1 := ?b ! i] = swabbed_upto (i + 2) buf"
      using swap2_storeu [of i ?b] storeu_frontier [of i 2 buf] loadu_swabbed [of i i buf 2] less.prems True
      by simp
    then have "swab_scalar_from i ?b len = swab_scalar_from (i + 2) (swabbed_upto (i + 2) buf) len"
      using True by (subst swab_scalar_from.simps) (simp add: Let_def)
    also have "\<dots> = swabbed_upto (len - len mod 2) buf"
      using less.hyps [of "i + 2"] less.prems True by simp
    finally show ?thesis .
  next
    case False
    with less.prems have "len - len mod 2 = i" by presburger
    with False show ?thesis by (subst swab_scalar_from.simps) simp
  qed
qed

lemma swabbed_upto_whole:
  assumes "len \<le> length buf"
  shows "swabbed_upto (len - len mod 2) buf = swap_pairs (take len buf) @ drop len buf"
proof (cases "even len")
  case True
  then show ?thesis by (simp add: swabbed_upto_def)
next
  case False
  then have len: "len = Suc (len - 1)" and ev: "even (len - 1)" by (auto elim: oddE)
  let ?m = "len - 1"
  have m: "?m < length buf" using assms len by simp
  have "take len buf = take ?m buf @ [buf ! ?m]"
    using take_Suc_conv_app_nth [OF m] len by simp
  moreover have "swap_pairs (take ?m buf @ [buf ! ?m]) = swap_pairs (take ?m buf) @ [buf ! ?m]"
    using ev m by (simp add: swap_pairs_append)
  moreover have "drop ?m buf = buf ! ?m # drop len buf"
    using Cons_nth_drop_Suc [OF m] len by simp
  moreover have "len - len mod 2 = ?m" using False by presburger
  ultimately show ?thesis by (simp add: swabbed_upto_def)
qed

lemma swab_scalar_swap_pairs:
  "len \<le> length buf \<Longrightarrow> swab_scalar buf len = swap_pairs (take len buf) @ drop len buf"
  using swab_scalar_from_swabbed [of 0 len buf] swabbed_upto_whole [of len buf]
  by (simp add: swab_scalar_def)

lemma shuffle_m128: "length v = 16 \<Longrightarrow> shuffle_epi8 v m128 = swap_pairs v"
  by (erule length_16_cases) (simp add: shuffle_epi8_def m128_def)

lemma shuffle_m256: "length v = 32 \<Longrightarrow> mm256_shuffle_epi8 v m256 = swap_pairs v"
proof -
  assume len: "length v = 32"
  have "mm256_shuffle_epi8 v m256 = swap_pairs (take 16 v) @ swap_pairs (drop 16 v)"
    using len shuffle_m128 [of "take 16 v"] shuffle_m128 [of "drop 16 v"]
    by (simp add: mm256_shuffle_epi8_def m256_def m128_def)
  also have "\<dots> = swap_pairs (take 16 v @ drop 16 v)"
    using len by (simp add: swap_pairs_append del: append_take_drop_id)
  finally show ?thesis by simp
qed

lemma length_loadu: "i + w \<le> length buf \<Longrightarrow> length (loadu w buf i) = w"
  by (simp add: loadu_def)

lemma vector_step:
  assumes "even i" and "i + 32 \<le> length buf" and "k = i + 32"
  shows "storeu (swabbed_upto i buf) i (mm256_shuffle_epi8 (loadu 32 buf i) m256) = swabbed_upto k buf"
  using assms storeu_frontier [of i 32 buf] by (simp add: shuffle_m256 length_loadu)

lemma swab_avx2_128_swabbed:
  assumes "even i" and "i \<le> len" and "len \<le> length buf"
  shows "\<exists>k. swab_avx2_128 i (swabbed_upto i buf) len = (k, swabbed_upto k buf) \<and> even k \<and> k \<le> len"
  using assms
proof (induction "len - i" arbitrary: i rule: less_induct)
  case less
  show ?case
  proof (cases "i + 128 \<le> len")
    case True
    note s = vector_step [of _ buf]
    have "swab_avx2_128 i (swabbed_upto i buf) len = swab_avx2_128 (i + 128) (swabbed_upto (i + 128) buf) len"
      using True less.prems s [of i "i + 32"] s [of "i + 32" "i + 64"] s [of "i + 64" "i + 96"]
        s [of "i + 96" "i + 128"]
      by (subst swab_avx2_128.simps) (simp add: Let_def loadu_swabbed)
    with less.hyps [of "i + 128"] less.prems True show ?thesis by simp
  next
    case False
    with less.prems show ?thesis by (subst swab_avx2_128.simps) auto
  qed
qed

lemma swab_avx2_32_swabbed:
  assumes "even i" and "i \<le> len" and "len \<le> length buf"
  shows "\<exists>k. swab_avx2_32 i (swabbed_upto i buf) len = (k, swabbed_upto k buf) \<and> even k \<and> k \<le> len"
  using assms
proof (induction "len - i" arbitrary: i rule: less_induct)
  case less
  show ?case
  proof (cases "i + 32 \<le> len")
    case True
    have "swab_avx2_32 i (swabbed_upto i buf) len = swab_avx2_32 (i + 32) (swabbed_upto (i + 32) buf) len"
      using True less.prems vector_step [of i buf]
      by (subst swab_avx2_32.simps) (simp add: loadu_swabbed)
    with less.hyps [of "i + 32"] less.prems True show ?thesis by simp
  next
    case False
    with less.prems show ?thesis by (subst swab_avx2_32.simps) auto
  qed
qed

lemma swab_avx2_16_swabbed:
  assumes "even i" and "i \<le> len" and "len \<le> length buf"
  shows "\<exists>k. swab_avx2_16 i (swabbed_upto i buf) len = (k, swabbed_upto k buf) \<and> even k \<and> k \<le> len"
  using assms storeu_frontier [of i 16 buf]
  by (auto simp: swab_avx2_16_def loadu_swabbed shuffle_m128 length_loadu)

lemma swab_avx2_swap_pairs:
  assumes len: "len \<le> length buf"
  shows "swab_avx2 buf len = swap_pairs (take len buf) @ drop len buf"
proof -
  obtain i where i: "swab_avx2_128 0 buf len = (i, swabbed_upto i buf)" "even i" "i \<le> len"
    using swab_avx2_128_swabbed [of 0 len buf] len by auto
  obtain j where j: "swab_avx2_32 i (swabbed_upto i buf) len = (j, swabbed_upto j buf)" "even j" "j \<le> len"
    using swab_avx2_32_swabbed [of i len buf] len i by auto
  obtain k where k: "swab_avx2_16 j (swabbed_upto j buf) len = (k, swabbed_upto k buf)" "even k" "k \<le> len"
    using swab_avx2_16_swabbed [of j len buf] len j by auto
  have t: "take k (swabbed_upto k buf) = swap_pairs (take k buf)" "drop k (swabbed_upto k buf) = drop k buf"
    using k len by (simp_all add: swabbed_upto_def)
  have "swab_avx2 buf len = swap_pairs (take k buf) @ swap_pairs (take (len - k) (drop k buf)) @ drop len buf"
    using i(1) j(1) k len by (simp add: swab_avx2_def t swab_scalar_swap_pairs)
  also have "\<dots> = swap_pairs (take k buf @ take (len - k) (drop k buf)) @ drop len buf"
    using k len by (simp add: swap_pairs_append)
  also have "\<dots> = swap_pairs (take len buf) @ drop len buf"
    using k by (simp add: take_take_drop)
  finally show ?thesis .
qed

section \<open>The carry across blocks\<close>

text \<open>
  \<open>pending saved\<close> is what \<open>*saved_byte\<close> holds back. A call takes the held byte and the block as
  one stream, delivers the swapped even part of it, and holds back the odd rest.
\<close>

definition pending :: "int \<Rightarrow> byte list" where
  "pending s = (if s < 0 then [] else [word_of_int s])"

definition even_part :: "nat \<Rightarrow> nat" where
  "even_part n = n - n mod 2"

lemma pending_minus1 [simp]: "pending (- 1) = []"
  by (simp add: pending_def)

lemma pending_uint [simp]: "pending (uint (b :: byte)) = [b]"
  by (simp add: pending_def not_less)

lemma even_part_le: "even_part n \<le> n"
  by (simp add: even_part_def)

lemma even_part_cases: "even_part n = n \<and> even n \<or> even_part n = n - 1 \<and> odd n"
  by (cases "even n") (simp_all add: even_part_def odd_iff_mod_2_eq_one)

lemma swap_pairs_split:
  "swap_pairs (take (even_part (length xs)) xs) @ drop (even_part (length xs)) xs = swap_pairs xs"
proof -
  have "even (even_part (length xs))" using even_part_cases [of "length xs"] by auto
  then have "swap_pairs (take (even_part (length xs)) xs @ drop (even_part (length xs)) xs) =
      swap_pairs (take (even_part (length xs)) xs) @ swap_pairs (drop (even_part (length xs)) xs)"
    by (intro swap_pairs_append) (simp add: min_absorb2 even_part_le)
  moreover have "length (drop (even_part (length xs)) xs) < 2" by (simp add: even_part_def)
  then have "swap_pairs (drop (even_part (length xs)) xs) = drop (even_part (length xs)) xs"
    by (cases "drop (even_part (length xs)) xs" rule: swap_pairs.cases) auto
  ultimately show ?thesis by simp
qed

lemma length_shift_up [simp]: "length (shift_up i buf) = length buf"
  by (induction i buf rule: shift_up.induct) (subst shift_up.simps, simp)

lemma shift_up_nth:
  assumes "i < length buf" and "j < length buf"
  shows "shift_up i buf ! j = (if 2 \<le> j \<and> j \<le> i \<and> even (i - j) then buf ! (j - 2) else buf ! j)"
  using assms
proof (induction i arbitrary: buf rule: less_induct)
  case (less i)
  show ?case
  proof (cases "1 < i")
    case True
    let ?b = "buf[i := buf ! (i - 2)]"
    have "shift_up i buf ! j = shift_up (i - 2) ?b ! j"
      using True by (subst shift_up.simps) simp
    also have "\<dots> = (if 2 \<le> j \<and> j \<le> i - 2 \<and> even (i - 2 - j) then ?b ! (j - 2) else ?b ! j)"
      using less.IH [of "i - 2" ?b] True less.prems by simp
    also have "\<dots> = (if 2 \<le> j \<and> j \<le> i \<and> even (i - j) then buf ! (j - 2) else buf ! j)"
    proof (cases "j \<le> i - 2")
      case le: True
      then have "even (i - 2 - j) = even (i - j)" using True by auto
      with le True show ?thesis by auto
    next
      case gt: False
      then have "j = i - 1 \<or> j = i \<or> i < j" by auto
      with True less.prems show ?thesis by auto
    qed
    finally show ?thesis .
  next
    case False
    then show ?thesis by (subst shift_up.simps) auto
  qed
qed

lemma carry_block:
  assumes n: "odd n" "n < length buf"
  shows "take (n + 1) ((shift_up n buf)[1 := s]) = swap_pairs (s # take n buf)"
proof (rule nth_equalityI)
  show "length (take (n + 1) ((shift_up n buf)[1 := s])) = length (swap_pairs (s # take n buf))"
    using n by simp
next
  fix j assume "j < length (take (n + 1) ((shift_up n buf)[1 := s]))"
  with n have j: "j < n + 1" "j < length buf" by auto
  have r: "swap_pairs (s # take n buf) ! j =
      (if even j then (s # take n buf) ! (j + 1) else (s # take n buf) ! (j - 1))"
    using n j by (intro swap_pairs_nth) auto
  have par: "even (n - j) \<longleftrightarrow> odd j" using n j by auto
  show "take (n + 1) ((shift_up n buf)[1 := s]) ! j = swap_pairs (s # take n buf) ! j"
  proof (cases "even j")
    case True
    then have "j < n" using n j by (cases "j = n") auto
    with True n j r par show ?thesis by (auto simp: shift_up_nth nth_list_update)
  next
    case False
    then obtain k where "j = Suc (2 * k)" by (auto elim: oddE)
    with False n j r par show ?thesis
      by (cases k) (auto simp: shift_up_nth nth_list_update)
  qed
qed

text \<open>The contract of one call, on every branch.\<close>

definition swab_result :: "int \<Rightarrow> byte list \<Rightarrow> byte list \<times> nat \<times> int \<Rightarrow> bool" where
  "swab_result saved blk res =
     (case res of (buf', nread', saved') \<Rightarrow>
        let stream = pending saved @ blk; m = even_part (length stream)
        in take nread' buf' = swap_pairs (take m stream) \<and> pending saved' = drop m stream \<and>
           nread' = m \<and> nread' \<le> length buf' \<and> - 1 \<le> saved' \<and> saved' < 256)"

lemma swab_block:
  "n \<le> length buf \<Longrightarrow>
     (if avx2 then swab_avx2 buf n else swab_scalar buf n) = swap_pairs (take n buf) @ drop n buf"
  by (simp add: swab_avx2_swap_pairs swab_scalar_swap_pairs)

lemma uint_byte_bound: "uint (b :: byte) < 256" "- 1 \<le> uint (b :: byte)"
  using uint_lt2p [of b] uint_ge_0 [of b] by (simp_all add: order_trans [of "- 1" 0])

lemma dd_swab_buffer_fast:
  assumes "saved < 0" "- 1 \<le> saved" "n \<le> length buf"
  shows "swab_result saved (take n buf) (dd_swab_buffer avx2 buf n saved)"
proof (cases "n = 0")
  case True
  with assms show ?thesis
    by (simp add: dd_swab_buffer_def swab_result_def pending_def even_part_def)
next
  case False
  show ?thesis
  proof (cases "odd n")
    case True
    then have ep: "even_part n = n - 1" by (simp add: even_part_def odd_iff_mod_2_eq_one)
    have "n - 1 < length buf" using assms False by simp
    then have "drop (n - 1) (take n buf) = [buf ! (n - 1)]"
      using False by (simp add: drop_take Cons_nth_drop_Suc [symmetric])
    with True False assms ep show ?thesis
      by (simp add: dd_swab_buffer_def swab_result_def Let_def swab_block pending_def [of saved]
          min_absorb1 min_absorb2 uint_byte_bound le_diff_conv)
  next
    case even: False
    then have "even_part n = n" by (simp add: even_part_def)
    with even False assms show ?thesis
      by (simp add: dd_swab_buffer_def swab_result_def Let_def swab_block pending_def [of saved])
  qed
qed

lemma dd_swab_buffer_carry:
  assumes "0 \<le> saved" "saved < 256" "n < length buf"
  shows "swab_result saved (take n buf) (dd_swab_buffer avx2 buf n saved)"
proof (cases "n = 0")
  case True
  with assms show ?thesis
    by (simp add: dd_swab_buffer_def swab_result_def pending_def even_part_def)
next
  case False
  let ?s = "word_of_int saved :: byte"
  show ?thesis
  proof (cases "odd n")
    case True
    then have "even_part (Suc n) = Suc n" by (simp add: even_part_def)
    with True False assms show ?thesis
      using carry_block [of n buf ?s]
      by (simp add: dd_swab_buffer_def swab_result_def Let_def pending_def [of saved] min_absorb1)
  next
    case even: False
    then have ep: "even_part (Suc n) = n" and od: "odd (n - 1)" and n1: "n - 1 + 1 = n"
      using False by (simp_all add: even_part_def mod_Suc)
    have "drop (n - 1) (take n buf) = [buf ! (n - 1)]"
      using False assms by (simp add: drop_take Cons_nth_drop_Suc [symmetric])
    then have "drop n (?s # take n buf) = [buf ! (n - 1)]"
      using False by (cases n) auto
    moreover have "take n (?s # take n buf) = ?s # take (n - 1) buf"
      using False assms by (cases n) (auto simp: min_absorb1)
    ultimately show ?thesis
      using even False assms ep od n1 carry_block [of "n - 1" buf ?s]
      by (simp add: dd_swab_buffer_def swab_result_def Let_def pending_def [of saved] uint_byte_bound)
  qed
qed

text \<open>A sequence of blocks, each in its buffer, as \<open>sync_driver_step\<close> passes them; the bytes handed on, and the byte held back.\<close>

fun swab_run :: "bool \<Rightarrow> int \<Rightarrow> (byte list \<times> nat) list \<Rightarrow> byte list \<times> int" where
  "swab_run avx2 saved [] = ([], saved)"
| "swab_run avx2 saved ((buf, n) # blocks) =
     (let (buf', n', saved') = dd_swab_buffer avx2 buf n saved;
          (out, saved'') = swab_run avx2 saved' blocks
      in (take n' buf' @ out, saved''))"

lemma swab_result_stream:
  assumes "swab_result saved blk (buf', n', saved')"
  shows "take n' buf' @ swap_pairs (pending saved' @ rest) = swap_pairs (pending saved @ blk @ rest)"
proof -
  let ?s = "pending saved @ blk" and ?m = "even_part (length (pending saved @ blk))"
  have "even ?m" using even_part_cases [of "length ?s"] by auto
  then have ev: "even (length (take ?m ?s))" by (simp only: length_take min_absorb2 [OF even_part_le])
  have "take n' buf' @ swap_pairs (pending saved' @ rest) =
      swap_pairs (take ?m ?s) @ swap_pairs (drop ?m ?s @ rest)"
    using assms unfolding swab_result_def Let_def prod.case by metis
  also have "\<dots> = swap_pairs (take ?m ?s @ drop ?m ?s @ rest)"
    using swap_pairs_append [OF ev, of "drop ?m ?s @ rest"] by simp
  also have "take ?m ?s @ drop ?m ?s @ rest = pending saved @ blk @ rest"
    by (simp only: append_assoc [symmetric] append_take_drop_id)
  finally show ?thesis .
qed

lemma dd_swab_buffer_result:
  assumes "- 1 \<le> saved" "saved < 256" "n < length buf"
  shows "swab_result saved (take n buf) (dd_swab_buffer avx2 buf n saved)"
  using assms dd_swab_buffer_fast [of saved n buf avx2] dd_swab_buffer_carry [of saved n buf avx2]
  by (cases "saved < 0") auto

text \<open>
  C10: the AVX2/SSSE3 routine and the scalar loop leave the same bytes in the buffer, for every length
  inside it: the CPU the program runs on does not change its output.
\<close>

theorem swab_avx2_eq_scalar:
  assumes "len \<le> length buf"
  shows "swab_avx2 buf len = swab_scalar buf len"
  using assms by (simp add: swab_avx2_swap_pairs swab_scalar_swap_pairs)

lemma swab_avx2_eq_scalar_witness:
  "swab_avx2 [1, 2, 3, 4, 5] 5 = swab_scalar [1, 2, 3, 4, 5] 5 \<and> swab_scalar [1, 2, 3, 4, 5] 5 = [2, 1, 4, 3, 5]"
proof
  show "swab_avx2 [1, 2, 3, 4, 5] 5 = swab_scalar [1, 2, 3, 4, 5] 5" by (rule swab_avx2_eq_scalar) simp
  show "swab_scalar [1, 2, 3, 4, 5] 5 = [2, 1, 4, 3, 5]"
    by (simp add: swab_scalar_def swab_scalar_from.simps Let_def)
qed

text \<open>
  One call of \<open>dd_swab_buffer\<close>, with or without a byte held back from the block before, delivers
  the swapped even part of that byte and the block, holds back the odd rest, keeps the result inside
  the buffer and \<open>*saved_byte\<close> in its range, provided the buffer has one byte of room.
\<close>

theorem dd_swab_buffer_block:
  assumes "- 1 \<le> saved" "saved < 256" "n < length buf" "dd_swab_buffer avx2 buf n saved = (buf', n', saved')"
  shows "take n' buf' = swap_pairs (take (even_part (length (pending saved @ take n buf))) (pending saved @ take n buf)) \<and>
    pending saved' = drop (even_part (length (pending saved @ take n buf))) (pending saved @ take n buf) \<and>
    n' \<le> length buf' \<and> - 1 \<le> saved' \<and> saved' < 256"
  using dd_swab_buffer_result [OF assms(1-3), of avx2] unfolding assms(4) swab_result_def Let_def prod.case by blast

lemma dd_swab_buffer_block_witness:
  "pending (- 1) = drop (even_part (length (pending 9 @ take 3 [1, 2, 3, 0]))) (pending 9 @ take 3 [1, 2, 3, 0 :: byte])"
proof -
  have "dd_swab_buffer True [1, 2, 3, 0] 3 9 = ([1, 9, 3, 2], 4, - 1)"
    by (simp add: dd_swab_buffer_def shift_up.simps Let_def)
  then show ?thesis using dd_swab_buffer_block [of 9 3 "[1, 2, 3, 0]" True "[1, 9, 3, 2]" 4 "- 1"] by simp
qed

text \<open>
  C9: byte swapping does not depend on where the reads cut the stream: over any sequence of blocks,
  odd and empty ones included, what \<open>dd_swab_buffer\<close> hands on, followed by the byte it still holds,
  is the pairwise swap of the whole stream. \<open>sync_driver_flush\<close> writes that last byte.
\<close>

theorem swab_run_stream:
  assumes "- 1 \<le> saved" "saved < 256" "\<forall>(buf, n) \<in> set blocks. n < length buf"
  shows "case swab_run avx2 saved blocks of (out, saved') \<Rightarrow>
    out @ pending saved' = swap_pairs (pending saved @ concat (map (\<lambda>(buf, n). take n buf) blocks))"
  using assms
proof (induction blocks arbitrary: saved)
  case Nil
  show ?case by (simp add: pending_def)
next
  case (Cons b blocks)
  obtain buf n where b: "b = (buf, n)" by fastforce
  obtain buf' n' saved' where d: "dd_swab_buffer avx2 buf n saved = (buf', n', saved')" by (cases "dd_swab_buffer avx2 buf n saved")
  have r: "swab_result saved (take n buf) (buf', n', saved')"
    using dd_swab_buffer_result [of saved n buf avx2] Cons.prems b d by simp
  obtain out saved'' where o: "swab_run avx2 saved' blocks = (out, saved'')" by fastforce
  have "- 1 \<le> saved' \<and> saved' < 256" using r by (simp add: swab_result_def Let_def)
  then show ?case
    using Cons.IH [of saved'] Cons.prems swab_result_stream [OF r] by (simp add: b d o)
qed

lemma swab_run_stream_witness:
  "case swab_run False (- 1) [([1, 2, 3, 0], 3), ([4, 5, 0], 2)] of (out, saved') \<Rightarrow>
     out @ pending saved' = swap_pairs (pending (- 1) @ concat (map (\<lambda>(buf, n). take n buf) [([1, 2, 3, 0], 3), ([4, 5, 0], 2)]))"
  by (rule swab_run_stream) simp_all

end
