(* ===== verification/SyncDriver.thy ===== *)
theory SyncDriver
  imports Driver Swab
begin

text \<open>
  The synchronous block driver of \<open>src/src/io_sync.c\<close> with its in-flight autotuning of the block size:
  \<open>autotune_sample_tick\<close>, \<open>sync_driver_init\<close>, \<open>sync_driver_step\<close> and \<open>sync_driver_flush\<close>.
  (\<open>sync_driver_cleanup\<close> only frees the state.)
\<close>

section \<open>Autotuning\<close>

definition autotune_stages :: "int list" where
  "autotune_stages = [64 * 1024, 256 * 1024, 1024 * 1024, 4 * 1024 * 1024]"

definition NUM_AUTOTUNE_STAGES :: nat where "NUM_AUTOTUNE_STAGES = 4"

text \<open>A measured rate is kept as the two numbers it is the quotient of; \<open>(0, 1)\<close> is the 0.0 of the cleared state.\<close>

record autotune_state =
  active :: bool
  current_stage :: nat
  stage_blocks_done :: int
  stage_start_time :: int
  stage_bytes_start :: int
  stage_rates :: "(int \<times> int) list"
  total_byte_limit :: int

definition set_blocksize :: "int \<Rightarrow> 'h dd_context \<Rightarrow> 'h dd_context" where
  "set_blocksize bs ctx = ctx\<lparr>cfg := (cfg ctx)\<lparr>blocksize := bs\<rparr>\<rparr>"

text \<open>The record limit that goes with the remaining bytes and the block size now in force.\<close>

definition limit_records :: "int \<Rightarrow> 'h dd_context \<Rightarrow> 'h dd_context" where
  "limit_records limit ctx =
     (let remaining = limit - w_bytes (stats ctx) in
      if 0 \<le> limit \<and> 0 < remaining
      then ctx\<lparr>cfg := (cfg ctx)\<lparr>max_records := (r_full (stats ctx) + r_partial (stats ctx)) + remaining div bsize ctx,
                               max_bytes := remaining mod bsize ctx\<rparr>\<rparr>
      else ctx)"

text \<open>The loop that picks the best stage: \<open>for (s = 1; s < max_evaluated; s++)\<close>.\<close>

definition best_stage_step ::
  "(int \<times> int \<Rightarrow> int \<times> int \<Rightarrow> bool) \<Rightarrow> (int \<times> int) list \<Rightarrow> nat \<Rightarrow> nat \<Rightarrow> nat" where
  "best_stage_step gt rates s best = (if gt (rates ! s) (rates ! best) then s else best)"

definition pick_best_stage :: "(int \<times> int \<Rightarrow> int \<times> int \<Rightarrow> bool) \<Rightarrow> (int \<times> int) list \<Rightarrow> nat \<Rightarrow> nat" where
  "pick_best_stage gt rates n = fold (best_stage_step gt rates) [1..<n] 0"

definition autotune_sample_tick :: "autotune_state \<Rightarrow> 'h st \<Rightarrow> autotune_state \<times> 'h st" where
  "autotune_sample_tick at s =
     (case s of (ctx, k) \<Rightarrow>
        if \<not> active at then (at, ctx, k)
        else
          let at = at\<lparr>stage_blocks_done := stage_blocks_done at + 1\<rparr>;
              (now, k) = gethrxtime k;
              stage_elapsed = now - stage_start_time at
          in if stage_blocks_done at < 4 \<and> (stage_elapsed < 1000000000 div 50 \<or> stage_blocks_done at < 2)
             then (at, ctx, k)
             else
               let bytes_transferred = w_bytes (stats ctx) - stage_bytes_start at;
                   at = (if 0 < stage_elapsed
                         then at\<lparr>stage_rates := (stage_rates at)[current_stage at := (bytes_transferred, stage_elapsed)]\<rparr>
                         else at);
                   at = at\<lparr>current_stage := current_stage at + 1\<rparr>;
                   remaining = total_byte_limit at - w_bytes (stats ctx);
                   abort_autotune = (0 \<le> total_byte_limit at \<and>
                      (remaining \<le> 0 \<or> current_stage at < NUM_AUTOTUNE_STAGES
                                          \<and> remaining < autotune_stages ! current_stage at))
               in if current_stage at < NUM_AUTOTUNE_STAGES \<and> \<not> abort_autotune
                  then
                    let ctx = set_blocksize (autotune_stages ! current_stage at) ctx;
                        ctx = limit_records (total_byte_limit at) ctx;
                        (now2, k) = gethrxtime k
                    in (at\<lparr>stage_blocks_done := 0, stage_start_time := now2, stage_bytes_start := w_bytes (stats ctx)\<rparr>,
                        ctx, k)
                  else
                    let max_evaluated = (if current_stage at < NUM_AUTOTUNE_STAGES then current_stage at
                                         else NUM_AUTOTUNE_STAGES);
                        best_stage = pick_best_stage (rate_gt (plat k)) (stage_rates at) max_evaluated;
                        ctx = set_blocksize (autotune_stages ! best_stage) ctx;
                        ctx = limit_records (total_byte_limit at) ctx;
                        at = at\<lparr>active := False\<rparr>
                    in (at, if status_level (cfg ctx) \<noteq> STATUS_NONE
                            then dd_diagnose 0 ''autotune: selected optimal blocksize'' (ctx, k) else (ctx, k)))"

section \<open>Driver state and init\<close>

record sync_driver_state =
  at :: autotune_state
  partread :: int
  saved_byte :: int

text \<open>\<open>while (current_stage + 1 < NUM && stages[current_stage] < hw_min) current_stage++\<close>\<close>

function start_stage :: "int \<Rightarrow> nat \<Rightarrow> nat" where
  "start_stage hw_min i =
     (if i + 1 < NUM_AUTOTUNE_STAGES \<and> autotune_stages ! i < hw_min then start_stage hw_min (i + 1) else i)"
  by pat_completeness auto
termination
  by (relation "measure (\<lambda>(h, i). NUM_AUTOTUNE_STAGES - i)") auto

declare start_stage.simps [simp del]

definition sync_limit :: "dd_config \<Rightarrow> int" where
  "sync_limit c =
     (if 0 \<le> bytes_to_copy c then bytes_to_copy c
      else if any_set (input_flags c) O_COUNT_BYTES \<and> max_records c \<noteq> INTMAX_MAX
        then max_records c * blocksize c + max_bytes c
      else - 1)"

definition sync_driver_init :: "'h st \<Rightarrow> sync_driver_state \<times> 'h st" where
  "sync_driver_init s =
     (case s of (ctx, k) \<Rightarrow>
        let ctx = dd_alloc_obuf k (dd_alloc_ibuf k ctx);
            at0 = \<lparr>active = conv (cfg ctx) C_AUTOTUNE, current_stage = 0, stage_blocks_done = 0, stage_start_time = 0,
                   stage_bytes_start = 0, stage_rates = replicate NUM_AUTOTUNE_STAGES (0, 1),
                   total_byte_limit = sync_limit (cfg ctx)\<rparr>
        in if active at0 then
             let hw_min = max (dd_detect_optimal_blocksize STDIN_FILENO k) (dd_detect_optimal_blocksize STDOUT_FILENO k);
                 stage = (if autotune_stages ! 0 < hw_min then start_stage hw_min 0 else 0);
                 start_bs = autotune_stages ! stage;
                 ctx = set_blocksize start_bs ctx;
                 ctx = (if 0 \<le> total_byte_limit at0
                        then ctx\<lparr>cfg := (cfg ctx)\<lparr>max_records := total_byte_limit at0 div start_bs,
                                                max_bytes := total_byte_limit at0 mod start_bs\<rparr>\<rparr>
                        else ctx);
                 (now, k) = gethrxtime k
             in (\<lparr>at = at0\<lparr>current_stage := stage, stage_start_time := now, stage_bytes_start := w_bytes (stats ctx)\<rparr>,
                  partread = 0, saved_byte = - 1\<rparr>, ctx, k)
           else (\<lparr>at = at0, partread = 0, saved_byte = - 1\<rparr>, ctx, k))"

section \<open>One step\<close>

definition upd_stats :: "(dd_stats \<Rightarrow> dd_stats) \<Rightarrow> 'h dd_context \<Rightarrow> 'h dd_context" where
  "upd_stats f ctx = ctx\<lparr>stats := f (stats ctx)\<rparr>"

text \<open>How many bytes the step asks for.\<close>

definition sync_to_read :: "sync_driver_state \<Rightarrow> 'h dd_context \<Rightarrow> int" where
  "sync_to_read st ctx =
     (let to_read = (if max_records (cfg ctx) \<le> r_partial (stats ctx) + r_full (stats ctx)
                     then max_bytes (cfg ctx) else bsize ctx);
          remaining = total_byte_limit (at st) - w_bytes (stats ctx)
      in if 0 \<le> total_byte_limit (at st) \<and> remaining < to_read then remaining else to_read)"

text \<open>Counting the block and padding a short one: the new counters, \<open>ibuf\<close> and \<open>n_bytes_read\<close>.\<close>

definition sync_account :: "nat \<Rightarrow> sync_driver_state \<Rightarrow> 'h dd_context \<Rightarrow> nat \<times> sync_driver_state \<times> 'h dd_context" where
  "sync_account n st ctx =
     (if int n < bsize ctx then
        let ctx = upd_stats (\<lambda>s. s\<lparr>r_partial := r_partial s + 1\<rparr>) ctx;
            st = st\<lparr>partread := int n\<rparr>
        in if conv (cfg ctx) C_SYNC
           then (bs_nat ctx, st,
                 if \<not> conv (cfg ctx) C_NOERROR
                 then ctx\<lparr>ibuf := Some (blit (ibuf_bytes ctx) n (replicate (bs_nat ctx - n) 0))\<rparr> else ctx)
           else (n, st, ctx)
      else (n, st\<lparr>partread := 0\<rparr>, upd_stats (\<lambda>s. s\<lparr>r_full := r_full s + 1\<rparr>) ctx))"

definition sync_tick :: "sync_driver_state \<Rightarrow> 'h st \<Rightarrow> (sync_driver_state, 'h) step_out option" where
  "sync_tick st w =
     (if active (at st) then (case autotune_sample_tick (at st) w of (a, w) \<Rightarrow> done_ok (st\<lparr>at := a\<rparr>) w)
      else done_ok st w)"

text \<open>The part of the step after a block has been read into \<open>ibuf\<close>.\<close>

definition sync_deliver ::
  "'h hash_api \<Rightarrow> nat \<Rightarrow> sync_driver_state \<Rightarrow> 'h st \<Rightarrow> (sync_driver_state, 'h) step_out option" where
  "sync_deliver H n st w =
     (case w of (ctx, k) \<Rightarrow>
        let (n, st, ctx) = sync_account n st ctx in
        if obuf ctx = OShared then
          let (nwritten, ctx, k) = dd_iwrite H (take n (obuf_bytes ctx)) (ctx, k);
              ctx = upd_stats (\<lambda>s. s\<lparr>w_bytes := w_bytes s + int nwritten\<rparr>) ctx
          in if nwritten \<noteq> n then done_fail st (dd_diagnose (errno k) ''error writing'' (ctx, k))
             else sync_tick st
               (if int n = bsize ctx then upd_stats (\<lambda>s. s\<lparr>w_full := w_full s + 1\<rparr>) ctx
                else upd_stats (\<lambda>s. s\<lparr>w_partial := w_partial s + 1\<rparr>) ctx, k)
        else
          let (buf, n, saved) =
                (if conv (cfg ctx) C_SWAB then dd_swab_buffer (cpu_avx2 (plat k)) (ibuf_bytes ctx) n (saved_byte st)
                 else (ibuf_bytes ctx, n, saved_byte st));
              ctx = ctx\<lparr>ibuf := Some buf\<rparr>
          in (case dd_copy_simple H (take n buf) (ctx, k) of
                None \<Rightarrow> None
              | Some w \<Rightarrow> sync_tick (st\<lparr>saved_byte := saved\<rparr>) w))"

definition sync_read_error :: "'h hash_api \<Rightarrow> int \<Rightarrow> sync_driver_state \<Rightarrow> 'h st \<Rightarrow> (sync_driver_state, 'h) step_out option" where
  "sync_read_error H e st w =
     (let w = (if \<not> conv (cfg (fst w)) C_NOERROR \<or> status_level (cfg (fst w)) \<noteq> STATUS_NONE
               then dd_diagnose e ''error reading'' w else w)
      in if conv (cfg (fst w)) C_NOERROR then
           let (ctx, k) = dd_print_stats w;
               k = dd_invalidate_cache STDIN_FILENO (bsize ctx - partread st) k
           in if conv (cfg ctx) C_SYNC \<and> partread st = 0 then sync_deliver H 0 st (ctx, k)
              else done_ok st (ctx, k)
         else done_fail st w)"

definition sync_driver_step :: "'h hash_api \<Rightarrow> sync_driver_state \<Rightarrow> 'h st \<Rightarrow> (sync_driver_state, 'h) step_out option" where
  "sync_driver_step H st w =
     (case w of (ctx, k) \<Rightarrow>
        if 0 \<le> total_byte_limit (at st) \<and> total_byte_limit (at st) \<le> w_bytes (stats ctx) then done_eof st (ctx, k)
        else if int (length (ibuf_bytes ctx)) < sync_to_read st ctx then None
        else (case iread ctx STDIN_FILENO (nat (sync_to_read st ctx)) k of
                (Inl e, k) \<Rightarrow> sync_read_error H e st (ctx, k)
              | (Inr bs, k) \<Rightarrow>
                  if bs = [] then
                    done_eof st
                      (ctx\<lparr>cfg := (cfg ctx)\<lparr>i_nocache_eof := i_nocache_eof (cfg ctx) \<or> i_nocache (cfg ctx),
                           o_nocache_eof := o_nocache_eof (cfg ctx) \<or> o_nocache (cfg ctx) \<and> \<not> conv (cfg ctx) C_NOTRUNC\<rparr>\<rparr>,
                       k)
                  else
                    let ctx = ctx\<lparr>ibuf := Some (blit (ibuf_bytes ctx) 0 bs)\<rparr>;
                        ctx = dd_advance_input_offset (int (length bs)) ctx;
                        (ctx, k) =
                          (if i_nocache (cfg ctx)
                           then (case dd_invalidate_cache_chunked STDIN_FILENO (int (length bs)) (i_nocache_pending ctx) False k of
                                   (p, k) \<Rightarrow> (ctx\<lparr>i_nocache_pending := p\<rparr>, k))
                           else (ctx, k))
                    in sync_deliver H (length bs) st (ctx, k)))"

section \<open>Flush\<close>

definition sync_driver_flush :: "'h hash_api \<Rightarrow> sync_driver_state \<Rightarrow> 'h st \<Rightarrow> (int \<times> 'h st) option" where
  "sync_driver_flush H st w =
     (case (if 0 \<le> saved_byte st then dd_copy_simple H [word_of_int (saved_byte st)] w else Some w) of
        None \<Rightarrow> None
      | Some (ctx, k) \<Rightarrow>
          if 0 < oc ctx then
            let (nwritten, ctx, k) = dd_iwrite H (take (oc ctx) (obuf_bytes ctx)) (ctx, k);
                ctx = upd_stats (\<lambda>s. s\<lparr>w_bytes := w_bytes s + int nwritten\<rparr>) ctx
            in if nwritten \<noteq> oc ctx
               then Some (EXIT_FAILURE, dd_diagnose (errno k) ''error writing'' (ctx, k))
               else Some (EXIT_SUCCESS, (upd_stats (\<lambda>s. s\<lparr>w_partial := w_partial s + 1\<rparr>) ctx)\<lparr>oc := 0\<rparr>, k)
          else Some (EXIT_SUCCESS, ctx, k))"

section \<open>One tick of autotuning\<close>

definition tuning :: "autotune_state \<Rightarrow> bool" where
  "tuning a \<longleftrightarrow> length (stage_rates a) = NUM_AUTOTUNE_STAGES \<and> 0 \<le> stage_blocks_done a \<and>
     (active a \<longrightarrow> current_stage a < NUM_AUTOTUNE_STAGES \<and> stage_blocks_done a < 4)"

lemma pick_best_stage_Suc:
  "0 < n \<Longrightarrow> pick_best_stage gt rates (Suc n) = best_stage_step gt rates n (pick_best_stage gt rates n)"
  by (simp add: pick_best_stage_def)

lemma pick_best_stage_max:
  assumes "transp gt" "irreflp gt" "0 < n"
  shows "pick_best_stage gt rates n < n \<and> (\<forall>s < n. \<not> gt (rates ! s) (rates ! pick_best_stage gt rates n))"
  using assms(3)
proof (induction n)
  case (Suc n)
  have irr: "\<not> gt x x" for x using assms(2) by (rule irreflpD)
  show ?case
  proof (cases "n = 0")
    case True
    then show ?thesis using irr by (simp add: pick_best_stage_def)
  next
    case False
    then have ih: "pick_best_stage gt rates n < n" "\<forall>s < n. \<not> gt (rates ! s) (rates ! pick_best_stage gt rates n)"
      using Suc.IH by simp_all
    have "\<not> gt (rates ! s) (rates ! n)"
      if "gt (rates ! n) (rates ! pick_best_stage gt rates n)" "s < Suc n" for s
      using that ih(2) irr transpD [OF assms(1)] by (metis less_Suc_eq)
    then show ?thesis
      using ih False irr by (simp add: pick_best_stage_Suc best_stage_step_def less_Suc_eq)
  qed
qed simp

lemma limit_records_frame [frame_simps]:
  "blocksize (cfg (limit_records l ctx)) = blocksize (cfg ctx)" "stats (limit_records l ctx) = stats ctx"
  "ibuf (limit_records l ctx) = ibuf ctx" "status_level (cfg (limit_records l ctx)) = status_level (cfg ctx)"
  by (simp_all add: limit_records_def Let_def)

lemma set_blocksize_frame [frame_simps]:
  "blocksize (cfg (set_blocksize b ctx)) = b" "stats (set_blocksize b ctx) = stats ctx"
  "ibuf (set_blocksize b ctx) = ibuf ctx" "status_level (cfg (set_blocksize b ctx)) = status_level (cfg ctx)"
  by (simp_all add: set_blocksize_def)

text \<open>The outcomes of a tick: it only counts, it moves to the next stage, or it settles.\<close>

lemma gethrxtime_plat: "gethrxtime k = (t, k') \<Longrightarrow> plat k' = plat k"
  by (auto simp: gethrxtime_def split: list.splits)

lemma autotune_tick_cases:
  assumes t: "autotune_sample_tick a (ctx, k) = (a', ctx', k')" and inv: "tuning a" "active a"
  obtains (count) "active a'" "tuning a'" "current_stage a' = current_stage a" "stage_blocks_done a' = stage_blocks_done a + 1"
      "bsize ctx' = bsize ctx"
  | (advance) "active a'" "tuning a'" "current_stage a' = current_stage a + 1" "stage_blocks_done a' = 0"
      "bsize ctx' = autotune_stages ! current_stage a'"
  | (settle) "\<not> active a'" "tuning a'" "current_stage a' = current_stage a + 1"
      "bsize ctx' = autotune_stages ! pick_best_stage (rate_gt (plat k)) (stage_rates a') (current_stage a')"
proof -
  obtain now k1 where g: "gethrxtime k = (now, k1)" by fastforce
  note pl = gethrxtime_plat [OF g]
  let ?d = "stage_blocks_done a + 1" and ?el = "now - stage_start_time a"
  let ?r = "if 0 < ?el then (stage_rates a)[current_stage a := (w_bytes (stats ctx) - stage_bytes_start a, ?el)] else stage_rates a"
  let ?s = "current_stage a + 1"
  let ?rem = "total_byte_limit a - w_bytes (stats ctx)"
  let ?abort = "0 \<le> total_byte_limit a \<and> (?rem \<le> 0 \<or> ?s < NUM_AUTOTUNE_STAGES \<and> ?rem < autotune_stages ! ?s)"
  have len: "length ?r = NUM_AUTOTUNE_STAGES" using inv by (simp add: tuning_def)
  have s: "?s \<le> NUM_AUTOTUNE_STAGES" using inv by (simp add: tuning_def)
  consider (c) "?d < 4 \<and> (?el < 1000000000 div 50 \<or> ?d < 2)"
    | (adv) "\<not> (?d < 4 \<and> (?el < 1000000000 div 50 \<or> ?d < 2))" "?s < NUM_AUTOTUNE_STAGES \<and> \<not> ?abort"
    | (set) "\<not> (?d < 4 \<and> (?el < 1000000000 div 50 \<or> ?d < 2))" "\<not> (?s < NUM_AUTOTUNE_STAGES \<and> \<not> ?abort)" by blast
  then show thesis
  proof cases
    case c
    then have "a' = a\<lparr>stage_blocks_done := ?d\<rparr>" "ctx' = ctx"
      using t inv(2) g by (simp_all add: autotune_sample_tick_def Let_def)
    then show thesis using inv c by (intro count) (auto simp: tuning_def)
  next
    case adv
    obtain n2 k2 where g2: "gethrxtime k1 = (n2, k2)" by fastforce
    have "a' = a\<lparr>stage_blocks_done := 0, stage_rates := ?r, current_stage := ?s, stage_start_time := n2,
        stage_bytes_start := w_bytes (stats ctx)\<rparr>"
      "ctx' = limit_records (total_byte_limit a) (set_blocksize (autotune_stages ! ?s) ctx)"
      using t inv(2) g g2 adv by (auto simp: autotune_sample_tick_def Let_def frame_simps split: if_splits)
    then show thesis using adv len by (intro advance) (simp_all add: tuning_def frame_simps inv(2))
  next
    case set
    let ?b = "pick_best_stage (rate_gt (plat k1)) ?r (if ?s < NUM_AUTOTUNE_STAGES then ?s else NUM_AUTOTUNE_STAGES)"
    have e: "(if ?s < NUM_AUTOTUNE_STAGES then ?s else NUM_AUTOTUNE_STAGES) = ?s" using s by auto
    let ?c = "limit_records (total_byte_limit a) (set_blocksize (autotune_stages ! ?b) ctx)"
    have "a' = a\<lparr>stage_blocks_done := ?d, stage_rates := ?r, current_stage := ?s, active := False\<rparr>"
      "bsize ctx' = bsize ?c"
      using t inv(2) g set quiet_dd_diagnose [of "(?c, k1)" 0 "''autotune: selected optimal blocksize''"]
      by (auto simp: autotune_sample_tick_def Let_def quiet_step_def dest: same_dataD(1) split: if_splits)
    then show thesis using e len inv by (intro settle) (simp_all add: tuning_def frame_simps pl)
  qed
qed

lemma stage_sizes: "b \<in> set autotune_stages \<Longrightarrow> 0 < b \<and> b \<le> 4194304"
  by (auto simp: autotune_stages_def)

lemma nth_stage: "n < NUM_AUTOTUNE_STAGES \<Longrightarrow> autotune_stages ! n \<in> set autotune_stages"
  by (rule nth_mem) (simp add: autotune_stages_def NUM_AUTOTUNE_STAGES_def)

lemma pick_best_stage_less: "0 < n \<Longrightarrow> pick_best_stage gt rates n < n"
proof (induction n)
  case (Suc n)
  then show ?case
    by (cases "n = 0") (auto simp: pick_best_stage_Suc best_stage_step_def pick_best_stage_def)
qed simp

text \<open>What a tick leaves alone: it sets a block size of the table and, under a byte limit, the record limit that goes with it.\<close>

lemma limit_records_cases:
  assumes "0 < bsize ctx"
  obtains (same) "limit_records l ctx = ctx"
  | (set) m x where "0 \<le> l" "0 \<le> x" "x < bsize ctx" "limit_records l ctx = ctx\<lparr>cfg := (cfg ctx)\<lparr>max_records := m, max_bytes := x\<rparr>\<rparr>"
proof (cases "0 \<le> l \<and> 0 < l - w_bytes (stats ctx)")
  case True
  then show ?thesis
    using assms by (intro set [of "(l - w_bytes (stats ctx)) mod bsize ctx"]) (simp_all add: limit_records_def Let_def)
qed (auto simp: limit_records_def Let_def intro: same)

definition retuned :: "int \<Rightarrow> dd_config \<Rightarrow> dd_config \<Rightarrow> bool" where
  "retuned l c c' \<longleftrightarrow> (\<exists>b m x. c' = c\<lparr>blocksize := b, max_records := m, max_bytes := x\<rparr> \<and>
     (b = blocksize c \<or> b \<in> set autotune_stages) \<and>
     (m = max_records c \<and> x = max_bytes c \<or> 0 \<le> l \<and> 0 \<le> x \<and> x \<le> 4194304))"

lemma retunedI:
  assumes "b = blocksize c \<or> b \<in> set autotune_stages"
    and "m = max_records c \<and> x = max_bytes c \<or> 0 \<le> l \<and> 0 \<le> x \<and> x \<le> 4194304"
  shows "retuned l c (c\<lparr>blocksize := b, max_records := m, max_bytes := x\<rparr>)"
  unfolding retuned_def by (rule exI [of _ b], rule exI [of _ m], rule exI [of _ x]) (use assms in simp)

lemma retuned_refl: "retuned l c c"
  unfolding retuned_def by (intro exI [of _ "blocksize c"] exI [of _ "max_records c"] exI [of _ "max_bytes c"]) simp

lemma retuned_limit:
  assumes "b \<in> set autotune_stages"
  shows "retuned l (cfg ctx) (cfg (limit_records l (set_blocksize b ctx)))"
    "limit_records l (set_blocksize b ctx) = ctx\<lparr>cfg := cfg (limit_records l (set_blocksize b ctx))\<rparr>"
proof -
  let ?c = "set_blocksize b ctx"
  have b: "0 < bsize ?c" "b \<le> 4194304" using stage_sizes [OF assms] by (simp_all add: set_blocksize_def)
  show "retuned l (cfg ctx) (cfg (limit_records l ?c))"
  proof (cases rule: limit_records_cases [OF b(1), of l])
    case 1
    have "cfg ?c = (cfg ctx)\<lparr>blocksize := b, max_records := max_records (cfg ctx), max_bytes := max_bytes (cfg ctx)\<rparr>"
      by (simp add: set_blocksize_def)
    with 1 assms show ?thesis
      unfolding retuned_def
      by (intro exI [of _ b] exI [of _ "max_records (cfg ctx)"] exI [of _ "max_bytes (cfg ctx)"]) simp
  next
    case (2 m x)
    then have "cfg (limit_records l ?c) = (cfg ctx)\<lparr>blocksize := b, max_records := m, max_bytes := x\<rparr>" "x \<le> 4194304"
      using b(2) by (simp_all add: set_blocksize_def)
    with 2(1,2) assms show ?thesis unfolding retuned_def by auto
  qed
  show "limit_records l ?c = ctx\<lparr>cfg := cfg (limit_records l ?c)\<rparr>"
    by (simp add: limit_records_def set_blocksize_def Let_def)
qed

lemma autotune_tick_frame:
  assumes t: "autotune_sample_tick a (ctx, k) = (a', ctx', k')" and inv: "tuning a" "active a"
  shows "tuning a' \<and> total_byte_limit a' = total_byte_limit a \<and> same_io k k' \<and>
    retuned (total_byte_limit a) (cfg ctx) (cfg ctx') \<and> same_data (ctx\<lparr>cfg := cfg ctx'\<rparr>) ctx'"
proof -
  have tun: "tuning a'" by (cases rule: autotune_tick_cases [OF t inv]) simp_all
  obtain now k1 where g: "gethrxtime k = (now, k1)" by fastforce
  note io = same_io_gethrxtime [OF g]
  let ?d = "stage_blocks_done a + 1" and ?el = "now - stage_start_time a" and ?s = "current_stage a + 1" and ?l = "total_byte_limit a"
  let ?r = "if 0 < ?el then (stage_rates a)[current_stage a := (w_bytes (stats ctx) - stage_bytes_start a, ?el)] else stage_rates a"
  let ?rem = "?l - w_bytes (stats ctx)"
  let ?abort = "0 \<le> ?l \<and> (?rem \<le> 0 \<or> ?s < NUM_AUTOTUNE_STAGES \<and> ?rem < autotune_stages ! ?s)"
  have s: "?s \<le> NUM_AUTOTUNE_STAGES" using inv by (simp add: tuning_def)
  consider (c) "?d < 4 \<and> (?el < 1000000000 div 50 \<or> ?d < 2)"
    | (adv) "\<not> (?d < 4 \<and> (?el < 1000000000 div 50 \<or> ?d < 2))" "?s < NUM_AUTOTUNE_STAGES \<and> \<not> ?abort"
    | (set) "\<not> (?d < 4 \<and> (?el < 1000000000 div 50 \<or> ?d < 2))" "\<not> (?s < NUM_AUTOTUNE_STAGES \<and> \<not> ?abort)" by blast
  then show ?thesis
  proof cases
    case c
    then have "total_byte_limit a' = ?l" "ctx' = ctx" "k' = k1"
      using t inv(2) g by (auto simp: autotune_sample_tick_def Let_def)
    then show ?thesis using tun io retuned_refl by simp
  next
    case adv
    obtain n2 k2 where g2: "gethrxtime k1 = (n2, k2)" by fastforce
    let ?c = "limit_records ?l (set_blocksize (autotune_stages ! ?s) ctx)"
    have "total_byte_limit a' = ?l" "ctx' = ?c" "k' = k2"
      using t inv(2) g g2 adv by (auto simp: autotune_sample_tick_def Let_def frame_simps split: if_splits)
    then show ?thesis
      using tun same_io_trans [OF io same_io_gethrxtime [OF g2]] retuned_limit [OF nth_stage, of ?s ?l ctx] adv by simp
  next
    case set
    let ?b = "pick_best_stage (rate_gt (plat k1)) ?r (if ?s < NUM_AUTOTUNE_STAGES then ?s else NUM_AUTOTUNE_STAGES)"
    let ?c = "limit_records ?l (set_blocksize (autotune_stages ! ?b) ctx)"
    have "?b < NUM_AUTOTUNE_STAGES" using pick_best_stage_less less_le_trans [OF _ s] by (simp add: NUM_AUTOTUNE_STAGES_def)
    note rt = retuned_limit [OF nth_stage [OF this], of ?l ctx]
    have "total_byte_limit a' = ?l" "quiet_step (?c, k1) (ctx', k')"
      using t inv(2) g set quiet_dd_diagnose [of "(?c, k1)" 0 "''autotune: selected optimal blocksize''"]
      by (auto simp: autotune_sample_tick_def Let_def split: if_splits prod.splits)
    then show ?thesis
      using tun same_io_trans [OF io] rt same_dataD(1) [of ?c ctx'] by (auto simp: quiet_step_def)
  qed
qed

section \<open>The plain copy keeps the driver contract\<close>

text \<open>
  \<open>sync_ready\<close>: the driver copies verbatim (no byte swapping, padding or error skipping), with the one buffer it shares
  between reading and writing, which is large enough for every block size autotuning can still choose.
\<close>

definition plain_copy :: "dd_config \<Rightarrow> bool" where
  "plain_copy c \<longleftrightarrow> \<not> conv c C_SWAB \<and> \<not> conv c C_SYNC \<and> \<not> conv c C_NOERROR"

definition tuning_ok :: "autotune_state \<Rightarrow> 'h dd_context \<Rightarrow> bool" where
  "tuning_ok a ctx \<longleftrightarrow>
     (active a \<longrightarrow> conv (cfg ctx) C_AUTOTUNE \<and> tuning a \<and> 4194304 \<le> length (ibuf_bytes ctx) \<and>
        (0 \<le> total_byte_limit a \<longrightarrow> rescaled (cfg ctx)))"

definition sync_ready :: "sync_driver_state \<Rightarrow> 'h st \<Rightarrow> bool" where
  "sync_ready st w \<longleftrightarrow>
     plain_copy (cfg (fst w)) \<and> tuning_ok (at st) (fst w) \<and> obuf (fst w) = OShared \<and> 0 < bsize (fst w) \<and>
     bsize (fst w) \<le> int (length (ibuf_bytes (fst w))) \<and> 0 \<le> max_bytes (cfg (fst w)) \<and>
     max_bytes (cfg (fst w)) \<le> int (length (ibuf_bytes (fst w))) \<and> sparse_ok (cfg (fst w)) (snd w) \<and>
     (0 \<le> total_byte_limit (at st) \<longrightarrow> w_bytes (stats (fst w)) \<le> total_byte_limit (at st)) \<and>
     saved_byte st < 0 \<and> oc (fst w) = 0"

text \<open>When the driver may report the end: no input left, the byte limit reached, or the record limit.\<close>

definition sync_stop :: "sync_driver_state \<Rightarrow> 'h st \<Rightarrow> bool" where
  "sync_stop st w \<longleftrightarrow>
     avail (snd w) = [] \<or>
     0 \<le> total_byte_limit (at st) \<and> total_byte_limit (at st) \<le> w_bytes (stats (fst w)) \<or>
     max_records (cfg (fst w)) \<le> r_partial (stats (fst w)) + r_full (stats (fst w)) \<and> max_bytes (cfg (fst w)) = 0"

lemma tuning_ok_cong: "cfg ctx' = cfg ctx \<Longrightarrow> ibuf ctx' = ibuf ctx \<Longrightarrow> tuning_ok a ctx' = tuning_ok a ctx"
  by (simp add: tuning_ok_def ibuf_bytes_def)

text \<open>A tick moves no data and keeps the driver ready, whatever block size it sets.\<close>

lemma sync_tick_ok:
  assumes rdy: "sync_ready st w"
  obtains a w' where "sync_tick st w = done_ok (st\<lparr>at := a\<rparr>) w'" "sync_ready (st\<lparr>at := a\<rparr>) w'"
    "same_io (snd w) (snd w')" "w_bytes (stats (fst w')) = w_bytes (stats (fst w))" "carried H [] w w'"
    "total_byte_limit a = total_byte_limit (at st)"
proof (cases "active (at st)")
  case False
  then have "sync_tick st w = done_ok (st\<lparr>at := at st\<rparr>) w" by (simp add: sync_tick_def)
  moreover have "carried H [] w w" by (cases w) (simp add: carried_Nil)
  ultimately show thesis using that [of "at st" w] rdy by simp
next
  case True
  obtain ctx k where w: "w = (ctx, k)" by fastforce
  obtain a ctx' k' where t: "autotune_sample_tick (at st) (ctx, k) = (a, ctx', k')" by (metis prod.exhaust)
  have tk: "conv (cfg ctx) C_AUTOTUNE" "tuning (at st)" "4194304 \<le> length (ibuf_bytes ctx)"
      "0 \<le> total_byte_limit (at st) \<longrightarrow> rescaled (cfg ctx)"
    using rdy True by (auto simp: sync_ready_def tuning_ok_def w)
  note f = autotune_tick_frame [OF t tk(2) True]
  obtain b m x where c: "cfg ctx' = (cfg ctx)\<lparr>blocksize := b, max_records := m, max_bytes := x\<rparr>"
      "b = bsize ctx \<or> b \<in> set autotune_stages"
      "m = max_records (cfg ctx) \<and> x = max_bytes (cfg ctx) \<or> 0 \<le> total_byte_limit (at st) \<and> 0 \<le> x \<and> x \<le> 4194304"
    using f by (auto simp: retuned_def)
  have d: "same_data (ctx\<lparr>cfg := cfg ctx'\<rparr>) ctx'" and io: "same_io k k'" using f by blast+
  note sd = same_dataD [OF d]
  have cv: "conv (cfg ctx') = conv (cfg ctx)" by (simp add: c(1) conv_def fun_eq_iff)
  have rq: "request (cfg ctx') = request (cfg ctx)"
    by (rule request_cong) (use c(1,3) tk(1,4) in auto)
  have ib: "ibuf_bytes ctx' = ibuf_bytes ctx" using sd(3) by (simp add: ibuf_bytes_def)
  have rs: "rescaled (cfg ctx') = rescaled (cfg ctx)" by (rule requestD(3) [OF rq])
  have b: "0 < b" "b \<le> int (length (ibuf_bytes ctx))"
    using c(2) stage_sizes tk(3) rdy by (fastforce simp: sync_ready_def w)+
  have x: "0 \<le> x" "x \<le> int (length (ibuf_bytes ctx))" using c(3) tk(3) rdy by (auto simp: sync_ready_def w)
  have sp: "sparse_ok (cfg ctx') k'"
    using sparse_ok_moves [OF _ moves_same_io [OF io]] rdy by (simp add: sync_ready_def w sparse_ok_def cv)
  have "plain_copy (cfg ctx')" using rdy by (simp add: sync_ready_def w plain_copy_def cv)
  moreover have "tuning_ok a ctx'" using f tk by (simp add: tuning_ok_def cv ib rs)
  moreover have "blocksize (cfg ctx') = b" "max_bytes (cfg ctx') = x" by (simp_all add: c(1))
  ultimately have "sync_ready (st\<lparr>at := a\<rparr>) (ctx', k')"
    using rdy f b x sp ib sd by (simp add: sync_ready_def w)
  moreover have "carried H [] (ctx, k) (ctx', k')"
    by (rule carried_Nil) (use sd rq same_ioD [OF io] in \<open>simp_all add: digest_def\<close>)
  moreover have "sync_tick st w = done_ok (st\<lparr>at := a\<rparr>) (ctx', k')" using True t by (simp add: sync_tick_def w)
  ultimately show thesis using that [of a "(ctx', k')"] io sd f by (simp add: w)
qed

lemma sync_account_plain:
  assumes "sync_account n st ctx = (m, st', ctx')" "\<not> conv (cfg ctx) C_SYNC"
  shows "m = n \<and> at st' = at st \<and> saved_byte st' = saved_byte st \<and> ctx' = ctx\<lparr>stats := stats ctx'\<rparr> \<and> w_bytes (stats ctx') = w_bytes (stats ctx)"
  using assms by (auto simp: sync_account_def upd_stats_def split: if_splits)

lemma take_ibuf_blit:
  "length bs \<le> length buf \<Longrightarrow> take (length bs) (blit buf 0 bs) = bs \<and> length (blit buf 0 bs) = length buf"
  by simp

text \<open>Delivering a block that is in \<open>ibuf\<close>.\<close>

lemma sync_deliver_plain:
  assumes d: "sync_deliver H n st (ctx, k) = Some r" and ok: "rc r = EXIT_SUCCESS"
    and rdy: "plain_copy (cfg ctx)" "obuf ctx = OShared" "sparse_ok (cfg ctx) k"
    and n: "n \<le> length (ibuf_bytes ctx)"
  shows "\<exists>st' ctx' k'. sync_tick st' (ctx', k') = Some r \<and> at st' = at st \<and>
    extends (take n (ibuf_bytes ctx)) k k' \<and> cfg ctx' = cfg ctx \<and> obuf ctx' = OShared \<and> ibuf ctx' = ibuf ctx \<and>
    w_bytes (stats ctx') = w_bytes (stats ctx) + int n \<and> oc ctx' = oc ctx \<and> saved_byte st' = saved_byte st \<and>
    digest ctx' = digest (hash_feed H (take n (ibuf_bytes ctx)) ctx) \<and> (n \<noteq> 0 \<longrightarrow> hole_ok (ctx', k'))"
proof -
  obtain m st1 ctx1 where a: "sync_account n st ctx = (m, st1, ctx1)" by (cases "sync_account n st ctx") 
  then have a': "m = n" "at st1 = at st" "ctx1 = ctx\<lparr>stats := stats ctx1\<rparr>" "w_bytes (stats ctx1) = w_bytes (stats ctx)"
    "saved_byte st1 = saved_byte st"
    using sync_account_plain [OF a] rdy by (auto simp: plain_copy_def)
  have f: "cfg ctx1 = cfg ctx" "obuf ctx1 = OShared" "ibuf ctx1 = ibuf ctx" "obuf_bytes ctx1 = ibuf_bytes ctx" "oc ctx1 = oc ctx"
      "digest (hash_feed H bs ctx1) = digest (hash_feed H bs ctx)" for bs
    using rdy(2) by (subst a'(3), simp add: obuf_bytes_def ibuf_bytes_def digest_def hash_feed_def)+
  obtain nw ctx2 k2 where w: "dd_iwrite H (take n (ibuf_bytes ctx)) (ctx1, k) = (nw, ctx2, k2)"
    by (cases "dd_iwrite H (take n (ibuf_bytes ctx)) (ctx1, k)")
  have sp: "sparse_ok (cfg ctx1) k" using rdy(3) f(1) by simp
  note c = dd_iwrite_contract [OF w sp] and g = wroteD [OF dd_iwrite_contract(3) [OF w sp]]
  have nw: "nw = n"
  proof (rule ccontr)
    assume "nw \<noteq> n"
    then have "rc r = EXIT_FAILURE" using d by (auto simp: sync_deliver_def a a'(1) f w Let_def done_fail_def)
    with ok show False by simp
  qed
  have ext: "extends (take n (ibuf_bytes ctx)) k k2" using c(2) n by (simp add: nw)
  have ln: "length (take n (ibuf_bytes ctx)) = n" using n by simp
  have wh: "n \<noteq> 0 \<longrightarrow> hole_ok (ctx2, k2)"
    using dd_iwrite_hole [OF _ sp, of H "take n (ibuf_bytes ctx)" ctx2 k2] w ln by (fastforce simp: nw)
  have dg: "digest ctx2 = digest (hash_feed H (take n (ibuf_bytes ctx)) ctx)" using wrote_digest [OF c(3)] f(6) by simp
  have "\<exists>ctx3. sync_tick st1 (ctx3, k2) = Some r \<and> cfg ctx3 = cfg ctx2 \<and> obuf ctx3 = obuf ctx2 \<and> ibuf ctx3 = ibuf ctx2 \<and>
      w_bytes (stats ctx3) = w_bytes (stats ctx2) + int n \<and> oc ctx3 = oc ctx2 \<and> digest ctx3 = digest ctx2 \<and>
      final_op_was_seek ctx3 = final_op_was_seek ctx2"
    using d by (auto simp: sync_deliver_def a a'(1) f w nw Let_def upd_stats_def digest_def split: if_splits)
  then obtain ctx3 where r: "sync_tick st1 (ctx3, k2) = Some r"
      "cfg ctx3 = cfg ctx2" "obuf ctx3 = obuf ctx2" "ibuf ctx3 = ibuf ctx2" "w_bytes (stats ctx3) = w_bytes (stats ctx2) + int n"
      "oc ctx3 = oc ctx2" "digest ctx3 = digest ctx2" "final_op_was_seek ctx3 = final_op_was_seek ctx2" by blast
  then show ?thesis
    using ext g f a' wh dg by (intro exI [of _ st1] exI [of _ ctx3] exI [of _ k2]) (simp add: hole_ok_cong [OF r(2,8)])
qed

lemma dd_advance_input_offset_frame [frame_simps]:
  "cfg (dd_advance_input_offset n ctx) = cfg ctx" "stats (dd_advance_input_offset n ctx) = stats ctx"
  "ibuf (dd_advance_input_offset n ctx) = ibuf ctx" "obuf (dd_advance_input_offset n ctx) = obuf ctx"
  "oc (dd_advance_input_offset n ctx) = oc ctx" "digest (dd_advance_input_offset n ctx) = digest ctx"
  by (simp_all add: dd_advance_input_offset_def digest_def split: prod.splits)

lemma sync_to_read_bounds:
  assumes "sync_ready st w" "\<not> (0 \<le> total_byte_limit (at st) \<and> total_byte_limit (at st) \<le> w_bytes (stats (fst w)))"
  shows "0 \<le> sync_to_read st (fst w)" "sync_to_read st (fst w) \<le> int (length (ibuf_bytes (fst w)))"
    "sync_to_read st (fst w) = 0 \<longrightarrow> sync_stop st w"
    "0 \<le> total_byte_limit (at st) \<longrightarrow> w_bytes (stats (fst w)) + sync_to_read st (fst w) \<le> total_byte_limit (at st)"
  using assms by (auto simp: sync_ready_def sync_to_read_def sync_stop_def Let_def)

text \<open>The eviction bookkeeping between the read and the delivery.\<close>

lemma nocache_frame:
  assumes "(if i_nocache (cfg ctx)
            then (case dd_invalidate_cache_chunked STDIN_FILENO n (i_nocache_pending ctx) False k of
                    (p, k) \<Rightarrow> (ctx\<lparr>i_nocache_pending := p\<rparr>, k))
            else (ctx, k)) = (ctx', k')"
  shows "same_io k k'" "cfg ctx' = cfg ctx" "stats ctx' = stats ctx" "ibuf ctx' = ibuf ctx" "obuf ctx' = obuf ctx" "oc ctx' = oc ctx"
    "digest ctx' = digest ctx"
  using assms by (auto split: if_splits prod.splits dest: same_io_invalidate_chunked simp: digest_def)

text \<open>\<open>sync_good\<close>: what the contract asks of the outcome of a step from \<open>w\<close>.\<close>

definition sync_good :: "'h hash_api \<Rightarrow> 'h st \<Rightarrow> (sync_driver_state, 'h) step_out option \<Rightarrow> bool" where
  "sync_good H w out \<longleftrightarrow> out \<noteq> None \<and> (\<forall>r. out = Some r \<longrightarrow> \<not> fallback r \<and> saved_byte (dstate r) < 0 \<and>
     (rc r = EXIT_SUCCESS \<longrightarrow> sync_ready (dstate r) (world r) \<and>
      (\<exists>bs. moves bs (snd w) (snd (world r)) \<and>
        w_bytes (stats (fst (world r))) = w_bytes (stats (fst w)) + int (length bs) \<and>
        carried H bs w (world r) \<and>
        (bs = [] \<longrightarrow> eof r) \<and> (eof r \<longrightarrow> bs = [] \<and> sync_stop (dstate r) (world r)))))"

lemma sync_good_eof:
  assumes "sync_ready st w'" "sync_stop st w'" "moves [] (snd w) (snd w')" "w_bytes (stats (fst w')) = w_bytes (stats (fst w))"
    "carried H [] w w'"
  shows "sync_good H w (done_eof st w')"
  using assms by (auto simp: sync_good_def done_eof_def sync_ready_def intro!: exI [of _ "[]"])

lemma sync_good_fail: "saved_byte st < 0 \<Longrightarrow> sync_good H w (done_fail st w')"
  by (simp add: sync_good_def done_fail_def)

lemma sync_eof_ready:
  assumes rdy: "sync_ready st (ctx, k)" and c: "consumes [] k k1" and a: "sync_to_read st ctx \<le> 0 \<or> avail k = []"
    and nl: "\<not> (0 \<le> total_byte_limit (at st) \<and> total_byte_limit (at st) \<le> w_bytes (stats ctx))"
  shows "sync_good H (ctx, k) (done_eof st
    (ctx\<lparr>cfg := (cfg ctx)\<lparr>i_nocache_eof := i_nocache_eof (cfg ctx) \<or> i_nocache (cfg ctx),
       o_nocache_eof := o_nocache_eof (cfg ctx) \<or> o_nocache (cfg ctx) \<and> \<not> conv (cfg ctx) C_NOTRUNC\<rparr>\<rparr>, k1))"
proof (rule sync_good_eof)
  have rq: "request ((cfg ctx)\<lparr>i_nocache_eof := a, o_nocache_eof := b\<rparr>) = request (cfg ctx)" for a b
    by (rule request_cong) simp_all
  have mv: "moves [] k k1" using moves_consumes_extends [OF c, of k1] by simp
  then show "moves [] (snd (ctx, k)) (snd (ctx\<lparr>cfg := (cfg ctx)\<lparr>i_nocache_eof := i_nocache_eof (cfg ctx) \<or> i_nocache (cfg ctx),
       o_nocache_eof := o_nocache_eof (cfg ctx) \<or> o_nocache (cfg ctx) \<and> \<not> conv (cfg ctx) C_NOTRUNC\<rparr>\<rparr>, k1))" by simp
  have sp: "sparse_ok (cfg ctx) k1" using rdy sparse_ok_moves [OF _ mv] by (simp add: sync_ready_def)
  show "sync_ready st (ctx\<lparr>cfg := (cfg ctx)\<lparr>i_nocache_eof := i_nocache_eof (cfg ctx) \<or> i_nocache (cfg ctx),
       o_nocache_eof := o_nocache_eof (cfg ctx) \<or> o_nocache (cfg ctx) \<and> \<not> conv (cfg ctx) C_NOTRUNC\<rparr>\<rparr>, k1)"
    using rdy sp by (simp add: sync_ready_def plain_copy_def conv_def sparse_ok_def ibuf_bytes_def tuning_ok_def rescaled_def)
  have "avail k1 = [] \<or> sync_stop st (ctx, k)"
    using a movesD(1) [OF mv] sync_to_read_bounds [OF rdy] nl by auto
  then show "sync_stop st (ctx\<lparr>cfg := (cfg ctx)\<lparr>i_nocache_eof := i_nocache_eof (cfg ctx) \<or> i_nocache (cfg ctx),
       o_nocache_eof := o_nocache_eof (cfg ctx) \<or> o_nocache (cfg ctx) \<and> \<not> conv (cfg ctx) C_NOTRUNC\<rparr>\<rparr>, k1)"
    using movesD(1) [OF mv] by (auto simp: sync_stop_def)
  show "carried H [] (ctx, k) (ctx\<lparr>cfg := (cfg ctx)\<lparr>i_nocache_eof := i_nocache_eof (cfg ctx) \<or> i_nocache (cfg ctx),
       o_nocache_eof := o_nocache_eof (cfg ctx) \<or> o_nocache (cfg ctx) \<and> \<not> conv (cfg ctx) C_NOTRUNC\<rparr>\<rparr>, k1)"
    by (rule carried_Nil) (use c rq in \<open>simp_all add: digest_def consumes_def\<close>)
qed simp

lemma sync_deliver_defined:
  assumes "plain_copy (cfg ctx)" "obuf ctx = OShared"
  shows "sync_deliver H n st (ctx, k) \<noteq> None"
    and "sync_deliver H n st (ctx, k) = Some r \<Longrightarrow> \<not> fallback r \<and> saved_byte (dstate r) = saved_byte st"
  using assms
  by (auto simp: sync_deliver_def Let_def done_fail_def sync_tick_def done_ok_def sync_account_def upd_stats_def plain_copy_def
      split: prod.splits if_splits)

lemma carried_Nil_after: "carried H bs w w' \<Longrightarrow> carried H [] w' w'' \<Longrightarrow> carried H bs w w''"
  by (simp add: carried_def)

lemma sync_block_ready:
  assumes rdy: "sync_ready st (ctx, k)" and con: "consumes bs k k2" and ne: "bs \<noteq> []"
    and lim: "0 \<le> total_byte_limit (at st) \<longrightarrow> w_bytes (stats ctx) + int (length bs) \<le> total_byte_limit (at st)"
    and f: "cfg c1 = cfg ctx" "stats c1 = stats ctx" "obuf c1 = OShared" "ibuf_bytes c1 = blit (ibuf_bytes ctx) 0 bs"
      "oc c1 = oc ctx" "digest c1 = digest ctx"
    and le: "length bs \<le> length (ibuf_bytes ctx)"
  shows "sync_good H (ctx, k) (sync_deliver H (length bs) st (c1, k2))"
proof -
  have R: "plain_copy (cfg c1)" "sparse_ok (cfg ctx) k" using rdy by (auto simp: sync_ready_def f)
  have sp: "sparse_ok (cfg c1) k2" using sparse_ok_consumes [OF R(2) con] by (simp add: f)
  have ib: "take (length bs) (ibuf_bytes c1) = bs" "length (ibuf_bytes c1) = length (ibuf_bytes ctx)"
    using le by (simp_all add: f)
  have "sync_ready (dstate r) (world r) \<and> \<not> eof r \<and> moves bs k (snd (world r)) \<and>
      w_bytes (stats (fst (world r))) = w_bytes (stats ctx) + int (length bs) \<and> carried H bs (ctx, k) (world r)"
    if s: "sync_deliver H (length bs) st (c1, k2) = Some r" "rc r = EXIT_SUCCESS" for r
  proof -
    obtain st' ctx' k' where t: "sync_tick st' (ctx', k') = Some r" and d: "at st' = at st" "extends bs k2 k'"
        "cfg ctx' = cfg ctx" "obuf ctx' = OShared" "ibuf ctx' = ibuf c1"
        "w_bytes (stats ctx') = w_bytes (stats ctx) + int (length bs)" "oc ctx' = oc ctx" "saved_byte st' = saved_byte st"
        "digest ctx' = digest (hash_feed H bs c1)" "hole_ok (ctx', k')"
      using sync_deliver_plain [OF s R(1) f(3) sp] ib le f(1,2,5) ne by auto
    have mv: "moves bs k k'" by (rule moves_consumes_extends [OF con d(2)])
    have ibc: "ibuf_bytes ctx' = ibuf_bytes c1" by (simp add: ibuf_bytes_def d(5))
    have "tuning_ok (at st) ctx'" using rdy by (simp add: sync_ready_def tuning_ok_def d(3) ibc ib(2))
    moreover have "sparse_ok (cfg ctx') k'" using sparse_ok_moves [OF R(2) mv] d(3) by simp
    ultimately have "sync_ready st' (ctx', k')"
      using rdy ib(2) d lim by (simp add: sync_ready_def ibc)
    then obtain a w' where w': "sync_tick st' (ctx', k') = done_ok (st'\<lparr>at := a\<rparr>) w'" "sync_ready (st'\<lparr>at := a\<rparr>) w'"
        "same_io k' (snd w')" "w_bytes (stats (fst w')) = w_bytes (stats ctx')" "carried H [] (ctx', k') w'"
      by (rule sync_tick_ok [of _ _ H]) simp
    have "carried H bs (ctx, k) (ctx', k')"
      by (rule carried_write) (use d f digest_feed [OF f(6)] in simp_all)
    then have "carried H bs (ctx, k) w'" using carried_Nil_after w'(5) by blast
    moreover have "moves bs k (snd w')" using moves_trans [OF mv moves_same_io [OF w'(3)]] by simp
    moreover have "r = \<lparr>rc = 0, eof = False, fallback = False, dstate = st'\<lparr>at := a\<rparr>, world = w'\<rparr>"
      using t w'(1) by (simp add: done_ok_def)
    ultimately show ?thesis using w'(2,4) d(6) by simp
  qed
  then show ?thesis
    using sync_deliver_defined [OF R(1) f(3), of H "length bs" st k2] ne rdy unfolding sync_good_def sync_ready_def by fastforce
qed

lemma sync_step_good:
  assumes rdy: "sync_ready st w"
  shows "sync_good H w (sync_driver_step H st w)"
proof -
  obtain ctx k where w: "w = (ctx, k)" by fastforce
  show ?thesis
  proof (cases "0 \<le> total_byte_limit (at st) \<and> total_byte_limit (at st) \<le> w_bytes (stats ctx)")
    case True
    then have "sync_driver_step H st w = done_eof st w" by (simp add: w sync_driver_step_def)
    moreover have "sync_stop st w" using True by (simp add: sync_stop_def w)
    moreover have "carried H [] w w" unfolding w by (rule carried_Nil) simp_all
    ultimately show ?thesis using rdy by (simp add: sync_good_eof)
  next
    case nl: False
    have tr: "0 \<le> sync_to_read st ctx" "sync_to_read st ctx \<le> int (length (ibuf_bytes ctx))"
      "0 \<le> total_byte_limit (at st) \<longrightarrow> w_bytes (stats ctx) + sync_to_read st ctx \<le> total_byte_limit (at st)"
      using sync_to_read_bounds [OF rdy] nl by (simp_all add: w)
    obtain res k1 where rd: "iread ctx STDIN_FILENO (nat (sync_to_read st ctx)) k = (res, k1)" by fastforce
    note c = iread_consumes [OF rd]
    have cf: "\<not> conv (cfg ctx) C_NOERROR" "obuf ctx = OShared" using rdy by (auto simp: sync_ready_def w plain_copy_def)
    show ?thesis
    proof (cases res)
      case (Inl e)
      have "same_data ctx (fst (dd_diagnose e ''error reading'' (ctx, k1)))"
        using quiet_dd_diagnose [of "(ctx, k1)" e "''error reading''"] by (simp add: quiet_step_def)
      then have "sync_driver_step H st w = done_fail st (dd_diagnose e ''error reading'' (ctx, k1))"
        using cf(1) nl tr(2) Inl by (auto simp: w sync_driver_step_def rd sync_read_error_def Let_def dest!: same_dataD(1))
      moreover have "saved_byte st < 0" using rdy by (simp add: sync_ready_def)
      ultimately show ?thesis by (simp add: sync_good_fail)
    next
      case (Inr bs)
      then have cb: "consumes bs k k1" "length bs \<le> nat (sync_to_read st ctx)"
          "bs = [] \<longrightarrow> sync_to_read st ctx \<le> 0 \<or> avail k = []"
        using c tr(1) by auto
      show ?thesis
      proof (cases "bs = []")
        case True
        then show ?thesis
          using nl tr(2) Inr sync_eof_ready [OF rdy [unfolded w], of k1] cb
          by (auto simp: w sync_driver_step_def rd)
      next
        case False
        let ?c0 = "dd_advance_input_offset (int (length bs)) (ctx\<lparr>ibuf := Some (blit (ibuf_bytes ctx) 0 bs)\<rparr>)"
        obtain c1 k2 where nc: "(if i_nocache (cfg ?c0)
            then (case dd_invalidate_cache_chunked STDIN_FILENO (int (length bs)) (i_nocache_pending ?c0) False k1 of
                    (p, k) \<Rightarrow> (?c0\<lparr>i_nocache_pending := p\<rparr>, k))
            else (?c0, k1)) = (c1, k2)" by fastforce
        note f = nocache_frame [OF nc]
        have st: "sync_driver_step H st w = sync_deliver H (length bs) st (c1, k2)"
          using nl tr(2) Inr False nc by (auto simp: w sync_driver_step_def rd Let_def)
        have con: "consumes bs k k2" using consumes_trans [OF cb(1) consumes_same_io [OF f(1)]] by simp
        show ?thesis
          unfolding st unfolding w
          by (rule sync_block_ready [OF rdy [unfolded w] con False])
            (use cb(2) tr cf(2) f in \<open>auto simp: frame_simps ibuf_bytes_def digest_upd\<close>)
      qed
    qed
  qed
qed

interpretation sync: io_driver "sync_driver_step H" sync_ready sync_stop "\<lambda>d w. snd w" "\<lambda>d w. length (avail (snd w))"
    "\<lambda>d w. w_bytes (stats (fst w))"
  for H :: "'h hash_api"
proof (unfold_locales, goal_cases)
  case (3 d w r)
  then obtain bs where "moves bs (snd w) (snd (world r))" "bs \<noteq> []"
    using sync_step_good [OF 3(1), of H] unfolding sync_good_def by blast
  then show ?case using movesD(1) by fastforce
qed (use sync_step_good [where H = H] in \<open>unfold sync_good_def, blast\<close>)+

section \<open>Autotuning: end and choice\<close>

text \<open>
  The ticks of a run, with whatever happens to the context and the kernel between two of them.
\<close>

fun tick_run :: "autotune_state \<Rightarrow> 'h st list \<Rightarrow> autotune_state" where
  "tick_run a [] = a"
| "tick_run a (w # ws) = tick_run (fst (autotune_sample_tick a w)) ws"

lemma tick_inactive: "\<not> active a \<Longrightarrow> autotune_sample_tick a w = (a, w)"
  by (cases w) (simp add: autotune_sample_tick_def)

lemma tick_run_inactive: "\<not> active a \<Longrightarrow> tick_run a ws = a"
  by (induction ws) (simp_all add: tick_inactive)

definition blocks_left :: "autotune_state \<Rightarrow> nat" where
  "blocks_left a = (NUM_AUTOTUNE_STAGES - current_stage a) * 4 - nat (stage_blocks_done a)"

lemma tick_run_ends: "tuning a \<Longrightarrow> blocks_left a \<le> length ws \<Longrightarrow> \<not> active (tick_run a ws)"
proof (induction ws arbitrary: a)
  case Nil
  then show ?case by (auto simp: tuning_def blocks_left_def NUM_AUTOTUNE_STAGES_def)
next
  case (Cons w ws)
  show ?case
  proof (cases "active a")
    case False
    then show ?thesis by (simp add: tick_run_inactive tick_inactive)
  next
    case True
    obtain ctx k a' ctx' k' where w: "w = (ctx, k)" and t: "autotune_sample_tick a (ctx, k) = (a', ctx', k')"
      by (metis prod.exhaust)
    have "tuning a' \<and> (\<not> active a' \<or> blocks_left a' < blocks_left a)"
      using Cons.prems(1) True
      by (cases rule: autotune_tick_cases [OF t Cons.prems(1) True])
        (auto simp: blocks_left_def tuning_def NUM_AUTOTUNE_STAGES_def)
    then show ?thesis
      using Cons.IH [of a'] Cons.prems(2) by (auto simp: w t tick_run_inactive)
  qed
qed

text \<open>
  C22: autotuning ends: whatever the clock and the transfer do in between, at most sixteen ticks (four
  blocks in each of four stages) after it starts, the block size is settled for good.
\<close>

theorem autotune_settles:
  assumes "tuning a" "16 \<le> length ws"
  shows "\<not> active (tick_run a ws)"
proof (rule tick_run_ends [OF assms(1)])
  show "blocks_left a \<le> length ws" using assms(2) by (simp add: blocks_left_def NUM_AUTOTUNE_STAGES_def)
qed

lemma autotune_settles_witness:
  "\<not> active (tick_run (at (fst (sync_driver_init
       (ctx0 [] 4096 (dd_init_default_config\<lparr>conversions_mask := C_AUTOTUNE, blocksize := 512\<rparr>), file_to_file []))))
     (replicate 16 (ctx0 [] 4096 dd_init_default_config, file_to_file [])))"
  by (rule autotune_settles)
    (simp_all add: tuning_def sync_driver_init_def Let_def ctx0_def dd_alloc_ibuf_def dd_alloc_obuf_def conv_def cfg_simps
      file_to_file_def plat0_def dd_detect_optimal_blocksize_def fd_type_def fd_geom_def autotune_stages_def
      NUM_AUTOTUNE_STAGES_def gethrxtime_def set_blocksize_def sync_limit_def dd_init_default_config_def)

text \<open>
  Autotuning keeps its stage index inside its tables and only ever sets one of the four block sizes
  of the table, none above 4 MiB.
\<close>

theorem autotune_stage_bounds:
  assumes "autotune_sample_tick a (ctx, k) = (a', ctx', k')" "tuning a"
  shows "tuning a' \<and> (bsize ctx' \<noteq> bsize ctx \<longrightarrow> bsize ctx' \<in> set autotune_stages \<and> bsize ctx' \<le> 4 * 1024 * 1024)"
proof -
  have st: "i < NUM_AUTOTUNE_STAGES \<Longrightarrow> autotune_stages ! i \<in> set autotune_stages" for i
    by (rule nth_mem) (simp add: autotune_stages_def NUM_AUTOTUNE_STAGES_def)
  have b: "n \<in> set autotune_stages \<Longrightarrow> n \<le> 4 * 1024 * 1024" for n
    by (auto simp: autotune_stages_def)
  have pk: "0 < n \<Longrightarrow> pick_best_stage gt rates n < n" for n gt and rates :: "(int \<times> int) list"
  proof (induction n)
    case (Suc n)
    then show ?case
      by (cases "n = 0") (auto simp: pick_best_stage_Suc best_stage_step_def pick_best_stage_def)
  qed simp
  have "tuning a' \<and> (bsize ctx' = bsize ctx \<or> bsize ctx' \<in> set autotune_stages)"
  proof (cases "active a")
    case False
    then show ?thesis using assms by (simp add: tick_inactive)
  next
    case True
    have le: "current_stage a + 1 \<le> NUM_AUTOTUNE_STAGES" using assms(2) True by (simp add: tuning_def)
    show ?thesis
    proof (cases rule: autotune_tick_cases [OF assms True])
      case 2
      then show ?thesis using st by (auto simp: tuning_def)
    next
      case 3
      then show ?thesis using st [OF less_le_trans [OF pk [of "current_stage a'"]]] le by auto
    qed simp
  qed
  then show ?thesis using b by auto
qed

lemma autotune_stage_bounds_witness:
  "tuning (fst (autotune_sample_tick \<lparr>active = True, current_stage = 3, stage_blocks_done = 3, stage_start_time = 0,
     stage_bytes_start = 0, stage_rates = replicate 4 (0, 1), total_byte_limit = - 1\<rparr>
     (ctx0 ([] :: byte list) 4096 dd_init_default_config, file_to_file [])))"
proof -
  let ?a = "\<lparr>active = True, current_stage = 3, stage_blocks_done = 3, stage_start_time = 0,
     stage_bytes_start = 0, stage_rates = replicate 4 (0, 1), total_byte_limit = - 1\<rparr>"
  let ?t = "autotune_sample_tick ?a (ctx0 ([] :: byte list) 4096 dd_init_default_config, file_to_file [])"
  show ?thesis
    by (rule conjunct1 [OF autotune_stage_bounds [of ?a "ctx0 [] 4096 dd_init_default_config" "file_to_file []" "fst ?t" "fst (snd ?t)" "snd (snd ?t)"]])
      (simp_all add: tuning_def NUM_AUTOTUNE_STAGES_def)
qed

text \<open>
  The block size autotuning settles on is one whose measured rate no stage it tried exceeds, if the
  CPU's comparison of rates is a strict order.
\<close>

theorem autotune_picks_best:
  assumes "autotune_sample_tick a (ctx, k) = (a', ctx', k')" "tuning a" "active a" "\<not> active a'"
    and "transp (rate_gt (plat k))" "irreflp (rate_gt (plat k))"
  shows "\<exists>best < current_stage a'. bsize ctx' = autotune_stages ! best \<and>
    (\<forall>s < current_stage a'. \<not> rate_gt (plat k) (stage_rates a' ! s) (stage_rates a' ! best))"
proof (cases rule: autotune_tick_cases [OF assms(1-3)])
  case 3
  then show ?thesis using pick_best_stage_max [OF assms(5,6), of "current_stage a'" "stage_rates a'"] by auto
qed (use assms(4) in simp_all)

lemma autotune_picks_best_witness:
  "\<exists>best < 4. bsize (fst (snd (autotune_sample_tick \<lparr>active = True, current_stage = 3, stage_blocks_done = 3,
     stage_start_time = 0, stage_bytes_start = 0, stage_rates = replicate 4 (0, 1), total_byte_limit = - 1\<rparr>
     (ctx0 ([] :: byte list) 4096 dd_init_default_config, file_to_file [])))) = autotune_stages ! best"
proof -
  let ?a = "\<lparr>active = True, current_stage = 3, stage_blocks_done = 3, stage_start_time = 0,
     stage_bytes_start = 0, stage_rates = replicate 4 (0, 1), total_byte_limit = - 1\<rparr>"
  let ?c = "ctx0 ([] :: byte list) 4096 dd_init_default_config" and ?k = "file_to_file []"
  let ?t = "autotune_sample_tick ?a (?c, ?k)"
  have e: "\<not> active (fst ?t) \<and> current_stage (fst ?t) = 4"
    by (simp add: autotune_sample_tick_def file_to_file_def gethrxtime_def NUM_AUTOTUNE_STAGES_def Let_def)
  have "\<exists>best < current_stage (fst ?t). bsize (fst (snd ?t)) = autotune_stages ! best \<and>
      (\<forall>s < current_stage (fst ?t). \<not> rate_gt (plat ?k) (stage_rates (fst ?t) ! s) (stage_rates (fst ?t) ! best))"
    by (rule autotune_picks_best [of ?a ?c ?k _ _ "snd (snd ?t)"])
      (use e in \<open>auto simp: tuning_def NUM_AUTOTUNE_STAGES_def file_to_file_def plat0_def transp_def irreflp_def\<close>)
  then show ?thesis using e by auto
qed

section \<open>The driver copies\<close>

text \<open>A context before its buffers are allocated, with a configuration that copies verbatim.\<close>

definition fresh_plain :: "'h st \<Rightarrow> bool" where
  "fresh_plain w \<longleftrightarrow> ibuf (fst w) = None \<and> obuf (fst w) = ONull \<and> w_bytes (stats (fst w)) = 0 \<and>
     plain_copy (cfg (fst w)) \<and> 0 < bsize (fst w) \<and>
     0 \<le> max_bytes (cfg (fst w)) \<and> max_bytes (cfg (fst w)) \<le> bsize (fst w) \<and>
     sparse_ok (cfg (fst w)) (snd w) \<and> oc (fst w) = 0"

lemma round_up_page_ge: "n \<le> round_up_page page n"
proof (cases "0 < page \<and> n mod page \<noteq> 0")
  case True
  let ?m = "n + page - 1"
  have "?m = ?m div page * page + ?m mod page" by simp
  moreover have "?m mod page \<le> page - 1" using True by (simp add: less_Suc_eq_le [symmetric])
  ultimately have "n \<le> ?m div page * page" using True by linarith
  then show ?thesis using True by (simp add: round_up_page_def)
qed (auto simp: round_up_page_def)

lemma start_stage_less: "i < NUM_AUTOTUNE_STAGES \<Longrightarrow> start_stage h i < NUM_AUTOTUNE_STAGES"
  by (induction h i rule: start_stage.induct) (subst start_stage.simps, simp)

text \<open>The first stage, and the record limit that goes with it.\<close>

definition first_stage :: "int \<Rightarrow> 'h dd_context \<Rightarrow> 'h dd_context \<Rightarrow> bool" where
  "first_stage l ctx ctx' \<longleftrightarrow> (\<exists>c'. ctx' = ctx\<lparr>cfg := c'\<rparr> \<and> retuned l (cfg ctx) c' \<and> blocksize c' \<in> set autotune_stages)"

lemma first_stageI:
  "retuned l (cfg ctx) (cfg ctx') \<Longrightarrow> ctx' = ctx\<lparr>cfg := cfg ctx'\<rparr> \<Longrightarrow> blocksize (cfg ctx') \<in> set autotune_stages \<Longrightarrow>
    first_stage l ctx ctx'"
  by (auto simp: first_stage_def)

lemma sync_init_tuned:
  assumes "sync_driver_init (ctx, k) = (d, w)" "conv (cfg ctx) C_AUTOTUNE"
    and f: "dd_alloc_obuf k (dd_alloc_ibuf k ctx) = c" "cfg c = cfg ctx"
  shows "first_stage (sync_limit (cfg ctx)) c (fst w) \<and> same_io k (snd w) \<and> tuning (at d) \<and>
    total_byte_limit (at d) = sync_limit (cfg ctx) \<and> saved_byte d = - 1"
proof -
  let ?l = "sync_limit (cfg ctx)"
  define hw where "hw = max (dd_detect_optimal_blocksize STDIN_FILENO k) (dd_detect_optimal_blocksize STDOUT_FILENO k)"
  define n where "n = (if autotune_stages ! 0 < hw then start_stage hw 0 else 0)"
  define b where "b = autotune_stages ! n"
  let ?c = "if 0 \<le> ?l then (set_blocksize b c)\<lparr>cfg := (cfg (set_blocksize b c))\<lparr>max_records := ?l div b, max_bytes := ?l mod b\<rparr>\<rparr>
    else set_blocksize b c"
  obtain now k1 where g: "gethrxtime k = (now, k1)" by fastforce
  have n: "n < NUM_AUTOTUNE_STAGES" using start_stage_less [of 0] by (simp add: n_def NUM_AUTOTUNE_STAGES_def)
  have b: "b \<in> set autotune_stages" unfolding b_def by (rule nth_stage [OF n])
  have w: "w = (?c, k1)" and d: "total_byte_limit (at d) = ?l" "saved_byte d = - 1" "current_stage (at d) = n"
      "stage_blocks_done (at d) = 0" "length (stage_rates (at d)) = NUM_AUTOTUNE_STAGES"
    using assms g by (auto simp: sync_driver_init_def Let_def hw_def n_def b_def)
  have "tuning (at d)" using d n by (simp add: tuning_def)
  moreover have "first_stage ?l c ?c"
  proof (cases "0 \<le> ?l")
    case True
    have e: "cfg ?c = (cfg c)\<lparr>blocksize := b, max_records := ?l div b, max_bytes := ?l mod b\<rparr>" using True by (simp add: set_blocksize_def)
    have x: "0 \<le> ?l mod b" "?l mod b < b" using stage_sizes [OF b] by simp_all
    then have "?l mod b \<le> 4194304" using stage_sizes [OF b] by linarith
    with True b x(1) have "retuned ?l (cfg c) ((cfg c)\<lparr>blocksize := b, max_records := ?l div b, max_bytes := ?l mod b\<rparr>)"
      by (intro retunedI) simp_all
    then have "retuned ?l (cfg c) (cfg ?c)" unfolding e .
    moreover have "?c = c\<lparr>cfg := cfg ?c\<rparr>" using True by (simp add: set_blocksize_def)
    moreover have "blocksize (cfg ?c) \<in> set autotune_stages" unfolding e using b by simp
    ultimately show ?thesis by (rule first_stageI)
  next
    case False
    have e: "cfg ?c = (cfg c)\<lparr>blocksize := b, max_records := max_records (cfg c), max_bytes := max_bytes (cfg c)\<rparr>"
      using False by (simp add: set_blocksize_def)
    have "retuned ?l (cfg c) (cfg ?c)" unfolding e by (rule retunedI) (use b in simp_all)
    moreover have "?c = c\<lparr>cfg := cfg ?c\<rparr>" using False by (simp add: set_blocksize_def)
    moreover have "blocksize (cfg ?c) \<in> set autotune_stages" unfolding e using b by simp
    ultimately show ?thesis by (rule first_stageI)
  qed
  ultimately show ?thesis using d same_io_gethrxtime [OF g] f(2) by (simp add: w)
qed

lemma sync_init_ready:
  assumes "fresh_plain (ctx, k)" "sync_driver_init (ctx, k) = (d, w)"
  shows "sync_ready d w" "same_io k (snd w)" "stats (fst w) = stats ctx"
    "\<not> conv (cfg ctx) C_AUTOTUNE \<Longrightarrow> snd w = k \<and> cfg (fst w) = cfg ctx"
    "total_byte_limit (at d) = sync_limit (cfg ctx)" "carried H [] (ctx, k) w"
proof -
  let ?c = "dd_alloc_obuf k (dd_alloc_ibuf k ctx)" and ?l = "sync_limit (cfg ctx)"
  have c: "ibuf ctx = None" "obuf ctx = ONull" "\<not> conv (cfg ctx) C_SWAB"
    using assms(1) by (auto simp: fresh_plain_def plain_copy_def)
  let ?buf = "alignalloc (round_up_page (page_size ctx) (tuned_bs ctx + 2)) k"
  have f: "?c = ctx\<lparr>ibuf := Some ?buf, obuf := OShared\<rparr>" using c by (simp add: dd_alloc_obuf_def dd_alloc_ibuf_def tuned_bs_def)
  have buf: "tuned_bs ctx \<le> length ?buf"
    using round_up_page_ge [of "tuned_bs ctx + 2" "page_size ctx"] by simp
  have bs: "bs_nat ctx \<le> length ?buf" "conv (cfg ctx) C_AUTOTUNE \<longrightarrow> 4194304 \<le> length ?buf"
    using buf by (auto simp: tuned_bs_def Let_def split: if_splits)
  have l: "0 \<le> ?l \<longrightarrow> conv (cfg ctx) C_AUTOTUNE \<longrightarrow> rescaled (cfg ctx)" by (simp add: sync_limit_def rescaled_def)
  obtain c' where c': "fst w = ?c\<lparr>cfg := c'\<rparr>" "same_io k (snd w)" "total_byte_limit (at d) = ?l" "saved_byte d = - 1"
      "retuned ?l (cfg ctx) c'" "conv (cfg ctx) C_AUTOTUNE \<longrightarrow> tuning (at d)"
      "\<not> conv (cfg ctx) C_AUTOTUNE \<longrightarrow> snd w = k \<and> c' = cfg ctx \<and> \<not> active (at d)"
  proof (cases "conv (cfg ctx) C_AUTOTUNE")
    case True
    have "cfg ?c = cfg ctx" by (simp add: f)
    from sync_init_tuned [OF assms(2) True refl this] True this show thesis
      using that unfolding first_stage_def by auto
  next
    case False
    then have "w = (?c, k)" "\<not> active (at d)" "total_byte_limit (at d) = ?l" "saved_byte d = - 1"
      using assms(2) by (auto simp: sync_driver_init_def f Let_def)
    then show thesis using that [of "cfg ctx"] False retuned_refl by (simp add: f)
  qed
  obtain b m x where r: "c' = (cfg ctx)\<lparr>blocksize := b, max_records := m, max_bytes := x\<rparr>"
      "b = bsize ctx \<or> b \<in> set autotune_stages" "m = max_records (cfg ctx) \<and> x = max_bytes (cfg ctx) \<or> 0 \<le> ?l \<and> 0 \<le> x \<and> x \<le> 4194304"
    using c'(5) unfolding retuned_def by blast
  have rq: "request c' = request (cfg ctx)"
  proof (rule request_cong)
    show "\<not> conv (cfg ctx) C_AUTOTUNE \<Longrightarrow> blocksize c' = bsize ctx" using c'(7) by simp
    show "\<not> rescaled (cfg ctx) \<Longrightarrow> max_records c' = max_records (cfg ctx) \<and> max_bytes c' = max_bytes (cfg ctx)"
      using c'(7) r l by (cases "conv (cfg ctx) C_AUTOTUNE") auto
  qed (simp_all add: r(1))
  have cv: "conv c' = conv (cfg ctx)" by (rule requestD(6) [OF rq])
  have fp: "plain_copy (cfg ctx)" "sparse_ok (cfg ctx) k" "0 < bsize ctx" "0 \<le> max_bytes (cfg ctx)" "max_bytes (cfg ctx) \<le> bsize ctx"
      "w_bytes (stats ctx) = 0" "oc ctx = 0"
    using assms(1) by (simp_all add: fresh_plain_def)
  have b: "0 < b \<and> b \<le> int (length ?buf)" "0 \<le> x \<and> x \<le> int (length ?buf)"
  proof -
    have a: "c' = cfg ctx" if "\<not> conv (cfg ctx) C_AUTOTUNE" using c'(7) that by blast
    have e: "b = blocksize c'" "x = max_bytes c'" by (simp_all add: r(1))
    show "0 < b \<and> b \<le> int (length ?buf)"
      using r(2) stage_sizes [of b] fp(3) bs e a by (cases "conv (cfg ctx) C_AUTOTUNE") auto
    show "0 \<le> x \<and> x \<le> int (length ?buf)"
      using r(3) fp(3-5) bs e a by (cases "conv (cfg ctx) C_AUTOTUNE") auto
  qed
  have sp: "sparse_ok c' (snd w)"
    using sparse_ok_moves [OF fp(2) moves_same_io [OF c'(2)]] by (simp add: sparse_ok_def cv)
  have ib: "ibuf_bytes (fst w) = ?buf" by (simp add: c'(1) f ibuf_bytes_def)
  have "tuning_ok (at d) (fst w)"
    using c'(3,6,7) bs(2) l requestD(3) [OF rq] by (cases "conv (cfg ctx) C_AUTOTUNE") (simp_all add: tuning_ok_def ib, simp_all add: c'(1) cv)
  then show "sync_ready d w"
    using fp b sp c'(3,4) by (simp add: sync_ready_def ib) (simp add: c'(1) f r(1) plain_copy_def cv [unfolded r(1)])
  show "same_io k (snd w)" "stats (fst w) = stats ctx" "total_byte_limit (at d) = ?l"
    using c' by (simp_all add: f)
  show "\<not> conv (cfg ctx) C_AUTOTUNE \<Longrightarrow> snd w = k \<and> cfg (fst w) = cfg ctx" using c'(1,7) by simp
  have "carried H [] (ctx, k) (fst w, snd w)"
    by (rule carried_Nil) (use same_ioD [OF c'(2)] rq in \<open>simp_all add: c'(1) f digest_def\<close>)
  then show "carried H [] (ctx, k) w" by simp
qed

lemma sync_steps_no_fallback: "sync_ready d w \<Longrightarrow> sync.steps H n d w = Some r \<Longrightarrow> \<not> fallback r"
proof (induction n arbitrary: d w)
  case (Suc n)
  obtain q where q: "sync_driver_step H d w = Some q" and nf: "\<not> fallback q"
    using sync_step_good [OF Suc.prems(1), of H] by (auto simp: sync_good_def)
  show ?case
  proof (cases "rc q \<noteq> EXIT_SUCCESS \<or> eof q")
    case True
    then show ?thesis using Suc.prems(2) q nf by simp
  next
    case False
    then have "sync_ready (dstate q) (world q)" "sync.steps H n (dstate q) (world q) = Some r"
      using sync_step_good [OF Suc.prems(1), of H] Suc.prems(2) q nf by (auto simp: sync_good_def)
    then show ?thesis by (rule Suc.IH)
  qed
qed simp



lemma sync_account_at: "sync_account n st ctx = (m, st', ctx') \<Longrightarrow> at st' = at st"
  by (auto simp: sync_account_def Let_def split: if_splits)

lemma tick_limit: "total_byte_limit (fst (autotune_sample_tick a w)) = total_byte_limit a"
  by (cases w) (auto simp: autotune_sample_tick_def Let_def split: prod.splits)

lemma sync_tick_limit: "sync_tick st w = Some r \<Longrightarrow> total_byte_limit (at (dstate r)) = total_byte_limit (at st)"
  using tick_limit [of "at st" w] by (auto simp: sync_tick_def done_ok_def split: if_splits prod.splits)

lemma sync_deliver_at:
  assumes "sync_deliver H n st w = Some r"
  shows "total_byte_limit (at (dstate r)) = total_byte_limit (at st)"
proof -
  obtain ctx k where w: "w = (ctx, k)" by fastforce
  obtain m st1 ctx1 where a: "sync_account n st ctx = (m, st1, ctx1)" by (cases "sync_account n st ctx")
  note at = sync_account_at [OF a]
  show ?thesis
    using assms
    by (auto simp: sync_deliver_def w a at Let_def done_fail_def split: prod.splits if_splits option.splits dest!: sync_tick_limit)
qed

lemma sync_step_at:
  assumes "sync_driver_step H st w = Some r"
  shows "total_byte_limit (at (dstate r)) = total_byte_limit (at st)"
  using assms
  by (auto simp: sync_driver_step_def sync_read_error_def Let_def done_defs
      split: prod.splits if_splits sum.splits dest: sync_deliver_at)

lemma sync_steps_at:
  "sync_ready d w \<Longrightarrow> sync.steps H n d w = Some r \<Longrightarrow> rc r = EXIT_SUCCESS \<Longrightarrow>
     total_byte_limit (at (dstate r)) = total_byte_limit (at d) \<and> sync_ready (dstate r) (world r)"
proof (induction n arbitrary: d w)
  case (Suc n)
  obtain q where q: "sync_driver_step H d w = Some q" and g: "\<not> fallback q"
      "rc q = EXIT_SUCCESS \<longrightarrow> sync_ready (dstate q) (world q)"
    using sync_step_good [OF Suc.prems(1), of H] by (auto simp: sync_good_def)
  have "total_byte_limit (at (dstate q)) = total_byte_limit (at d)" by (rule sync_step_at [OF q])
  then show ?case
    using Suc.IH [of "dstate q" "world q"] Suc.prems q g by (auto split: if_splits)
qed simp

text \<open>
  C20: the byte limit is a limit: a verbatim copy under \<open>--limit\<close> or \<open>--count\<close> never has more than that
  many bytes written, at any step that succeeds.
\<close>

theorem sync_limit_respected:
  assumes "fresh_plain (ctx, k)" "0 \<le> bytes_to_copy (cfg ctx)" "sync_driver_init (ctx, k) = (d, w)"
    "sync.steps H n d w = Some r" "rc r = EXIT_SUCCESS"
  shows "w_bytes (stats (fst (world r))) \<le> bytes_to_copy (cfg ctx)"
proof -
  note i = sync_init_ready [OF assms(1,3)]
  have "total_byte_limit (at (dstate r)) = bytes_to_copy (cfg ctx)" "sync_ready (dstate r) (world r)"
    using sync_steps_at [OF i(1) assms(4,5)] i(5) assms(2) by (simp_all add: sync_limit_def)
  then show ?thesis using assms(2) by (simp add: sync_ready_def)
qed

lemmas sync_eval = io_eval sync_driver_init_def sync_limit_def sync_driver_step_def sync_to_read_def sync_deliver_def
  sync_account_def upd_stats_def sync_tick_def sync_driver_flush_def

lemma sync_limit_respected_witness:
  "let (d, w) = sync_driver_init (ctx0 [] 0 (dd_init_default_config\<lparr>blocksize := 2, bytes_to_copy := 2\<rparr>), file_to_file [1, 2, 3])
   in case sync.steps list_hash (Suc (Suc (Suc 0))) d w of None \<Rightarrow> False | Some r \<Rightarrow> w_bytes (stats (fst (world r))) \<le> 2"
proof -
  let ?c = "ctx0 ([] :: byte list) 0 (dd_init_default_config\<lparr>blocksize := 2, bytes_to_copy := 2\<rparr>)"
  let ?i = "sync_driver_init (?c, file_to_file [1, 2, 3])"
  have "case sync.steps list_hash (Suc (Suc (Suc 0))) (fst ?i) (snd ?i) of None \<Rightarrow> False | Some r \<Rightarrow> rc r = EXIT_SUCCESS"
    by (simp add: sync_eval)
  then obtain r where r: "sync.steps list_hash (Suc (Suc (Suc 0))) (fst ?i) (snd ?i) = Some r" "rc r = EXIT_SUCCESS"
    by (simp split: option.splits)
  have "w_bytes (stats (fst (world r))) \<le> bytes_to_copy (cfg ?c)"
    by (rule sync_limit_respected [OF _ _ prod.collapse [symmetric] r])
      (simp_all add: fresh_plain_def ctx0_def stats0_def plain_copy_def conv_def sparse_ok_def dd_init_default_config_def)
  then show ?thesis using r by (simp add: case_prod_beta ctx0_def)
qed


text \<open>
  After a read error that \<open>--noerror\<close> is to skip, the driver stays where it is: without \<open>--sync\<close> the
  step reports success with the source at the same offset, the target unchanged and no block counted,
  so a bad sector is read again, not passed over.
\<close>

theorem noerror_stays_put:
  assumes "sys_read0 (nat (sync_to_read st ctx)) k = (Inl e, k1)" "e \<noteq> EINTR" "\<not> any_set (in_fl k1) O_DIRECT"
    and "conv (cfg ctx) C_NOERROR" "\<not> conv (cfg ctx) C_SYNC" "\<not> iread_fnc ctx"
    and "\<not> (0 \<le> total_byte_limit (at st) \<and> total_byte_limit (at st) \<le> w_bytes (stats ctx))"
    and "sync_to_read st ctx \<le> int (length (ibuf_bytes ctx))"
  shows "\<exists>r. sync_driver_step H st (ctx, k) = Some r \<and> rc r = EXIT_SUCCESS \<and> \<not> eof r \<and> dstate r = st \<and>
    in_off (snd (world r)) = in_off k \<and> out_data (snd (world r)) = out_data k \<and>
    r_full (stats (fst (world r))) = r_full (stats ctx) \<and> r_partial (stats (fst (world r))) = r_partial (stats ctx)"
proof -
  have rd: "iread ctx STDIN_FILENO (nat (sync_to_read st ctx)) k = (Inl e, k1)"
    using assms(1-3,6) by (simp add: iread_def dd_iread.simps sys_read_def f_getfl_def)
  have k1: "in_off k1 = in_off k" "out_data k1 = out_data k"
    using sys_read0_consumes [OF assms(1)] by (auto simp: consumes_def)
  let ?w = "if \<not> conv (cfg ctx) C_NOERROR \<or> status_level (cfg ctx) \<noteq> STATUS_NONE
    then dd_diagnose e ''error reading'' (ctx, k1) else (ctx, k1)"
  let ?p = "dd_print_stats ?w"
  let ?k = "dd_invalidate_cache STDIN_FILENO (bsize (fst ?p) - partread st) (snd ?p)"
  have q: "quiet_step (ctx, k1) ?w" using quiet_dd_diagnose by auto
  then have q2: "quiet_step (ctx, k1) ?p" using quiet_dd_print_stats [of ?w] quiet_step_trans by blast
  then have c: "cfg (fst ?p) = cfg ctx" "cfg (fst ?w) = cfg ctx" using q by (auto simp: quiet_step_def dest: same_dataD(1))
  have "sync_driver_step H st (ctx, k) = done_ok st (fst ?p, ?k)"
    using assms(4-8) rd c by (auto simp: sync_driver_step_def sync_read_error_def Let_def case_prod_beta)
  moreover have "same_io k1 ?k"
    using q2 same_io_trans [OF _ same_io_invalidate] by (auto simp: quiet_step_def)
  ultimately show ?thesis
    using k1 q2 same_ioD(2,7) [of k1 ?k] same_dataD(14,15) [of ctx "fst ?p"] by (simp add: done_ok_def quiet_step_def)
qed

lemma noerror_stays_put_witness:
  "\<exists>r. sync_driver_step list_hash \<lparr>at = \<lparr>active = False, current_stage = 0, stage_blocks_done = 0, stage_start_time = 0,
       stage_bytes_start = 0, stage_rates = [], total_byte_limit = - 1\<rparr>, partread = 0, saved_byte = - 1\<rparr>
     ((ctx0 [] 0 (dd_init_default_config\<lparr>blocksize := 2, conversions_mask := C_NOERROR\<rparr>))\<lparr>ibuf := Some [0, 0, 0, 0]\<rparr>,
      (file_to_file [1, 2, 3])\<lparr>rd_ans := [Fail EIO]\<rparr>) = Some r \<and> rc r = EXIT_SUCCESS \<and> \<not> eof r \<and>
     in_off (snd (world r)) = 0"
  using noerror_stays_put
    [of "\<lparr>at = \<lparr>active = False, current_stage = 0, stage_blocks_done = 0, stage_start_time = 0,
       stage_bytes_start = 0, stage_rates = [], total_byte_limit = - 1\<rparr>, partread = 0, saved_byte = - 1\<rparr>"
     "(ctx0 [] 0 (dd_init_default_config\<lparr>blocksize := 2, conversions_mask := C_NOERROR\<rparr>))\<lparr>ibuf := Some [0, 0, 0, 0]\<rparr>"
     "(file_to_file [1, 2, 3])\<lparr>rd_ans := [Fail EIO]\<rparr>" EIO "(file_to_file [1, 2, 3])\<lparr>rd_ans := [], errno := EIO\<rparr>" list_hash]
  by (auto simp: sync_eval)

text \<open>
  The padding of \<open>--sync\<close>. A short block is brought to the block size; the padding is zero bytes
  without \<open>--noerror\<close>, and with \<open>--noerror\<close> whatever an earlier read left in the buffer.
\<close>

theorem sync_padding:
  assumes "sync_account n st ctx = (m, st', ctx')" "conv (cfg ctx) C_SYNC" "int n < bsize ctx"
    "bs_nat ctx \<le> length (ibuf_bytes ctx)"
  shows "m = bs_nat ctx \<and>
    take m (ibuf_bytes ctx') = take n (ibuf_bytes ctx) @
       (if conv (cfg ctx) C_NOERROR then take (m - n) (drop n (ibuf_bytes ctx)) else replicate (m - n) 0) \<and>
    r_partial (stats ctx') = r_partial (stats ctx) + 1 \<and> r_full (stats ctx') = r_full (stats ctx)"
proof (intro conjI)
  have m: "m = bs_nat ctx" "n \<le> bs_nat ctx" using assms by (auto simp: sync_account_def upd_stats_def Let_def split: if_splits)
  show "m = bs_nat ctx" by (rule m)
  show "r_partial (stats ctx') = r_partial (stats ctx) + 1" "r_full (stats ctx') = r_full (stats ctx)"
    using assms by (auto simp: sync_account_def upd_stats_def Let_def split: if_splits)
  show "take m (ibuf_bytes ctx') = take n (ibuf_bytes ctx) @
       (if conv (cfg ctx) C_NOERROR then take (m - n) (drop n (ibuf_bytes ctx)) else replicate (m - n) 0)"
  proof (cases "conv (cfg ctx) C_NOERROR")
    case True
    then have "ibuf_bytes ctx' = ibuf_bytes ctx"
      using assms by (auto simp: sync_account_def upd_stats_def Let_def ibuf_bytes_def split: if_splits)
    then show ?thesis using True m(2) by (simp add: take_take_drop m(1))
  next
    case False
    then have "ibuf_bytes ctx' = blit (ibuf_bytes ctx) n (replicate (bs_nat ctx - n) 0)"
      using assms by (auto simp: sync_account_def upd_stats_def Let_def ibuf_bytes_def split: if_splits)
    then show ?thesis using False m(2) assms(4) by (simp add: blit_def m(1) min_absorb2)
  qed
qed

lemma sync_padding_witness:
  "take 4 (ibuf_bytes ((ctx0 [] 0 (dd_init_default_config\<lparr>blocksize := 4, conversions_mask := C_SYNC\<rparr>))
      \<lparr>ibuf := Some [7, 0, 0, 0, 9, 9], stats := stats0\<lparr>r_partial := 1\<rparr>\<rparr>)) = [7] @ replicate 3 0"
  using sync_padding
    [of 1 "\<lparr>at = \<lparr>active = False, current_stage = 0, stage_blocks_done = 0, stage_start_time = 0,
       stage_bytes_start = 0, stage_rates = [], total_byte_limit = - 1\<rparr>, partread = 0, saved_byte = - 1\<rparr>"
     "(ctx0 [] 0 (dd_init_default_config\<lparr>blocksize := 4, conversions_mask := C_SYNC\<rparr>))\<lparr>ibuf := Some [7, 8, 8, 8, 9, 9]\<rparr>"
     4 "\<lparr>at = \<lparr>active = False, current_stage = 0, stage_blocks_done = 0, stage_start_time = 0,
       stage_bytes_start = 0, stage_rates = [], total_byte_limit = - 1\<rparr>, partread = 1, saved_byte = - 1\<rparr>"
     "(ctx0 [] 0 (dd_init_default_config\<lparr>blocksize := 4, conversions_mask := C_SYNC\<rparr>))
      \<lparr>ibuf := Some [7, 0, 0, 0, 9, 9], stats := stats0\<lparr>r_partial := 1\<rparr>\<rparr>"]
  by (simp add: sync_eval numeral_3_eq_3)

end
