(* ===== verification/ReflinkDriver.thy ===== *)
theory ReflinkDriver
  imports Driver
begin

text \<open>
  The zero-copy driver of \<open>src/src/io_reflink.c\<close>: \<open>copy_file_range\<close> between two regular files, in chunks of
  16 to 64 MiB. (\<open>reflink_driver_flush\<close> does nothing and \<open>reflink_driver_cleanup\<close> frees the state.)
\<close>

section \<open>copy_file_range\<close>

text \<open>
  \<open>copy_file_range (0, NULL, 1, NULL, n, 0)\<close> at the offsets of the two descriptors. The kernel may copy
  less than asked, and on some file systems nothing although data is left: an answer \<open>Xfer 0\<close>.
\<close>

definition pop_cfr :: "kern \<Rightarrow> kern" where
  "pop_cfr k = k\<lparr>plat := (plat k)\<lparr>cfr_ans := tl (cfr_ans (plat k))\<rparr>\<rparr>"

definition cfr_copy :: "nat \<Rightarrow> kern \<Rightarrow> (int + nat) \<times> kern" where
  "cfr_copy n k = (case take_input n k of (bs, k) \<Rightarrow> (Inr (length bs), put_output bs k))"

definition sys_copy_file_range :: "nat \<Rightarrow> kern \<Rightarrow> (int + nat) \<times> kern" where
  "sys_copy_file_range n k =
     (if any_set (out_fl k) O_APPEND then (Inl 9, k\<lparr>errno := 9\<rparr>)
      else case cfr_ans (plat k) of
        [] \<Rightarrow> cfr_copy n k
      | Xfer m # as \<Rightarrow> cfr_copy (min n m) (pop_cfr k)
      | Fail e # as \<Rightarrow> (Inl e, (pop_cfr k)\<lparr>errno := e\<rparr>))"

section \<open>The driver\<close>

record reflink_driver_state =
  rl_chunk_size :: int
  rl_total_byte_limit :: int

text \<open>The limit as both zero-copy drivers compute it at their start.\<close>

definition zero_copy_limit :: "dd_config \<Rightarrow> int" where
  "zero_copy_limit c =
     (if 0 \<le> bytes_to_copy c then bytes_to_copy c
      else if max_records c \<noteq> INTMAX_MAX \<or> max_bytes c \<noteq> 0
        then (case ckd_mul (max_records c) (blocksize c) of
                (True, p) \<Rightarrow> INTMAX_MAX
              | (False, p) \<Rightarrow>
                  (case ckd_add p (max_bytes c) of (True, t) \<Rightarrow> INTMAX_MAX | (False, t) \<Rightarrow> t))
      else - 1)"

text \<open>The refusals the two zero-copy drivers share, up to their tests of the file types.\<close>

definition zero_copy_refuses :: "'h dd_context \<Rightarrow> bool" where
  "zero_copy_refuses ctx \<longleftrightarrow>
     conv (cfg ctx) (C_SWAB OR C_SYNC OR C_SHA256 OR C_SPARSE) \<or>
     iread_fnc ctx \<or> i_nocache (cfg ctx) \<or> o_nocache (cfg ctx) \<or>
     any_set (input_flags (cfg ctx)) (O_DIRECT OR O_NOCACHE) \<or>
     any_set (output_flags (cfg ctx)) (O_DIRECT OR O_NOCACHE)"

text \<open>\<open>None\<close> is \<open>EXIT_FAILURE\<close>.\<close>

definition reflink_driver_init :: "'h st \<Rightarrow> reflink_driver_state option" where
  "reflink_driver_init w =
     (case w of (ctx, k) \<Rightarrow>
        if zero_copy_refuses ctx then None
        else if in_type k \<noteq> Some S_IFREG then None
        else if out_type k \<noteq> Some S_IFREG then None
        else if \<not> conv (cfg ctx) C_REFLINK \<and> conv (cfg ctx) C_AUTOTUNE then None
        else Some \<lparr>rl_chunk_size = min (64 * 1024 * 1024) (max (bsize ctx) (16 * 1024 * 1024)),
                   rl_total_byte_limit = zero_copy_limit (cfg ctx)\<rparr>)"

definition reflink_count :: "int \<Rightarrow> int \<Rightarrow> dd_stats \<Rightarrow> dd_stats" where
  "reflink_count bs ret s =
     s\<lparr>w_bytes := w_bytes s + ret,
       r_full := r_full s + ret div bs,
       r_partial := (if ret mod bs \<noteq> 0 then r_partial s + 1 else r_partial s),
       w_full := w_full s + ret div bs,
       w_partial := (if ret mod bs \<noteq> 0 then w_partial s + 1 else w_partial s)\<rparr>"

definition reflink_driver_step :: "reflink_driver_state \<Rightarrow> 'h st \<Rightarrow> (reflink_driver_state, 'h) step_out option" where
  "reflink_driver_step st w =
     (case w of (ctx, k) \<Rightarrow>
        let limit = rl_total_byte_limit st;
            remaining = limit - w_bytes (stats ctx)
        in if 0 \<le> limit \<and> remaining \<le> 0 then done_eof st (ctx, k)
           else
             let to_copy = (if 0 \<le> limit \<and> remaining < rl_chunk_size st then remaining else rl_chunk_size st)
             in (case sys_copy_file_range (nat to_copy) k of
                   (Inl e, k) \<Rightarrow>
                     if e = EINTR then done_ok st (ctx, k)
                     else if w_bytes (stats ctx) = 0 \<and> (e = EXDEV \<or> e = ENOSYS \<or> e = EOPNOTSUPP \<or> e = EINVAL)
                       then (if conv (cfg ctx) C_REFLINK
                             then done_fail st (dd_diagnose e ''copy_file_range not supported'' (ctx, k))
                             else done_fallback st (ctx, k))
                     else done_fail st (dd_diagnose e ''error copying via copy_file_range'' (ctx, k))
                 | (Inr ret, k) \<Rightarrow>
                     if ret = 0 then done_eof st (ctx, k)
                     else done_ok st (ctx\<lparr>stats := reflink_count (bsize ctx) (int ret) (stats ctx)\<rparr>, k)))"

section \<open>The driver keeps the contract\<close>

definition reflink_ready :: "reflink_driver_state \<Rightarrow> 'h st \<Rightarrow> bool" where
  "reflink_ready st w \<longleftrightarrow> 0 < rl_chunk_size st \<and> Xfer 0 \<notin> set (cfr_ans (plat (snd w))) \<and>
     (0 \<le> rl_total_byte_limit st \<longrightarrow> w_bytes (stats (fst w)) \<le> rl_total_byte_limit st)"

definition reflink_stop :: "reflink_driver_state \<Rightarrow> 'h st \<Rightarrow> bool" where
  "reflink_stop st w \<longleftrightarrow> avail (snd w) = [] \<or>
     0 \<le> rl_total_byte_limit st \<and> rl_total_byte_limit st \<le> w_bytes (stats (fst w))"

definition reflink_left :: "reflink_driver_state \<Rightarrow> 'h st \<Rightarrow> nat" where
  "reflink_left st w = length (avail (snd w)) + length (cfr_ans (plat (snd w)))"

lemma pop_cfr_frame [kern_simps]:
  "avail (pop_cfr k) = avail k" "view (pop_cfr k) = view k" "beyond (pop_cfr k) = beyond k" "out_fl (pop_cfr k) = out_fl k"
  "out_seek (pop_cfr k) = out_seek k" "out_type (pop_cfr k) = out_type k" "in_seek (pop_cfr k) = in_seek k"
  "in_type (pop_cfr k) = in_type k" "cfr_ans (plat (pop_cfr k)) = tl (cfr_ans (plat k))"
  by (simp_all add: pop_cfr_def avail_def view_def beyond_def out_pos_def)

lemma cfr_copy_moves:
  assumes "cfr_copy n k = (r, k')"
  shows "\<exists>bs. r = Inr (length bs) \<and> moves bs k k' \<and> length bs \<le> n \<and> (bs = [] \<longrightarrow> n = 0 \<or> avail k = []) \<and> plat k' = plat k"
proof -
  obtain bs k1 where t: "take_input n k = (bs, k1)" by fastforce
  have r: "r = Inr (length bs)" "k' = put_output bs k1" using assms by (simp_all add: cfr_copy_def t)
  note p = take_input_props [OF t]
  have "consumes bs k k1" using p(1) by (simp add: consumes_def p(4))
  then have "moves bs k k'"
    unfolding r by (rule moves_consumes_extends [OF _ putsD(1) [OF puts_put_output]])
  moreover have "plat k' = plat k" by (simp add: r p(4) put_output_def)
  ultimately show ?thesis using r(1) p(2,3) by auto
qed

lemma sys_copy_file_range_cases:
  assumes "sys_copy_file_range n k = (r, k')" "Xfer 0 \<notin> set (cfr_ans (plat k))"
  obtains (data) bs where "r = Inr (length bs)" "moves bs k k'" "length bs \<le> n" "bs = [] \<longrightarrow> n = 0 \<or> avail k = []"
      "set (cfr_ans (plat k')) \<subseteq> set (cfr_ans (plat k))" "length (cfr_ans (plat k')) \<le> length (cfr_ans (plat k))"
  | (error) e where "r = Inl e" "moves [] k k'" "set (cfr_ans (plat k')) \<subseteq> set (cfr_ans (plat k))"
      "e \<noteq> 9 \<longrightarrow> length (cfr_ans (plat k')) < length (cfr_ans (plat k))"
proof (cases "any_set (out_fl k) O_APPEND")
  case True
  then show thesis
    using assms by (intro error [of 9])
      (auto simp: sys_copy_file_range_def moves_def avail_def view_def beyond_def out_pos_def)
next
  case na: False
  have pm: "moves bs (pop_cfr k) k' \<Longrightarrow> moves bs k k'" for bs
    by (simp add: moves_def kern_simps)
  show thesis
  proof (cases "cfr_ans (plat k)")
    case Nil
    then have "cfr_copy n k = (r, k')" using assms na by (simp add: sys_copy_file_range_def)
    from cfr_copy_moves [OF this] show thesis by (auto intro: data)
  next
    case (Cons a as)
    show thesis
    proof (cases a)
      case (Xfer m)
      then have c: "cfr_copy (min n m) (pop_cfr k) = (r, k')" and m: "0 < m"
        using assms na Cons by (auto simp: sys_copy_file_range_def)
      from cfr_copy_moves [OF c] m show thesis
        by (elim exE conjE, intro data) (auto simp: kern_simps Cons pm)
    next
      case (Fail e)
      then have r: "r = Inl e" "k' = (pop_cfr k)\<lparr>errno := e\<rparr>"
        using assms na Cons by (simp_all add: sys_copy_file_range_def)
      have "moves [] k ((pop_cfr k)\<lparr>errno := e\<rparr>)"
        by (simp add: moves_def pop_cfr_def avail_def view_def beyond_def out_pos_def)
      then show thesis by (intro error [of e]) (auto simp: r Cons pop_cfr_def)
    qed
  qed
qed

lemma reflink_step_dstate:
  assumes "reflink_driver_step st w = Some r"
  shows "dstate r = st"
  using assms by (auto simp: reflink_driver_step_def done_defs Let_def split: prod.splits sum.splits if_splits)

lemma reflink_step_contract:
  assumes rdy: "reflink_ready st w"
  shows "reflink_driver_step st w \<noteq> None"
    and "reflink_driver_step st w = Some r \<Longrightarrow> rc r = EXIT_SUCCESS \<Longrightarrow> \<not> fallback r \<Longrightarrow>
      reflink_ready (dstate r) (world r) \<and>
      (\<exists>bs. moves bs (snd w) (snd (world r)) \<and>
        w_bytes (stats (fst (world r))) = w_bytes (stats (fst w)) + int (length bs) \<and>
        (eof r \<longrightarrow> bs = [] \<and> reflink_stop (dstate r) (world r))) \<and>
      (\<not> eof r \<longrightarrow> reflink_left (dstate r) (world r) < reflink_left st w)"
    and "reflink_driver_step st w = Some r \<Longrightarrow> fallback r \<Longrightarrow>
      moves [] (snd w) (snd (world r)) \<and> w_bytes (stats (fst (world r))) = w_bytes (stats (fst w))"
proof -
  obtain ctx k where w: "w = (ctx, k)" by fastforce
  let ?lim = "rl_total_byte_limit st" and ?rem = "rl_total_byte_limit st - w_bytes (stats ctx)"
  let ?n = "if 0 \<le> ?lim \<and> ?rem < rl_chunk_size st then ?rem else rl_chunk_size st"
  have "reflink_driver_step st w \<noteq> None \<and> (\<forall>r. reflink_driver_step st w = Some r \<longrightarrow>
      (rc r = EXIT_SUCCESS \<and> \<not> fallback r \<longrightarrow> reflink_ready (dstate r) (world r) \<and>
        (\<exists>bs. moves bs (snd w) (snd (world r)) \<and>
          w_bytes (stats (fst (world r))) = w_bytes (stats (fst w)) + int (length bs) \<and>
          (eof r \<longrightarrow> bs = [] \<and> reflink_stop (dstate r) (world r))) \<and>
        (\<not> eof r \<longrightarrow> reflink_left (dstate r) (world r) < reflink_left st w)) \<and>
      (fallback r \<longrightarrow> moves [] (snd w) (snd (world r)) \<and> w_bytes (stats (fst (world r))) = w_bytes (stats (fst w))))"
  proof (cases "0 \<le> ?lim \<and> ?rem \<le> 0")
    case True
    then show ?thesis
      using rdy by (auto simp: w reflink_driver_step_def done_eof_def reflink_stop_def intro!: exI [of _ "[]"])
  next
    case nl: False
    have n: "0 < ?n" "0 \<le> ?lim \<longrightarrow> w_bytes (stats ctx) + ?n \<le> ?lim" using rdy nl by (auto simp: reflink_ready_def)
    obtain res k1 where c: "sys_copy_file_range (nat ?n) k = (res, k1)" by fastforce
    have x0: "Xfer 0 \<notin> set (cfr_ans (plat k))" using rdy by (simp add: reflink_ready_def w)
    have st: "reflink_driver_step st w = (case res of
        Inl e \<Rightarrow>
          if e = EINTR then done_ok st (ctx, k1)
          else if w_bytes (stats ctx) = 0 \<and> (e = EXDEV \<or> e = ENOSYS \<or> e = EOPNOTSUPP \<or> e = EINVAL)
            then (if conv (cfg ctx) C_REFLINK
                  then done_fail st (dd_diagnose e ''copy_file_range not supported'' (ctx, k1))
                  else done_fallback st (ctx, k1))
          else done_fail st (dd_diagnose e ''error copying via copy_file_range'' (ctx, k1))
      | Inr ret \<Rightarrow>
          if ret = 0 then done_eof st (ctx, k1)
          else done_ok st (ctx\<lparr>stats := reflink_count (bsize ctx) (int ret) (stats ctx)\<rparr>, k1))"
      using nl c by (auto simp: w reflink_driver_step_def Let_def split: sum.splits)
    show ?thesis
    proof (cases rule: sys_copy_file_range_cases [OF c x0])
      case (1 bs)
      have "length bs \<le> nat ?n" "bs = [] \<longrightarrow> avail k = []" using 1 n(1) by auto
      moreover have "length (avail k1) + length (cfr_ans (plat k1)) < length (avail k) + length (cfr_ans (plat k))"
        if "bs \<noteq> []"
        using 1(6) movesD(1) [OF 1(2)] that by (cases bs) auto
      ultimately show ?thesis
        using 1(2,5,6) n rdy unfolding st 1(1)
        by (auto simp: done_defs w reflink_ready_def reflink_stop_def reflink_left_def reflink_count_def
            dest: movesD(1) intro!: exI [of _ bs])
    next
      case (2 e)
      show ?thesis
        using 2(2-4) rdy unfolding st 2(1)
        by (auto simp: done_defs w reflink_ready_def reflink_left_def dest: movesD(1) intro!: exI [of _ "[]"])
    qed
  qed
  then show "reflink_driver_step st w \<noteq> None"
    "reflink_driver_step st w = Some r \<Longrightarrow> rc r = EXIT_SUCCESS \<Longrightarrow> \<not> fallback r \<Longrightarrow>
      reflink_ready (dstate r) (world r) \<and>
      (\<exists>bs. moves bs (snd w) (snd (world r)) \<and>
        w_bytes (stats (fst (world r))) = w_bytes (stats (fst w)) + int (length bs) \<and>
        (eof r \<longrightarrow> bs = [] \<and> reflink_stop (dstate r) (world r))) \<and>
      (\<not> eof r \<longrightarrow> reflink_left (dstate r) (world r) < reflink_left st w)"
    "reflink_driver_step st w = Some r \<Longrightarrow> fallback r \<Longrightarrow>
      moves [] (snd w) (snd (world r)) \<and> w_bytes (stats (fst (world r))) = w_bytes (stats (fst w))"
    by blast+
qed

interpretation reflink: io_driver reflink_driver_step reflink_ready reflink_stop "\<lambda>d w. snd w" reflink_left
    "\<lambda>d w. w_bytes (stats (fst w))"
  by unfold_locales (use reflink_step_contract in blast)+

lemma reflink_steps_dstate: "reflink.steps n d w = Some r \<Longrightarrow> dstate r = d"
proof (induction n arbitrary: w)
  case (Suc n)
  then obtain q where q: "reflink_driver_step d w = Some q" by (auto split: option.splits)
  show ?case
    using Suc reflink_step_dstate [OF q] q by (auto split: if_splits)
qed simp

section \<open>Properties\<close>

text \<open>
  C28: the zero-copy driver copies. For every schedule of partial transfers and errors of
  \<open>copy_file_range\<close> that never transfers nothing with data left, the loop ends; a run without error has
  moved exactly the counted bytes of the source, in order and never more than the limit, and stops only
  at the end of the source or at the limit; a run that falls back leaves the descriptors behind the
  bytes it counted, so that the synchronous driver continues without gap or repetition.
\<close>

theorem reflink_driver_copies:
  assumes "reflink_driver_init (ctx, k) = Some d" "w_bytes (stats ctx) = 0" "Xfer 0 \<notin> set (cfr_ans (plat k))"
    "reflink_left d (ctx, k) < n"
  shows "\<exists>r. reflink.steps n d (ctx, k) = Some r \<and>
    (rc r = EXIT_SUCCESS \<longrightarrow>
      (\<exists>bs. moves bs k (snd (world r)) \<and> w_bytes (stats (fst (world r))) = int (length bs)) \<and>
      (\<not> fallback r \<longrightarrow> reflink_stop (dstate r) (world r) \<and>
        (0 \<le> rl_total_byte_limit d \<longrightarrow> w_bytes (stats (fst (world r))) \<le> rl_total_byte_limit (dstate r))))"
proof -
  have lim: "0 \<le> rl_total_byte_limit d \<or> rl_total_byte_limit d = zero_copy_limit (cfg ctx)"
    and ch: "0 < rl_chunk_size d"
    using assms(1) by (auto simp: reflink_driver_init_def split: if_splits)
  have rdy: "reflink_ready d (ctx, k)" using ch assms(2,3) by (simp add: reflink_ready_def)
  obtain r where r: "reflink.steps n d (ctx, k) = Some r"
    using reflink.steps_end [OF rdy assms(4)] by auto
  show ?thesis
  proof (cases "fallback r")
    case True
    then show ?thesis using r reflink.steps_fallback [OF rdy r] assms(2) by auto
  next
    case False
    then show ?thesis
      using r reflink.steps_moves [OF rdy r] assms(2) reflink_steps_dstate [OF r] by (auto simp: reflink_ready_def)
  qed
qed

lemma reflink_driver_copies_witness:
  "let ctx = ctx0 () 4096 (dd_init_default_config\<lparr>blocksize := 512\<rparr>);
       d = \<lparr>rl_chunk_size = 16777216, rl_total_byte_limit = - 1\<rparr>
   in \<exists>r. reflink.steps 5 d (ctx, file_to_file [1, 2, 3]) = Some r \<and>
    (rc r = EXIT_SUCCESS \<longrightarrow>
      (\<exists>bs. moves bs (file_to_file [1, 2, 3]) (snd (world r)) \<and> w_bytes (stats (fst (world r))) = int (length bs)) \<and>
      (\<not> fallback r \<longrightarrow> reflink_stop (dstate r) (world r) \<and>
        (0 \<le> rl_total_byte_limit d \<longrightarrow> w_bytes (stats (fst (world r))) \<le> rl_total_byte_limit (dstate r))))"
  unfolding Let_def
  by (rule reflink_driver_copies)
    (simp_all add: reflink_driver_init_def zero_copy_refuses_def zero_copy_limit_def ctx0_def stats0_def conv_def
      dd_init_default_config_def file_to_file_def plat0_def reflink_left_def avail_def)

text \<open>
  C31: a \<open>copy_file_range\<close> that transfers nothing although data is left, as it does on files whose size is
  reported as 0, is taken for the end of the input: the step reports success and end, with the source
  unread and nothing written.
\<close>

theorem reflink_zero_is_taken_for_eof:
  assumes "cfr_ans (plat k) = Xfer 0 # as" "\<not> any_set (out_fl k) O_APPEND"
    and "\<not> (0 \<le> rl_total_byte_limit st \<and> rl_total_byte_limit st \<le> w_bytes (stats ctx))"
  shows "\<exists>r. reflink_driver_step st (ctx, k) = Some r \<and> rc r = EXIT_SUCCESS \<and> eof r \<and> \<not> fallback r \<and>
    avail (snd (world r)) = avail k \<and> out_data (snd (world r)) = out_data k"
proof -
  have "sys_copy_file_range n k = (Inr 0, (pop_cfr k)\<lparr>in_off := in_off k\<rparr>)" for n
    using assms(1,2) by (simp add: sys_copy_file_range_def cfr_copy_def take_input_def put_output_def pop_cfr_def)
  then have "reflink_driver_step st (ctx, k) = done_eof st (ctx, (pop_cfr k)\<lparr>in_off := in_off k\<rparr>)"
    using assms(3) by (auto simp: reflink_driver_step_def Let_def)
  then show ?thesis by (simp add: done_eof_def pop_cfr_def avail_def)
qed

lemma reflink_zero_is_taken_for_eof_witness:
  "\<exists>r. reflink_driver_step \<lparr>rl_chunk_size = 16777216, rl_total_byte_limit = - 1\<rparr>
       (ctx0 () 4096 dd_init_default_config, (file_to_file [1, 2, 3])\<lparr>plat := plat0\<lparr>cfr_ans := [Xfer 0]\<rparr>\<rparr>) = Some r \<and>
     rc r = EXIT_SUCCESS \<and> eof r \<and> \<not> fallback r \<and> avail (snd (world r)) = [1, 2, 3] \<and> out_data (snd (world r)) = []"
  using reflink_zero_is_taken_for_eof
    [of "(file_to_file [1, 2, 3])\<lparr>plat := plat0\<lparr>cfr_ans := [Xfer 0]\<rparr>\<rparr>" "[]"
      "\<lparr>rl_chunk_size = 16777216, rl_total_byte_limit = - 1\<rparr>" "ctx0 () 4096 dd_init_default_config"]
  by (simp add: file_to_file_def avail_def any_set_def cfg_simps)

end
