(* ===== verification/SpliceDriver.thy ===== *)
theory SpliceDriver
  imports ReflinkDriver
begin

text \<open>
  The zero-copy driver of \<open>src/src/io_splice.c\<close>: \<open>splice\<close> from the source to the target when one of them
  is a pipe, else through a kernel pipe of its own. The driver keeps the offsets of seekable files
  itself. (\<open>splice_driver_flush\<close> does nothing and \<open>splice_driver_cleanup\<close> closes the pipe.)
\<close>

section \<open>splice\<close>

text \<open>
  An offset pointer is \<open>Some\<close> position, \<open>NULL\<close> is \<open>None\<close>. \<open>effk ip op k\<close> is the kernel as a call with these
  pointers sees it; \<open>leave k k'\<close> puts back the descriptors' own offsets, which such a call does not move.
\<close>

fun off_of :: "int option \<Rightarrow> nat \<Rightarrow> nat" where
  "off_of None own = own"
| "off_of (Some p) own = nat p"

definition effk :: "int option \<Rightarrow> int option \<Rightarrow> kern \<Rightarrow> kern" where
  "effk ip op k =
     k\<lparr>in_off := off_of ip (in_off k),
       out_off := off_of op (out_off k)\<rparr>"

definition leave_in :: "int option \<Rightarrow> kern \<Rightarrow> kern \<Rightarrow> int option \<times> kern" where
  "leave_in ip k k' =
     (case ip of None \<Rightarrow> (None, k') | Some p \<Rightarrow> (Some (int (in_off k')), k'\<lparr>in_off := in_off k\<rparr>))"

definition leave_out :: "int option \<Rightarrow> kern \<Rightarrow> kern \<Rightarrow> int option \<times> kern" where
  "leave_out op k k' =
     (case op of None \<Rightarrow> (None, k') | Some p \<Rightarrow> (Some (int (out_off k')), k'\<lparr>out_off := out_off k\<rparr>))"

definition pop_in :: "kern \<Rightarrow> kern" where
  "pop_in k = k\<lparr>plat := (plat k)\<lparr>spl_in_ans := tl (spl_in_ans (plat k))\<rparr>\<rparr>"

definition pop_out :: "kern \<Rightarrow> kern" where
  "pop_out k = k\<lparr>plat := (plat k)\<lparr>spl_out_ans := tl (spl_out_ans (plat k))\<rparr>\<rparr>"

text \<open>From the source: the bytes taken, at most \<open>n\<close> and what the kernel cares to give, at least one if one is there.\<close>

definition sys_splice_in :: "int option \<Rightarrow> nat \<Rightarrow> kern \<Rightarrow> (int + byte list) \<times> int option \<times> kern" where
  "sys_splice_in ip n k =
     (case spl_in_ans (plat k) of
        Fail e # as \<Rightarrow> (Inl e, ip, (pop_in k)\<lparr>errno := e\<rparr>)
      | as \<Rightarrow>
          (case take_input (case as of Xfer m # _ \<Rightarrow> min n (max 1 m) | _ \<Rightarrow> n)
                  (k\<lparr>in_off := off_of ip (in_off k)\<rparr>) of
             (bs, k') \<Rightarrow> (Inr bs, leave_in ip k (pop_in k'))))"

text \<open>Into the target: how many of the bytes. The kernel refuses a target opened with \<open>O_APPEND\<close>.\<close>

definition sys_splice_out :: "int option \<Rightarrow> byte list \<Rightarrow> kern \<Rightarrow> (int + nat) \<times> int option \<times> kern" where
  "sys_splice_out op bs k =
     (if any_set (out_fl k) O_APPEND then (Inl EINVAL, op, k\<lparr>errno := EINVAL\<rparr>)
      else case spl_out_ans (plat k) of
        Fail e # as \<Rightarrow> (Inl e, op, (pop_out k)\<lparr>errno := e\<rparr>)
      | as \<Rightarrow>
          let n = (case as of Xfer m # _ \<Rightarrow> min m (length bs) | _ \<Rightarrow> length bs)
          in (Inr n, leave_out op k
                (put_output (take n bs) ((pop_out k)\<lparr>out_off := off_of op (out_off k)\<rparr>))))"

section \<open>The driver\<close>

record splice_driver_state =
  sp_chunk_size :: int
  sp_total_byte_limit :: int
  in_is_pipe :: bool
  out_is_pipe :: bool
  double_splice :: bool
  in_file_pos :: int
  out_file_pos :: int
  sp_in_seekable :: bool
  sp_out_seekable :: bool

definition splice_driver_init :: "'h st \<Rightarrow> splice_driver_state option" where
  "splice_driver_init w =
     (case w of (ctx, k) \<Rightarrow>
        if zero_copy_refuses ctx then None
        else if in_type k = None \<or> out_type k = None then None
        else
          let in_pipe = (in_type k = Some S_IFIFO);
              out_pipe = (out_type k = Some S_IFIFO)
          in if \<not> in_pipe \<and> \<not> out_pipe \<and> pipe_capacity (plat k) = None then None
             else
               let cur_in = fst (sys_lseek STDIN_FILENO 0 k);
                   cur_out = fst (sys_lseek STDOUT_FILENO 0 k);
                   seek_in = (cur_in \<noteq> None \<and> \<not> in_pipe);
                   seek_out = (cur_out \<noteq> None \<and> \<not> out_pipe \<and> \<not> any_set (output_flags (cfg ctx)) O_APPEND);
                   cs = (if 0 < bsize ctx then bsize ctx else 1048576);
                   cs = (if cs < 65536 then 65536 else cs);
                   cs = (if 16777216 < cs then 16777216 else cs)
               in Some \<lparr>sp_chunk_size = cs, sp_total_byte_limit = zero_copy_limit (cfg ctx), in_is_pipe = in_pipe,
                        out_is_pipe = out_pipe, double_splice = (\<not> in_pipe \<and> \<not> out_pipe),
                        in_file_pos = (if seek_in then the cur_in else 0),
                        out_file_pos = (if seek_out then the cur_out else 0),
                        sp_in_seekable = seek_in, sp_out_seekable = seek_out\<rparr>)"

text \<open>The two pointers the step passes.\<close>

definition poff_in :: "splice_driver_state \<Rightarrow> int option" where
  "poff_in st = (if sp_in_seekable st \<and> \<not> in_is_pipe st then Some (in_file_pos st) else None)"

definition poff_out :: "splice_driver_state \<Rightarrow> int option" where
  "poff_out st = (if sp_out_seekable st \<and> \<not> out_is_pipe st then Some (out_file_pos st) else None)"

definition set_poff :: "int option \<Rightarrow> int option \<Rightarrow> splice_driver_state \<Rightarrow> splice_driver_state" where
  "set_poff ip op st =
     st\<lparr>in_file_pos := (case ip of None \<Rightarrow> in_file_pos st | Some p \<Rightarrow> p),
        out_file_pos := (case op of None \<Rightarrow> out_file_pos st | Some p \<Rightarrow> p)\<rparr>"

text \<open>The loop that empties the internal pipe: the error (0 for the unexpected end), or \<open>None\<close> when it is empty.\<close>

function splice_out_loop :: "int option \<Rightarrow> byte list \<Rightarrow> kern \<Rightarrow> int option \<times> int option \<times> kern" where
  "splice_out_loop op bs k =
     (if bs = [] then (None, op, k)
      else case sys_splice_out op bs k of
        (Inl e, op', k') \<Rightarrow> if e = EINTR then splice_out_loop op' bs k' else (Some e, op', k')
      | (Inr n, op', k') \<Rightarrow> if n = 0 then (Some 0, op', k') else splice_out_loop op' (drop n bs) k')"
  by pat_completeness auto
termination
  by (relation "measures [\<lambda>(op, bs, k). length (spl_out_ans (plat k)), \<lambda>(op, bs, k). length bs]")
    (auto simp: sys_splice_out_def leave_out_def put_output_def pop_out_def Let_def
      split: if_splits list.splits ans.splits option.splits)

declare splice_out_loop.simps [simp del]

definition splice_no_support :: "int \<Rightarrow> 'h dd_context \<Rightarrow> bool" where
  "splice_no_support e ctx \<longleftrightarrow> w_bytes (stats ctx) = 0 \<and> (e = EINVAL \<or> e = ENOSYS \<or> e = ESPIPE)"

definition splice_double :: "nat \<Rightarrow> splice_driver_state \<Rightarrow> 'h st \<Rightarrow> (splice_driver_state, 'h) step_out option" where
  "splice_double n st w =
     (case w of (ctx, k) \<Rightarrow>
        (case sys_splice_in (poff_in st) (min n (case pipe_capacity (plat k) of None \<Rightarrow> 0 | Some c \<Rightarrow> c)) k of
           (Inl e, ip, k) \<Rightarrow>
             if e = EINTR then done_ok st (ctx, k)
             else if splice_no_support e ctx then done_fallback st (ctx, k)
             else done_fail st (dd_diagnose e ''splice error from input into pipe'' (ctx, k))
         | (Inr bs, ip, k) \<Rightarrow>
             if bs = [] then done_eof (set_poff ip None st) (ctx, k)
             else
               (case splice_out_loop (poff_out st) bs k of
                  (Some e, op, k) \<Rightarrow>
                    done_fail (set_poff ip op st)
                      (dd_diagnose e (if e = 0 then ''unexpected EOF splicing pipe to output''
                                      else ''splice error from pipe to output'') (ctx, k))
                | (None, op, k) \<Rightarrow>
                    done_ok (set_poff ip op st)
                      (ctx\<lparr>stats := (stats ctx)\<lparr>r_full := r_full (stats ctx) + 1, w_full := w_full (stats ctx) + 1,
                                              w_bytes := w_bytes (stats ctx) + int (length bs)\<rparr>\<rparr>, k))))"

text \<open>
  The single \<open>splice\<close> moves the bytes in one call: what comes out of the source goes into the target.
\<close>

definition splice_single :: "nat \<Rightarrow> splice_driver_state \<Rightarrow> 'h st \<Rightarrow> (splice_driver_state, 'h) step_out option" where
  "splice_single n st w =
     (case w of (ctx, k) \<Rightarrow>
        (case (if any_set (out_fl k) O_APPEND then (Inl EINVAL, poff_in st, k\<lparr>errno := EINVAL\<rparr>)
               else sys_splice_in (poff_in st) n k) of
           (Inl e, ip, k) \<Rightarrow>
             if e = EINTR then done_ok st (ctx, k)
             else if splice_no_support e ctx then done_fallback st (ctx, k)
             else done_fail st (dd_diagnose e ''error splicing'' (ctx, k))
         | (Inr bs, ip, k) \<Rightarrow>
             if bs = [] then done_eof (set_poff ip None st) (ctx, k)
             else
               (case leave_out (poff_out st) k
                       (put_output bs (k\<lparr>out_off := off_of (poff_out st) (out_off k)\<rparr>)) of
                  (op, k) \<Rightarrow>
                    done_ok (set_poff ip op st)
                      (ctx\<lparr>stats := (stats ctx)\<lparr>w_bytes := w_bytes (stats ctx) + int (length bs),
                           w_full := (if 0 < bsize ctx \<and> int (length bs) = bsize ctx then w_full (stats ctx) + 1
                                      else w_full (stats ctx)),
                           w_partial := (if 0 < bsize ctx \<and> int (length bs) = bsize ctx then w_partial (stats ctx)
                                         else w_partial (stats ctx) + 1),
                           r_full := r_full (stats ctx) + 1\<rparr>\<rparr>, k))))"

definition splice_driver_step :: "splice_driver_state \<Rightarrow> 'h st \<Rightarrow> (splice_driver_state, 'h) step_out option" where
  "splice_driver_step st w =
     (let limit = sp_total_byte_limit st;
          remaining = limit - w_bytes (stats (fst w))
      in if 0 \<le> limit \<and> remaining \<le> 0 then done_eof st w
         else
           let to_transfer = (if 0 \<le> limit \<and> remaining < sp_chunk_size st then remaining else sp_chunk_size st)
           in if double_splice st then splice_double (nat to_transfer) st w
              else splice_single (nat to_transfer) st w)"

section \<open>The driver keeps the contract\<close>

lemma splice_in_cases:
  assumes "sys_splice_in ip n k = (r, ip', k')"
  obtains (data) bs where "r = Inr bs" "consumes bs (effk ip op k) (effk ip' op k')" "length bs \<le> n"
      "bs = [] \<longrightarrow> n = 0 \<or> avail (effk ip op k) = []" "ip = None \<longleftrightarrow> ip' = None" "out_off k' = out_off k" "out_fl k' = out_fl k"
      "pipe_capacity (plat k') = pipe_capacity (plat k)" "length (spl_in_ans (plat k')) \<le> length (spl_in_ans (plat k))"
      "ip' \<noteq> None \<longrightarrow> in_off k' = in_off k"
  | (error) e where "r = Inl e" "ip' = ip" "consumes [] (effk ip op k) (effk ip op k')" "in_off k' = in_off k"
      "out_off k' = out_off k" "out_fl k' = out_fl k" "pipe_capacity (plat k') = pipe_capacity (plat k)"
      "length (spl_in_ans (plat k')) < length (spl_in_ans (plat k))"
      "consumes [] k k'"
proof (cases "\<exists>e as. spl_in_ans (plat k) = Fail e # as")
  case True
  then obtain e as where a: "spl_in_ans (plat k) = Fail e # as" by blast
  then have "r = Inl e" "ip' = ip" "k' = (pop_in k)\<lparr>errno := e\<rparr>" using assms by (simp_all add: sys_splice_in_def)
  then show thesis by (intro error [of e]; cases ip; cases op) (simp_all add: consumes_def effk_def avail_def pop_in_def a)
next
  case False
  define m where "m = (case spl_in_ans (plat k) of Xfer m # _ \<Rightarrow> min n (max 1 m) | _ \<Rightarrow> n)"
  let ?k0 = "k\<lparr>in_off := off_of ip (in_off k)\<rparr>"
  obtain bs k1 where t: "take_input m ?k0 = (bs, k1)" by fastforce
  have r: "r = Inr bs" "(ip', k') = leave_in ip k (pop_in k1)"
    using assms False t by (auto simp: sys_splice_in_def m_def split: list.splits ans.splits)
  have m: "m \<le> n" "m = 0 \<longrightarrow> n = 0" by (auto simp: m_def split: list.splits ans.splits)
  note p = take_input_props [OF t]
  have av: "avail (effk ip op k) = avail ?k0" by (simp add: effk_def avail_def)
  have "consumes bs (effk ip op k) (effk ip' op k')"
    using r(2) p(1,4) by (cases ip) (simp_all add: leave_in_def consumes_def effk_def avail_def pop_in_def nat_add_distrib)
  moreover have "ip = None \<longleftrightarrow> ip' = None" "out_off k' = out_off k" "out_fl k' = out_fl k"
    "pipe_capacity (plat k') = pipe_capacity (plat k)" "length (spl_in_ans (plat k')) \<le> length (spl_in_ans (plat k))"
    "ip' \<noteq> None \<longrightarrow> in_off k' = in_off k"
    using r(2) p(4) by (cases ip; simp add: leave_in_def pop_in_def)+
  moreover have "bs = [] \<longrightarrow> n = 0 \<or> avail (effk ip op k) = []" "length bs \<le> n"
    using p(2,3) m unfolding av by auto
  ultimately show thesis using r(1) data by blast
qed

lemma extends_effk_put:
  "extends bs (effk ip op k) (effk ip op' k')"
  if "(op', k') = leave_out op k (put_output bs (k0\<lparr>out_off := off_of op (out_off k)\<rparr>))"
    "k0 = k \<or> k0 = pop_out k" "\<not> any_set (out_fl k) O_APPEND"
proof -
  let ?e = "effk ip op k"
  have e: "extends bs ?e (put_output bs ?e)" using puts_put_output putsD(1) by blast
  have "extends [] (put_output bs ?e) (effk ip op' k')"
    using that by (cases op; cases "bs = []")
      (auto simp: leave_out_def put_output_def effk_def pop_out_def out_pos_def input_same_def intro!: extends_cong)
  from extends_trans [OF e this] show ?thesis by simp
qed

lemma splice_out_cases:
  assumes "sys_splice_out op bs k = (r, op', k')" "\<not> any_set (out_fl k) O_APPEND"
  obtains (data) n where "r = Inr n" "n \<le> length bs" "extends (take n bs) (effk ip op k) (effk ip op' k')" "op = None \<longleftrightarrow> op' = None"
      "spl_in_ans (plat k') = spl_in_ans (plat k)" "pipe_capacity (plat k') = pipe_capacity (plat k)" "out_fl k' = out_fl k"
  | (error) e where "r = Inl e" "op' = op" "extends [] (effk ip op k) (effk ip op k')"
      "spl_in_ans (plat k') = spl_in_ans (plat k)" "pipe_capacity (plat k') = pipe_capacity (plat k)" "out_fl k' = out_fl k"
proof (cases "\<exists>e as. spl_out_ans (plat k) = Fail e # as")
  case True
  then obtain e as where a: "spl_out_ans (plat k) = Fail e # as" by blast
  then have "r = Inl e" "op' = op" "k' = (pop_out k)\<lparr>errno := e\<rparr>" using assms by (simp_all add: sys_splice_out_def)
  then show thesis
    by (intro error [of e]; cases ip; cases op) (auto simp: effk_def pop_out_def input_same_def intro!: extends_cong)
next
  case False
  define n where "n = (case spl_out_ans (plat k) of Xfer m # _ \<Rightarrow> min m (length bs) | _ \<Rightarrow> length bs)"
  have r: "r = Inr n" "(op', k') = leave_out op k (put_output (take n bs) ((pop_out k)\<lparr>out_off := off_of op (out_off k)\<rparr>))"
    using assms False by (auto simp: sys_splice_out_def n_def Let_def split: list.splits ans.splits)
  have "n \<le> length bs" by (auto simp: n_def split: list.splits ans.splits)
  moreover have "extends (take n bs) (effk ip op k) (effk ip op' k')"
    by (rule extends_effk_put [OF r(2) _ assms(2)]) simp
  moreover have "op = None \<longleftrightarrow> op' = None" "spl_in_ans (plat k') = spl_in_ans (plat k)"
    "pipe_capacity (plat k') = pipe_capacity (plat k)" "out_fl k' = out_fl k"
    using r(2) by (cases op; simp add: leave_out_def put_output_def pop_out_def split: if_splits)+
  ultimately show thesis using r(1) data by blast
qed

lemma splice_out_loop_extends:
  assumes "splice_out_loop op bs k = (None, op', k')" "\<not> any_set (out_fl k) O_APPEND"
  shows "extends bs (effk ip op k) (effk ip op' k') \<and> (op = None \<longleftrightarrow> op' = None) \<and>
    spl_in_ans (plat k') = spl_in_ans (plat k) \<and> pipe_capacity (plat k') = pipe_capacity (plat k) \<and> out_fl k' = out_fl k"
  using assms
proof (induction op bs k arbitrary: op' k' rule: splice_out_loop.induct)
  case (1 op bs k)
  show ?case
  proof (cases "bs = []")
    case True
    then show ?thesis using "1.prems" by (subst (asm) splice_out_loop.simps) simp
  next
    case ne: False
    obtain r op1 k1 where s: "sys_splice_out op bs k = (r, op1, k1)" by (cases "sys_splice_out op bs k")
    show ?thesis
    proof (cases rule: splice_out_cases [OF s "1.prems"(2), of ip])
      case (1 n)
      have n: "n \<noteq> 0" "splice_out_loop op1 (drop n bs) k1 = (None, op', k')"
        using "1.prems"(1) s 1(1) ne by (subst (asm) splice_out_loop.simps, auto split: if_splits)+
      show ?thesis
        using "1.IH"(2) [OF ne s [symmetric] 1(1) refl n] 1 "1.prems"(2) extends_trans [OF 1(3), of "drop n bs"] by auto
    next
      case (2 e)
      have e: "e = EINTR" "splice_out_loop op1 bs k1 = (None, op', k')"
        using "1.prems"(1) s 2(1) ne by (subst (asm) splice_out_loop.simps, auto split: if_splits)+
      show ?thesis
        using "1.IH"(1) [OF ne s [symmetric] 2(1) refl e] 2 "1.prems"(2) extends_trans [OF 2(3), of bs] by auto
    qed
  qed
qed

definition splice_eff :: "splice_driver_state \<Rightarrow> 'h st \<Rightarrow> kern" where
  "splice_eff st w = effk (poff_in st) (poff_out st) (snd w)"

definition splice_ready :: "splice_driver_state \<Rightarrow> 'h st \<Rightarrow> bool" where
  "splice_ready st w \<longleftrightarrow> 0 < sp_chunk_size st \<and> \<not> any_set (out_fl (snd w)) O_APPEND \<and> 0 \<le> w_bytes (stats (fst w)) \<and>
     (double_splice st \<longrightarrow> pipe_capacity (plat (snd w)) \<noteq> None \<and> pipe_capacity (plat (snd w)) \<noteq> Some 0) \<and>
     (0 \<le> sp_total_byte_limit st \<longrightarrow> w_bytes (stats (fst w)) \<le> sp_total_byte_limit st) \<and>
     (w_bytes (stats (fst w)) = 0 \<longrightarrow> off_of (poff_in st) (in_off (snd w)) = in_off (snd w) \<and>
                                  off_of (poff_out st) (out_off (snd w)) = out_off (snd w))"

definition splice_stop :: "splice_driver_state \<Rightarrow> 'h st \<Rightarrow> bool" where
  "splice_stop st w \<longleftrightarrow> avail (splice_eff st w) = [] \<or>
     0 \<le> sp_total_byte_limit st \<and> sp_total_byte_limit st \<le> w_bytes (stats (fst w))"

definition splice_left :: "splice_driver_state \<Rightarrow> 'h st \<Rightarrow> nat" where
  "splice_left st w = length (avail (splice_eff st w)) + length (spl_in_ans (plat (snd w)))"

definition splice_good :: "splice_driver_state \<Rightarrow> 'h st \<Rightarrow> (splice_driver_state, 'h) step_out option \<Rightarrow> bool" where
  "splice_good st w out \<longleftrightarrow> out \<noteq> None \<and> (\<forall>r. out = Some r \<longrightarrow>
     sp_total_byte_limit (dstate r) = sp_total_byte_limit st \<and>
     (rc r = EXIT_SUCCESS \<and> \<not> fallback r \<longrightarrow> splice_ready (dstate r) (world r) \<and>
       (\<exists>bs. moves bs (splice_eff st w) (splice_eff (dstate r) (world r)) \<and>
         w_bytes (stats (fst (world r))) = w_bytes (stats (fst w)) + int (length bs) \<and>
         (eof r \<longrightarrow> bs = [] \<and> splice_stop (dstate r) (world r))) \<and>
       (\<not> eof r \<longrightarrow> splice_left (dstate r) (world r) < splice_left st w)) \<and>
     (fallback r \<longrightarrow> moves [] (splice_eff st w) (snd (world r)) \<and>
       w_bytes (stats (fst (world r))) = w_bytes (stats (fst w))))"

lemma set_poff_simps:
  "sp_chunk_size (set_poff ip op st) = sp_chunk_size st" "sp_total_byte_limit (set_poff ip op st) = sp_total_byte_limit st"
  "double_splice (set_poff ip op st) = double_splice st"
  "(poff_in st = None \<longleftrightarrow> ip = None) \<Longrightarrow> poff_in (set_poff ip op st) = ip"
  "(poff_out st = None \<longleftrightarrow> op = None) \<Longrightarrow> poff_out (set_poff ip op st) = op"
  "poff_out (set_poff ip None st) = poff_out st"
  by (auto simp: set_poff_def poff_in_def poff_out_def split: if_splits option.splits)

lemma moves_consumes: "consumes bs k k' \<Longrightarrow> bs = [] \<Longrightarrow> moves [] k k'"
  using moves_consumes_extends [of "[]" k k' k'] by simp

text \<open>The outcomes of a step, from what the kernel did.\<close>

lemma splice_good_end:
  assumes "splice_ready st (ctx, k)" "consumes [] (splice_eff st (ctx, k)) (splice_eff st' (ctx, k'))"
    "avail (splice_eff st (ctx, k)) = []" "splice_ready st' (ctx, k')" "sp_total_byte_limit st' = sp_total_byte_limit st"
  shows "splice_good st (ctx, k) (done_eof st' (ctx, k'))"
  using assms consumesD(1) [OF assms(2)]
  by (auto simp: splice_good_def done_eof_def splice_stop_def intro!: exI [of _ "[]"] moves_consumes)

lemma splice_good_error:
  assumes rdy: "splice_ready st (ctx, k)"
    and c: "consumes [] (splice_eff st (ctx, k)) (effk (poff_in st) (poff_out st) k')" "in_off k' = in_off k" "out_off k' = out_off k"
      "out_fl k' = out_fl k" "pipe_capacity (plat k') = pipe_capacity (plat k)"
      "length (spl_in_ans (plat k')) < length (spl_in_ans (plat k))" "consumes [] k k'"
  shows "splice_good st (ctx, k)
    (if e = EINTR then done_ok st (ctx, k')
     else if splice_no_support e ctx then done_fallback st (ctx, k')
     else done_fail st (dd_diagnose e msg (ctx, k')))"
proof -
  have r': "splice_ready st (ctx, k')" using rdy c(2-5) by (simp add: splice_ready_def)
  have m: "moves [] (splice_eff st (ctx, k)) (splice_eff st (ctx, k'))"
    using c(1) by (auto simp: splice_eff_def intro: moves_consumes)
  have l: "splice_left st (ctx, k') < splice_left st (ctx, k)"
    using c(6) movesD(1) [OF m] by (simp add: splice_left_def)
  have f: "moves [] (splice_eff st (ctx, k)) k'" if "w_bytes (stats ctx) = 0"
  proof -
    have "splice_eff st (ctx, k) = k" using rdy that by (cases k) (simp add: splice_ready_def splice_eff_def effk_def)
    then show ?thesis using c(7) by (auto intro: moves_consumes)
  qed
  show ?thesis
    using r' m l f by (auto simp: splice_good_def done_defs splice_no_support_def intro: exI [of _ "[]"])
qed

lemma splice_good_data:
  assumes rdy: "splice_ready st (ctx, k)" and m: "moves bs (splice_eff st (ctx, k)) (effk (poff_in st') (poff_out st') k')"
    and bs: "bs \<noteq> []" "0 \<le> sp_total_byte_limit st \<longrightarrow> w_bytes (stats ctx) + int (length bs) \<le> sp_total_byte_limit st"
    and fr: "out_fl k' = out_fl k" "pipe_capacity (plat k') = pipe_capacity (plat k)"
      "length (spl_in_ans (plat k')) \<le> length (spl_in_ans (plat k))"
    and st': "sp_chunk_size st' = sp_chunk_size st" "sp_total_byte_limit st' = sp_total_byte_limit st" "double_splice st' = double_splice st"
    and s: "w_bytes s = w_bytes (stats ctx) + int (length bs)"
  shows "splice_good st (ctx, k) (done_ok st' (ctx\<lparr>stats := s\<rparr>, k'))"
proof -
  have r': "splice_ready st' (ctx\<lparr>stats := s\<rparr>, k')"
    using rdy fr st' s bs by (cases bs) (auto simp: splice_ready_def)
  have m': "moves bs (splice_eff st (ctx, k)) (splice_eff st' (ctx\<lparr>stats := s\<rparr>, k'))"
    using m by (simp add: splice_eff_def)
  have "splice_left st' (ctx\<lparr>stats := s\<rparr>, k') < splice_left st (ctx, k)"
    using movesD(1) [OF m'] bs(1) fr(3) by (cases bs) (auto simp: splice_left_def)
  then show ?thesis using r' m' s st'(2) by (auto simp: splice_good_def done_ok_def)
qed

lemma splice_good_none:
  assumes rdy: "splice_ready st (ctx, k)" and a: "avail (splice_eff st (ctx, k)) = []"
    and c: "consumes [] (splice_eff st (ctx, k)) (effk ip (poff_out st) k1)" "poff_in st = None \<longleftrightarrow> ip = None"
      "out_off k1 = out_off k" "out_fl k1 = out_fl k" "pipe_capacity (plat k1) = pipe_capacity (plat k)"
      "ip \<noteq> None \<longrightarrow> in_off k1 = in_off k"
  shows "splice_good st (ctx, k) (done_eof (set_poff ip None st) (ctx, k1))"
proof (rule splice_good_end [OF rdy _ a])
  let ?st = "set_poff ip None st"
  have p: "poff_in ?st = ip" "poff_out ?st = poff_out st" using c(2) by (simp_all add: set_poff_simps)
  show "consumes [] (splice_eff st (ctx, k)) (splice_eff ?st (ctx, k1))" using c(1) by (simp add: splice_eff_def p)
  have "off_of ip (in_off k1) = off_of (poff_in st) (in_off k)"
    using c(1) by (simp add: consumes_def splice_eff_def effk_def)
  then show "splice_ready ?st (ctx, k1)"
    using rdy c by (cases ip) (auto simp: splice_ready_def p set_poff_simps)
qed (simp add: set_poff_simps)

lemma splice_double_good:
  assumes rdy: "splice_ready st (ctx, k)" "double_splice st" and n: "0 < n"
    "0 \<le> sp_total_byte_limit st \<longrightarrow> w_bytes (stats ctx) + int n \<le> sp_total_byte_limit st"
  shows "splice_good st (ctx, k) (splice_double n st (ctx, k))"
proof -
  obtain c where c: "pipe_capacity (plat k) = Some c" "0 < c" using rdy by (auto simp: splice_ready_def)
  obtain r ip k1 where s: "sys_splice_in (poff_in st) (min n c) k = (r, ip, k1)" by (cases "sys_splice_in (poff_in st) (min n c) k")
  note def = splice_double_def [of n st "(ctx, k)", unfolded prod.case c(1) option.case s]
  have na: "\<not> any_set (out_fl k) O_APPEND" using rdy by (simp add: splice_ready_def)
  show ?thesis
  proof (cases rule: splice_in_cases [OF s, of "poff_out st"])
    case (2 e)
    then show ?thesis unfolding def 2(1) sum.case
      by (intro splice_good_error [OF rdy(1)]) (simp_all add: splice_eff_def)
  next
    case (1 bs)
    show ?thesis
    proof (cases "bs = []")
      case True
      then show ?thesis unfolding def 1(1) sum.case prod.case
        using splice_good_none [OF rdy(1), of ip k1] 1 n(1) c(2) by (auto simp: splice_eff_def min_def split: if_splits)
    next
      case False
      obtain er op k2 where l: "splice_out_loop (poff_out st) bs k1 = (er, op, k2)" by (cases "splice_out_loop (poff_out st) bs k1")
      show ?thesis
      proof (cases er)
        case (Some e)
        then show ?thesis unfolding def 1(1) sum.case prod.case l
          using False by (simp add: splice_good_def done_fail_def set_poff_simps)
      next
        case None
        have na1: "\<not> any_set (out_fl k1) O_APPEND" using na 1(7) by simp
        note o = splice_out_loop_extends [OF l [unfolded None] na1, of ip]
        have st': "poff_in (set_poff ip op st) = ip" "poff_out (set_poff ip op st) = op"
          using 1(5) o by (simp_all add: set_poff_simps)
        have m: "moves bs (splice_eff st (ctx, k)) (effk ip op k2)"
          using moves_consumes_extends [OF 1(2)] o by (simp add: splice_eff_def)
        show ?thesis unfolding def 1(1) sum.case prod.case l None option.case if_not_P [OF False]
          by (rule splice_good_data [OF rdy(1)]) (use m st' o 1 n False in \<open>auto simp: set_poff_simps\<close>)
      qed
    qed
  qed
qed

lemma splice_single_good:
  assumes rdy: "splice_ready st (ctx, k)" and n: "0 < n"
    "0 \<le> sp_total_byte_limit st \<longrightarrow> w_bytes (stats ctx) + int n \<le> sp_total_byte_limit st"
  shows "splice_good st (ctx, k) (splice_single n st (ctx, k))"
proof -
  have na: "\<not> any_set (out_fl k) O_APPEND" using rdy by (simp add: splice_ready_def)
  obtain r ip k1 where s: "sys_splice_in (poff_in st) n k = (r, ip, k1)" by (cases "sys_splice_in (poff_in st) n k")
  note def = splice_single_def [of n st "(ctx, k)", unfolded prod.case if_not_P [OF na] s]
  show ?thesis
  proof (cases rule: splice_in_cases [OF s, of "poff_out st"])
    case (2 e)
    then show ?thesis unfolding def 2(1) sum.case
      by (intro splice_good_error [OF rdy(1)]) (simp_all add: splice_eff_def)
  next
    case (1 bs)
    show ?thesis
    proof (cases "bs = []")
      case True
      then show ?thesis unfolding def 1(1) sum.case prod.case
        using splice_good_none [OF rdy(1), of ip k1] 1 n(1) by (simp add: splice_eff_def)
    next
      case False
      obtain op k2 where l: "leave_out (poff_out st) k1 (put_output bs (k1\<lparr>out_off := off_of (poff_out st) (out_off k1)\<rparr>)) = (op, k2)"
        by fastforce
      have na1: "\<not> any_set (out_fl k1) O_APPEND" using na 1(7) by simp
      have ex: "extends bs (effk ip (poff_out st) k1) (effk ip op k2)"
        by (rule extends_effk_put [OF l [symmetric] _ na1]) simp
      have op: "poff_out st = None \<longleftrightarrow> op = None" "out_fl k2 = out_fl k1" "plat k2 = plat k1"
        using l by (cases "poff_out st"; auto simp: leave_out_def put_output_def split: if_splits)+
      have st': "poff_in (set_poff ip op st) = ip" "poff_out (set_poff ip op st) = op"
        using 1(5) op by (simp_all add: set_poff_simps)
      have m: "moves bs (splice_eff st (ctx, k)) (effk ip op k2)"
        using moves_consumes_extends [OF 1(2) ex] by (simp add: splice_eff_def)
      show ?thesis unfolding def 1(1) sum.case prod.case l if_not_P [OF False]
        by (rule splice_good_data [OF rdy(1)]) (use m st' op 1 n False in \<open>auto simp: set_poff_simps\<close>)
    qed
  qed
qed

lemma splice_step_good:
  assumes rdy: "splice_ready st w"
  shows "splice_good st w (splice_driver_step st w)"
proof -
  obtain ctx k where w: "w = (ctx, k)" by fastforce
  let ?lim = "sp_total_byte_limit st" and ?rem = "sp_total_byte_limit st - w_bytes (stats ctx)"
  let ?n = "if 0 \<le> ?lim \<and> ?rem < sp_chunk_size st then ?rem else sp_chunk_size st"
  show ?thesis
  proof (cases "0 \<le> ?lim \<and> ?rem \<le> 0")
    case True
    then show ?thesis
      using rdy by (auto simp: w splice_driver_step_def splice_good_def done_eof_def splice_stop_def intro!: exI [of _ "[]"])
  next
    case False
    then have n: "0 < nat ?n" "0 \<le> ?lim \<longrightarrow> w_bytes (stats ctx) + int (nat ?n) \<le> ?lim"
      using rdy by (auto simp: splice_ready_def)
    have st: "splice_driver_step st w = (if double_splice st then splice_double (nat ?n) st w else splice_single (nat ?n) st w)"
      using False by (auto simp: w splice_driver_step_def Let_def)
    show ?thesis
      unfolding st unfolding w
      using splice_double_good [OF rdy [unfolded w] _ n] splice_single_good [OF rdy [unfolded w] n] by simp
  qed
qed

interpretation splice: io_driver splice_driver_step splice_ready splice_stop splice_eff splice_left
    "\<lambda>d w. w_bytes (stats (fst w))"
  by unfold_locales (use splice_step_good in \<open>unfold splice_good_def, blast\<close>)+

section \<open>Properties\<close>

lemma splice_steps_limit: "splice_ready d w \<Longrightarrow> splice.steps n d w = Some r \<Longrightarrow> sp_total_byte_limit (dstate r) = sp_total_byte_limit d"
proof (induction n arbitrary: d w)
  case (Suc n)
  obtain q where q: "splice_driver_step d w = Some q"
    using splice.step_defined [OF Suc.prems(1)] by blast
  have g: "sp_total_byte_limit (dstate q) = sp_total_byte_limit d"
      "rc q = EXIT_SUCCESS \<and> \<not> fallback q \<longrightarrow> splice_ready (dstate q) (world q)"
    using splice_step_good [OF Suc.prems(1)] q by (auto simp: splice_good_def)
  show ?case using Suc.IH [of "dstate q" "world q"] Suc.prems q g by (auto split: if_splits)
qed simp

text \<open>
  C26: the pipe driver copies. From its start, between files, pipes or both, for every schedule of partial
  transfers and errors of \<open>splice\<close>: the loop ends; a run without error has moved exactly the counted
  bytes of the source to the target, in order, at the offsets the driver keeps, and never more than the
  limit; a fallback leaves the descriptors behind the bytes counted.
\<close>

theorem splice_driver_copies:
  assumes "splice_driver_init (ctx, k) = Some d" "w_bytes (stats ctx) = 0" "\<not> any_set (out_fl k) O_APPEND"
    "pipe_capacity (plat k) \<noteq> Some 0" "splice_left d (ctx, k) < n"
  shows "\<exists>r. splice.steps n d (ctx, k) = Some r \<and>
    (rc r = EXIT_SUCCESS \<longrightarrow>
      (\<exists>bs. moves bs k (if fallback r then snd (world r) else splice_eff (dstate r) (world r)) \<and>
        w_bytes (stats (fst (world r))) = int (length bs)) \<and>
      (\<not> fallback r \<longrightarrow> splice_stop (dstate r) (world r) \<and>
        (0 \<le> sp_total_byte_limit d \<longrightarrow> w_bytes (stats (fst (world r))) \<le> sp_total_byte_limit d)))"
proof -
  have pos: "off_of (poff_in d) (in_off k) = in_off k" "off_of (poff_out d) (out_off k) = out_off k"
    using assms(1)
    by (auto simp: splice_driver_init_def poff_in_def poff_out_def sys_lseek_def Let_def split: if_splits)
  have eff: "splice_eff d (ctx, k) = k" using pos by (cases k) (simp add: splice_eff_def effk_def)
  have rdy: "splice_ready d (ctx, k)"
    using assms pos by (auto simp: splice_driver_init_def splice_ready_def Let_def split: if_splits)
  obtain r where r: "splice.steps n d (ctx, k) = Some r"
    using splice.steps_end [OF rdy assms(5)] by auto
  show ?thesis
  proof (cases "fallback r")
    case True
    then show ?thesis using r splice.steps_fallback [OF rdy r] assms(2) by (auto simp: eff)
  next
    case False
    then show ?thesis
      using r splice.steps_moves [OF rdy r] assms(2) splice_steps_limit [OF rdy r]
      by (auto simp: eff splice_ready_def)
  qed
qed

lemma splice_driver_copies_witness:
  "let ctx = ctx0 () 4096 (dd_init_default_config\<lparr>blocksize := 512\<rparr>);
       d = \<lparr>sp_chunk_size = 65536, sp_total_byte_limit = - 1, in_is_pipe = False, out_is_pipe = False,
            double_splice = True, in_file_pos = 0, out_file_pos = 0, sp_in_seekable = True, sp_out_seekable = True\<rparr>
   in \<exists>r. splice.steps 5 d (ctx, file_to_file [1, 2, 3]) = Some r \<and>
    (rc r = EXIT_SUCCESS \<longrightarrow>
      (\<exists>bs. moves bs (file_to_file [1, 2, 3]) (if fallback r then snd (world r) else splice_eff (dstate r) (world r)) \<and>
        w_bytes (stats (fst (world r))) = int (length bs)) \<and>
      (\<not> fallback r \<longrightarrow> splice_stop (dstate r) (world r) \<and>
        (0 \<le> sp_total_byte_limit d \<longrightarrow> w_bytes (stats (fst (world r))) \<le> sp_total_byte_limit d)))"
  unfolding Let_def
  by (rule splice_driver_copies)
    (simp_all add: splice_driver_init_def zero_copy_refuses_def zero_copy_limit_def ctx0_def stats0_def conv_def
      dd_init_default_config_def file_to_file_def plat0_def splice_left_def splice_eff_def effk_def poff_in_def avail_def
      sys_lseek_def any_set_def cfg_simps Let_def)

end
