(* ===== verification/AsyncDriver.thy ===== *)
theory AsyncDriver
  imports Driver
begin

text \<open>
  The asynchronous pipeline of \<open>src/src/io_async.c\<close>: a reader thread fills the slots of a ring buffer, the
  main thread writes them out. The threads are modelled at the grain of the mutex: one micro-step is one
  critical section, or the work between two of them. The scheduler is an argument (\<open>sched\<close> of the
  platform): before each micro-step of the main thread the reader gets any number of its own.
\<close>

section \<open>The ring buffer\<close>

record async_slot =
  as_buf :: "byte list"
  as_nread :: nat
  is_eof :: bool
  slot_err :: int

text \<open>Where the reader stands: at the top of its loop, with a slot claimed, with it filled, past the loop, gone.\<close>

datatype reader_pc = R_WAIT | R_FILL | R_PUBLISH | R_FINISH | R_EXIT

record async_pipeline =
  slots :: "async_slot list"
  capacity :: nat
  head :: nat
  tail :: nat
  count :: nat
  reader_stalls :: int
  writer_stalls :: int
  stop_requested :: bool
  reader_done :: bool
  reader_exit :: int
  r_records_limit :: int
  r_bytes_limit :: int
  r_records_done :: int
  total_bytes_read :: int
  rpc :: reader_pc

text \<open>The two index updates, each made under the mutex.\<close>

definition ring_publish :: "async_pipeline \<Rightarrow> async_pipeline" where
  "ring_publish p = p\<lparr>tail := (tail p + 1) mod capacity p, count := count p + 1\<rparr>"

definition ring_release :: "async_pipeline \<Rightarrow> async_pipeline" where
  "ring_release p = p\<lparr>head := (head p + 1) mod capacity p, count := count p - 1\<rparr>"

definition set_slot :: "async_slot \<Rightarrow> async_pipeline \<Rightarrow> async_pipeline" where
  "set_slot s p = p\<lparr>slots := (slots p)[tail p := s]\<rparr>"

definition ring_inv :: "async_pipeline \<Rightarrow> bool" where
  "ring_inv p \<longleftrightarrow> 0 < capacity p \<and> length (slots p) = capacity p \<and> head p < capacity p \<and> count p \<le> capacity p \<and>
     tail p = (head p + count p) mod capacity p"

definition ring_items :: "async_pipeline \<Rightarrow> async_slot list" where
  "ring_items p = map (\<lambda>i. slots p ! ((head p + i) mod capacity p)) [0..<count p]"

definition ring_room :: "async_pipeline \<Rightarrow> bool" where
  "ring_room p \<longleftrightarrow> count p < capacity p"

text \<open>The entries a history of the queue puts; \<open>None\<close> stands for a removal.\<close>

fun puts_of :: "'a option list \<Rightarrow> 'a list" where
  "puts_of [] = []"
| "puts_of (Some a # hs) = a # puts_of hs"
| "puts_of (None # hs) = puts_of hs"

text \<open>What a client of a bounded queue may rely on.\<close>

locale bounded_queue =
  fixes inv :: "'q \<Rightarrow> bool" and items :: "'q \<Rightarrow> 'a list" and room :: "'q \<Rightarrow> bool"
    and put :: "'a \<Rightarrow> 'q \<Rightarrow> 'q" and front :: "'q \<Rightarrow> 'a" and pop :: "'q \<Rightarrow> 'q"
  assumes put_items: "inv q \<Longrightarrow> room q \<Longrightarrow> inv (put a q) \<and> items (put a q) = items q @ [a]"
    and front_items: "inv q \<Longrightarrow> items q \<noteq> [] \<Longrightarrow> front q = hd (items q)"
    and pop_items: "inv q \<Longrightarrow> items q \<noteq> [] \<Longrightarrow> inv (pop q) \<and> items (pop q) = tl (items q) \<and> room (pop q)"
begin

text \<open>A history of the queue: \<open>Some a\<close> puts \<open>a\<close>, \<open>None\<close> pops. An action that is not possible ends it.\<close>

fun history :: "'a option list \<Rightarrow> 'q \<Rightarrow> ('a list \<times> 'q) option" where
  "history [] q = Some ([], q)"
| "history (Some a # hs) q = (if room q then history hs (put a q) else None)"
| "history (None # hs) q =
     (if items q = [] then None
      else map_option (\<lambda>(out, q'). (front q # out, q')) (history hs (pop q)))"

lemma fifo:
  "inv q \<Longrightarrow> history hs q = Some (out, q') \<Longrightarrow>
     inv q' \<and> out @ items q' = items q @ puts_of hs"
proof (induction hs q arbitrary: out rule: history.induct)
  case (1 q)
  then show ?case by simp
next
  case (2 a hs q)
  then show ?case using put_items [OF "2.prems"(1), of a] by (auto split: if_splits)
next
  case (3 hs q)
  then obtain out' where ne: "items q \<noteq> []" and h: "history hs (pop q) = Some (out', q')" "out = front q # out'"
    by (auto split: if_splits)
  have "inv q' \<and> out' @ items q' = items (pop q) @ puts_of hs"
    using "3.IH" [OF ne _ h(1)] pop_items [OF "3.prems"(1) ne] by blast
  then show ?case
    using pop_items [OF "3.prems"(1) ne] front_items [OF "3.prems"(1) ne] ne h(2)
    by (cases "items q") auto
qed

end

lemma mod_add_index_neq:
  fixes c :: nat
  assumes "i < c" "j < c" "i \<noteq> j"
  shows "(h + i) mod c \<noteq> (h + j) mod c"
proof -
  have less: "(h + a) mod c \<noteq> (h + b) mod c" if "a < b" "b < c" for a b
  proof
    assume "(h + a) mod c = (h + b) mod c"
    then have "c dvd (h + b) - (h + a)" using mod_eq_dvd_iff_nat [of "h + a" "h + b" c] that(1) by simp
    then show False using that by (simp add: nat_dvd_not_less)
  qed
  from assms(3) consider "i < j" | "j < i" by linarith
  then show ?thesis
  proof cases
    case 1
    then show ?thesis using less assms(2) by blast
  next
    case 2
    then show ?thesis using less [of j i] assms(1) by (simp add: eq_commute)
  qed
qed

lemma ring_items_publish:
  assumes "ring_inv p" "ring_room p"
  shows "ring_inv (ring_publish (set_slot s p)) \<and> ring_items (ring_publish (set_slot s p)) = ring_items p @ [s]"
proof -
  let ?p = "ring_publish (set_slot s p)" and ?c = "capacity p"
  have c: "0 < ?c" "length (slots p) = ?c" "head p < ?c" "count p < ?c" "tail p = (head p + count p) mod ?c"
    using assms by (auto simp: ring_inv_def ring_room_def)
  have neq: "tail p \<noteq> (head p + i) mod ?c" if "i < count p" for i
    using mod_add_index_neq [of i ?c "count p" "head p"] that c by simp
  have "map (\<lambda>i. (slots p)[tail p := s] ! ((head p + i) mod ?c)) [0..<count p] = ring_items p"
    unfolding ring_items_def by (rule map_cong [OF refl]) (simp add: nth_list_update_neq [OF neq])
  moreover have "ring_items ?p = map (\<lambda>i. (slots p)[tail p := s] ! ((head p + i) mod ?c)) [0..<Suc (count p)]"
    unfolding ring_items_def by (simp add: ring_publish_def set_slot_def)
  ultimately have "ring_items ?p = ring_items p @ [s]"
    using c by simp
  moreover have "ring_inv ?p"
    using c by (simp add: ring_inv_def ring_publish_def set_slot_def mod_Suc_eq)
  ultimately show ?thesis by blast
qed

lemma ring_items_release:
  assumes "ring_inv p" "ring_items p \<noteq> []"
  shows "ring_inv (ring_release p) \<and> ring_items (ring_release p) = tl (ring_items p) \<and> ring_room (ring_release p)"
proof -
  have c: "0 < capacity p" "length (slots p) = capacity p" "count p \<le> capacity p" "0 < count p"
      "tail p = (head p + count p) mod capacity p"
    using assms by (auto simp: ring_inv_def ring_items_def)
  have m: "((head p + 1) mod capacity p + i) mod capacity p = (head p + Suc i) mod capacity p" for i
    by (simp add: mod_add_left_eq)
  have "ring_items (ring_release p) = tl (ring_items p)"
    by (rule nth_equalityI) (use m in \<open>simp_all add: ring_items_def ring_release_def nth_tl del: upt_Suc\<close>)
  moreover have "ring_inv (ring_release p)" "ring_room (ring_release p)"
    using c m [of "count p - 1"] by (simp_all add: ring_inv_def ring_release_def ring_room_def)
  ultimately show ?thesis by blast
qed

lemma ring_front:
  assumes "ring_inv p" "ring_items p \<noteq> []"
  shows "slots p ! head p = hd (ring_items p)"
  using assms by (simp add: ring_items_def ring_inv_def hd_map)

interpretation ring: bounded_queue ring_inv ring_items ring_room "\<lambda>s p. ring_publish (set_slot s p)" "\<lambda>p. slots p ! head p" ring_release
  by unfold_locales (use ring_items_publish ring_front ring_items_release in blast)+

section \<open>The reader thread\<close>

text \<open>
  What the reader puts into the slot it claimed: the end mark at a limit, a block, the end of the input or
  an error. A read past the slot's buffer is \<open>None\<close>.
\<close>

definition eof_slot :: "int \<Rightarrow> async_slot \<Rightarrow> async_slot" where
  "eof_slot e s = s\<lparr>as_nread := 0, is_eof := True, slot_err := e\<rparr>"

definition reader_limit_hit :: "async_pipeline \<Rightarrow> bool" where
  "reader_limit_hit p \<longleftrightarrow> r_records_limit p + (if r_bytes_limit p \<noteq> 0 then 1 else 0) \<le> r_records_done p"

definition async_fill :: "async_pipeline \<Rightarrow> 'h st \<Rightarrow> (async_slot \<times> async_pipeline \<times> 'h st) option" where
  "async_fill p w =
     (case w of (ctx, k) \<Rightarrow>
        let slot = slots p ! tail p;
            remaining = bytes_to_copy (cfg ctx) - total_bytes_read p;
            to_read = (if r_records_limit p \<le> r_records_done p then r_bytes_limit p else bsize ctx);
            to_read = (if 0 \<le> bytes_to_copy (cfg ctx) \<and> remaining < to_read then remaining else to_read)
        in if reader_limit_hit p \<or> 0 \<le> bytes_to_copy (cfg ctx) \<and> remaining \<le> 0
           then Some (eof_slot 0 slot, p, ctx, k)
           else if int (length (as_buf slot)) < to_read then None
           else (case iread ctx STDIN_FILENO (nat to_read) k of
                   (Inl e, k) \<Rightarrow> Some (eof_slot e slot, p\<lparr>reader_exit := EXIT_FAILURE\<rparr>, ctx, k)
                 | (Inr bs, k) \<Rightarrow>
                     if bs = [] then Some (eof_slot 0 slot, p, ctx, k)
                     else Some (slot\<lparr>as_buf := blit (as_buf slot) 0 bs, as_nread := length bs, is_eof := False, slot_err := 0\<rparr>,
                                p\<lparr>r_records_done := r_records_done p + 1,
                                  total_bytes_read := total_bytes_read p + int (length bs)\<rparr>,
                                dd_advance_input_offset (int (length bs)) ctx, k)))"

text \<open>One micro-step of \<open>async_reader_worker\<close>.\<close>

definition reader_step :: "async_pipeline \<Rightarrow> 'h st \<Rightarrow> (async_pipeline \<times> 'h st) option" where
  "reader_step p w =
     (case rpc p of
        R_WAIT \<Rightarrow>
          if stop_requested p then Some (p\<lparr>rpc := R_FINISH\<rparr>, w)
          else if count p = capacity p then Some (p\<lparr>reader_stalls := reader_stalls p + 1\<rparr>, w)
          else Some (p\<lparr>rpc := R_FILL\<rparr>, w)
      | R_FILL \<Rightarrow>
          (case async_fill p w of
             None \<Rightarrow> None
           | Some (slot, p, w) \<Rightarrow> Some ((set_slot slot p)\<lparr>rpc := R_PUBLISH\<rparr>, w))
      | R_PUBLISH \<Rightarrow>
          Some ((ring_publish p)\<lparr>rpc := (if is_eof (slots p ! tail p) \<or> stop_requested p then R_FINISH else R_WAIT)\<rparr>, w)
      | R_FINISH \<Rightarrow> Some (p\<lparr>reader_done := True, rpc := R_EXIT\<rparr>, w)
      | R_EXIT \<Rightarrow> Some (p, w))"

fun reader_steps :: "nat \<Rightarrow> async_pipeline \<Rightarrow> 'h st \<Rightarrow> (async_pipeline \<times> 'h st) option" where
  "reader_steps 0 p w = Some (p, w)"
| "reader_steps (Suc n) p w = (case reader_step p w of None \<Rightarrow> None | Some (p, w) \<Rightarrow> reader_steps n p w)"

definition reader_turn :: "nat \<Rightarrow> async_pipeline \<Rightarrow> 'h st \<Rightarrow> (async_pipeline \<times> 'h st) option" where
  "reader_turn extra p w =
     (case w of (ctx, k) \<Rightarrow> (case next_turn k of (n, k) \<Rightarrow> reader_steps (n + extra) p (ctx, k)))"

section \<open>The driver\<close>

text \<open>The queue depth: asked for, or what keeps 32 MiB in flight.\<close>

definition choose_capacity :: "dd_config \<Rightarrow> nat" where
  "choose_capacity c =
     (let capacity = nat (async_queue_depth c)
      in if capacity = 0 then
           let capacity = (if 0 < blocksize c then nat (33554432 div blocksize c) else 8);
               capacity = (if capacity < 4 then 4 else capacity)
           in (if 128 < capacity then 128 else capacity)
         else
           let capacity = (if capacity < 2 then 2 else capacity)
           in (if 1024 < capacity then 1024 else capacity))"

text \<open>Under memory pressure the ring is halved, down to two slots. \<open>None\<close> is \<open>xalloc_die\<close>.\<close>

function shrink_capacity :: "(nat \<Rightarrow> bool) \<Rightarrow> nat \<Rightarrow> nat option" where
  "shrink_capacity fits c =
     (if fits c then Some c
      else if 2 < c then shrink_capacity fits (if c div 2 < 2 then 2 else c div 2)
      else None)"
  by pat_completeness auto
termination
  by (relation "measure snd") auto

declare shrink_capacity.simps [simp del]

text \<open>What \<open>init\<close> of a driver can do: give its state, fail, or end the process.\<close>

datatype ('s, 'h) init_out = InitOk 's "'h st" | InitFail "'h st" | InitDies "'h st"

definition async_driver_init :: "'h st \<Rightarrow> (async_pipeline, 'h) init_out" where
  "async_driver_init w =
     (case w of (ctx, k) \<Rightarrow>
        (case shrink_capacity (mem_fits (plat k)) (choose_capacity (cfg ctx)) of
           None \<Rightarrow> InitDies (ctx, emit (Diagnose 0 ''memory exhausted'') k)
         | Some cap \<Rightarrow>
             let ctx = ctx\<lparr>stats := (stats ctx)\<lparr>dd_stats.async_capacity := int cap\<rparr>\<rparr>;
                 ctx = dd_alloc_obuf k ctx;
                 (e, k) = next_err k
             in if e \<noteq> 0 then InitFail (ctx, emit (Diagnose e ''failed to create async reader thread'') k)
                else InitOk
                  \<lparr>slots = replicate cap \<lparr>as_buf = alignalloc (bs_nat ctx) k, as_nread = 0, is_eof = False, slot_err = 0\<rparr>,
                   capacity = cap, head = 0, tail = 0, count = 0, reader_stalls = 0, writer_stalls = 0,
                   stop_requested = False, reader_done = False, reader_exit = 0,
                   r_records_limit = max_records (cfg ctx), r_bytes_limit = max_bytes (cfg ctx), r_records_done = 0,
                   total_bytes_read = 0, rpc = R_WAIT\<rparr> (ctx, k)))"

text \<open>
  The writer's wait: \<open>while (count == 0 && !reader_done)\<close>. It sleeps until the reader has run on; \<open>n\<close>
  bounds the rounds, and \<open>None\<close> is a wait that does not end within them.
\<close>

fun async_wait :: "nat \<Rightarrow> async_pipeline \<Rightarrow> 'h st \<Rightarrow> (async_pipeline \<times> 'h st) option" where
  "async_wait 0 p w = None"
| "async_wait (Suc n) p w =
     (if count p = 0 \<and> \<not> reader_done p
      then (case reader_turn 1 (p\<lparr>writer_stalls := writer_stalls p + 1\<rparr>) w of
              None \<Rightarrow> None
            | Some (p, w) \<Rightarrow> async_wait n p w)
      else Some (p, w))"

definition async_stalls :: "async_pipeline \<Rightarrow> 'h dd_context \<Rightarrow> 'h dd_context" where
  "async_stalls p ctx = ctx\<lparr>stats := (stats ctx)\<lparr>async_reader_stalls := reader_stalls p, async_writer_stalls := writer_stalls p\<rparr>\<rparr>"

text \<open>The reader may get on before each time the writer takes the mutex.\<close>

definition async_driver_step :: "'h hash_api \<Rightarrow> async_pipeline \<Rightarrow> 'h st \<Rightarrow> (async_pipeline, 'h) step_out option" where
  "async_driver_step H p w =
     (case Option.bind (reader_turn 0 p w) (\<lambda>(p, w). async_wait 4 p w) of
        None \<Rightarrow> None
      | Some (p, ctx, k) \<Rightarrow>
          if count p = 0 \<and> reader_done p then done_eof p (async_stalls p ctx, k)
          else
            let slot = slots p ! head p
            in if is_eof slot
               then (if slot_err slot \<noteq> 0 then done_fail p (dd_diagnose (slot_err slot) ''error reading'' (ctx, k))
                     else done_eof p (ctx, k))
               else
                 let ctx = (if int (as_nread slot) = bsize ctx
                            then ctx\<lparr>stats := (stats ctx)\<lparr>r_full := r_full (stats ctx) + 1\<rparr>\<rparr>
                            else ctx\<lparr>stats := (stats ctx)\<lparr>r_partial := r_partial (stats ctx) + 1\<rparr>\<rparr>);
                     (nwritten, ctx, k) = dd_iwrite H (take (as_nread slot) (as_buf slot)) (ctx, k);
                     ctx = ctx\<lparr>stats := (stats ctx)\<lparr>w_bytes := w_bytes (stats ctx) + int nwritten\<rparr>\<rparr>
                 in if nwritten \<noteq> as_nread slot
                    then (case dd_diagnose (errno k) ''error writing'' (ctx, k) of
                            (ctx, k) \<Rightarrow>
                              done_fail p
                                (if nwritten \<noteq> 0
                                 then ctx\<lparr>stats := (stats ctx)\<lparr>w_partial := w_partial (stats ctx) + 1\<rparr>\<rparr> else ctx, k))
                    else
                      let ctx = ctx\<lparr>stats := (stats ctx)\<lparr>w_full := w_full (stats ctx) + 1\<rparr>\<rparr>
                      in (case reader_turn 0 p (ctx, k) of
                            None \<Rightarrow> None
                          | Some (p, w) \<Rightarrow> done_ok (ring_release p) w))"

definition async_driver_flush :: "'h hash_api \<Rightarrow> 'h st \<Rightarrow> int \<times> 'h st" where
  "async_driver_flush H w =
     (case w of (ctx, k) \<Rightarrow>
        if 0 < oc ctx then
          let (nwritten, ctx, k) = dd_iwrite H (take (oc ctx) (obuf_bytes ctx)) (ctx, k);
              ctx = ctx\<lparr>stats := (stats ctx)\<lparr>w_bytes := w_bytes (stats ctx) + int nwritten\<rparr>\<rparr>
          in if nwritten \<noteq> oc ctx then (EXIT_FAILURE, dd_diagnose (errno k) ''error writing'' (ctx, k))
             else (EXIT_SUCCESS,
                   (if nwritten \<noteq> 0 then ctx\<lparr>stats := (stats ctx)\<lparr>w_partial := w_partial (stats ctx) + 1\<rparr>\<rparr> else ctx)\<lparr>oc := 0\<rparr>, k)
        else (EXIT_SUCCESS, ctx, k))"

text \<open>
  Cleanup asks the reader to stop and joins it: from wherever it is, it gets to its end, which may take
  one more read of the input.
\<close>

definition async_driver_cleanup :: "async_pipeline \<Rightarrow> 'h st \<Rightarrow> (async_pipeline \<times> 'h st) option" where
  "async_driver_cleanup p w =
     (case reader_turn 0 p w of
        None \<Rightarrow> None
      | Some (p, ctx, k) \<Rightarrow> reader_steps 4 (p\<lparr>stop_requested := True\<rparr>) (async_stalls p ctx, k))"

section \<open>The pipeline keeps the order and the contract\<close>

text \<open>
  \<open>pend\<close>: the slots the reader has filled and the writer has not released, oldest first, the one being
  published included. \<open>queued\<close> is their data, what was read but not yet written; \<open>async_eff\<close> is the kernel
  with the input offset in front of it.
\<close>

definition pend :: "async_pipeline \<Rightarrow> async_slot list" where
  "pend p = ring_items p @ (if rpc p = R_PUBLISH then [slots p ! tail p] else [])"

definition slot_data :: "async_slot \<Rightarrow> byte list" where
  "slot_data s = take (as_nread s) (as_buf s)"

definition queued :: "async_pipeline \<Rightarrow> byte list" where
  "queued p = concat (map slot_data (pend p))"

definition async_eff :: "async_pipeline \<Rightarrow> kern \<Rightarrow> kern" where
  "async_eff p k = k\<lparr>in_off := in_off k - length (queued p)\<rparr>"

definition slot_ok :: "async_slot \<Rightarrow> bool" where
  "slot_ok s \<longleftrightarrow> as_nread s \<le> length (as_buf s) \<and> (is_eof s \<longleftrightarrow> as_nread s = 0)"

definition limits_hit :: "dd_config \<Rightarrow> async_pipeline \<Rightarrow> kern \<Rightarrow> bool" where
  "limits_hit c p k \<longleftrightarrow>
     avail k = [] \<or> reader_limit_hit p \<or> 0 \<le> bytes_to_copy c \<and> bytes_to_copy c \<le> total_bytes_read p"

text \<open>The end mark is last, and the reader is past its loop once it is there.\<close>

definition marks_ok :: "dd_config \<Rightarrow> async_pipeline \<Rightarrow> kern \<Rightarrow> bool" where
  "marks_ok c p k \<longleftrightarrow>
     list_all slot_ok (pend p) \<and> list_all (\<lambda>s. \<not> is_eof s) (butlast (pend p)) \<and>
     (rpc p = R_WAIT \<or> rpc p = R_FILL \<longrightarrow> list_all (\<lambda>s. \<not> is_eof s) (pend p)) \<and>
     (rpc p = R_FINISH \<or> rpc p = R_EXIT \<longrightarrow> pend p \<noteq> [] \<and> is_eof (last (pend p))) \<and>
     list_all (\<lambda>s. is_eof s \<and> slot_err s = 0 \<longrightarrow> limits_hit c p k) (pend p)"

text \<open>\<open>wb\<close> is what has been written and released.\<close>

definition async_inv :: "dd_config \<Rightarrow> bool \<Rightarrow> int \<Rightarrow> async_pipeline \<Rightarrow> kern \<Rightarrow> bool" where
  "async_inv c full wb p k \<longleftrightarrow>
     ring_inv p \<and> \<not> stop_requested p \<and> read_clean full k \<and> 0 < blocksize c \<and>
     0 \<le> r_bytes_limit p \<and> r_bytes_limit p \<le> blocksize c \<and>
     list_all (\<lambda>s. blocksize c \<le> int (length (as_buf s))) (slots p) \<and>
     (rpc p = R_FILL \<or> rpc p = R_PUBLISH \<longrightarrow> ring_room p) \<and> (reader_done p \<longleftrightarrow> rpc p = R_EXIT) \<and>
     marks_ok c p k \<and>
     length (queued p) \<le> in_off k \<and> avail (async_eff p k) = queued p @ avail k \<and>
     total_bytes_read p = wb + int (length (queued p)) \<and> r_records_done p \<le> total_bytes_read p \<and>
     (0 \<le> bytes_to_copy c \<longrightarrow> total_bytes_read p \<le> bytes_to_copy c)"

text \<open>What the reader does to the rest while it runs.\<close>

definition reader_moves :: "async_pipeline \<Rightarrow> 'h st \<Rightarrow> async_pipeline \<Rightarrow> 'h st \<Rightarrow> bool" where
  "reader_moves p w p' w' \<longleftrightarrow>
     (\<exists>i. fst w' = (fst w)\<lparr>input_offset := i\<rparr>) \<and> r_records_limit p' = r_records_limit p \<and>
     (\<exists>bs. consumes bs (snd w) (snd w') \<and> queued p' = queued p @ bs) \<and>
     (\<exists>ms. ring_items p' = ring_items p @ ms)"

lemma reader_moves_refl: "reader_moves p w p w"
proof -
  have "fst w = (fst w)\<lparr>input_offset := input_offset (fst w)\<rparr>" by simp
  then show ?thesis unfolding reader_moves_def using consumes_refl [of "snd w"] by fastforce
qed

lemma reader_moves_trans:
  assumes "reader_moves p w p' w'" "reader_moves p' w' p'' w''"
  shows "reader_moves p w p'' w''"
proof -
  obtain i bs ms where a: "fst w' = (fst w)\<lparr>input_offset := i\<rparr>" "consumes bs (snd w) (snd w')" "queued p' = queued p @ bs"
      "ring_items p' = ring_items p @ ms" "r_records_limit p' = r_records_limit p"
    using assms(1) by (auto simp: reader_moves_def)
  obtain j cs ns where b: "fst w'' = (fst w')\<lparr>input_offset := j\<rparr>" "consumes cs (snd w') (snd w'')" "queued p'' = queued p' @ cs"
      "ring_items p'' = ring_items p' @ ns" "r_records_limit p'' = r_records_limit p'"
    using assms(2) by (auto simp: reader_moves_def)
  have "fst w'' = (fst w)\<lparr>input_offset := j\<rparr>" using a(1) b(1) by simp
  moreover have "consumes (bs @ cs) (snd w) (snd w'')" by (rule consumes_trans [OF a(2) b(2)])
  moreover have "queued p'' = queued p @ bs @ cs" "ring_items p'' = ring_items p @ ms @ ns" "r_records_limit p'' = r_records_limit p"
    using a b by simp_all
  ultimately show ?thesis unfolding reader_moves_def by (metis (no_types))
qed

lemma reader_moves_eff:
  assumes "reader_moves p w p' w'" "length (queued p) \<le> in_off (snd w)"
  shows "moves [] (async_eff p (snd w)) (async_eff p' (snd w'))"
proof -
  obtain bs where c: "consumes bs (snd w) (snd w')" "queued p' = queued p @ bs" using assms(1) by (auto simp: reader_moves_def)
  then have "async_eff p' (snd w') = (snd w')\<lparr>in_off := in_off (snd w) - length (queued p)\<rparr>"
    using assms(2) by (simp add: async_eff_def consumes_def)
  then show ?thesis
    using c(1) by (simp add: async_eff_def moves_def consumes_def avail_def view_def beyond_def out_pos_def)
qed

text \<open>Filling the claimed slot.\<close>

lemma advance_upd: "\<exists>i. dd_advance_input_offset n ctx = ctx\<lparr>input_offset := i\<rparr>"
  by (cases "0 \<le> input_offset ctx"; cases "ckd_add (input_offset ctx) n")
    (auto simp: dd_advance_input_offset_def intro: exI [of _ "input_offset ctx"])

lemma ring_items_set_slot:
  assumes "ring_inv p" "ring_room p"
  shows "ring_items (set_slot s p) = ring_items p" "slots (set_slot s p) ! tail p = s" "ring_inv (set_slot s p)"
proof -
  have "ring_items (ring_publish (set_slot s p)) = ring_items p @ [s]" using ring_items_publish [OF assms] by blast
  moreover have "ring_items (ring_publish (set_slot s p)) = ring_items (set_slot s p) @ [slots (set_slot s p) ! tail p]"
    using assms by (simp add: ring_items_def ring_publish_def set_slot_def ring_inv_def)
  ultimately show "ring_items (set_slot s p) = ring_items p" "slots (set_slot s p) ! tail p = s" by auto
  show "ring_inv (set_slot s p)" using assms by (simp add: ring_inv_def set_slot_def)
qed

lemma async_fill_cases:
  assumes inv: "async_inv (cfg ctx) (iread_fnc ctx) wb p k" and pc: "rpc p = R_FILL"
  obtains s p' i k' bs where "async_fill p (ctx, k) = Some (s, p', ctx\<lparr>input_offset := i\<rparr>, k')" "consumes bs k k'"
    "slot_data s = bs" "slot_ok s" "length (as_buf s) = length (as_buf (slots p ! tail p))" "read_clean (iread_fnc ctx) k'"
    "is_eof s \<and> slot_err s = 0 \<longrightarrow> limits_hit (cfg ctx) p' k'"
    "p' = p\<lparr>reader_exit := reader_exit p', r_records_done := r_records_done p', total_bytes_read := total_bytes_read p + int (length bs)\<rparr>"
    "0 \<le> bytes_to_copy (cfg ctx) \<longrightarrow> total_bytes_read p' \<le> bytes_to_copy (cfg ctx)"
    "r_records_done p' \<le> total_bytes_read p'"
proof -
  let ?s = "slots p ! tail p" and ?c = "cfg ctx"
  define rem where "rem = bytes_to_copy ?c - total_bytes_read p"
  define tr0 where "tr0 = (if r_records_limit p \<le> r_records_done p then r_bytes_limit p else bsize ctx)"
  define tr where "tr = (if 0 \<le> bytes_to_copy ?c \<and> rem < tr0 then rem else tr0)"
  have I: "ring_inv p" "read_clean (iread_fnc ctx) k" "0 < bsize ctx" "0 \<le> r_bytes_limit p" "r_bytes_limit p \<le> bsize ctx"
      "0 \<le> bytes_to_copy ?c \<longrightarrow> total_bytes_read p \<le> bytes_to_copy ?c" "r_records_done p \<le> total_bytes_read p"
    using inv by (auto simp: async_inv_def)
  have "tail p < length (slots p)" using I(1) by (simp add: ring_inv_def)
  then have buf: "bsize ctx \<le> int (length (as_buf ?s))" using inv by (simp add: async_inv_def list_all_length)
  have fill: "async_fill p (ctx, k) =
     (if reader_limit_hit p \<or> 0 \<le> bytes_to_copy ?c \<and> rem \<le> 0 then Some (eof_slot 0 ?s, p, ctx, k)
      else if int (length (as_buf ?s)) < tr then None
      else (case iread ctx STDIN_FILENO (nat tr) k of
              (Inl e, k) \<Rightarrow> Some (eof_slot e ?s, p\<lparr>reader_exit := EXIT_FAILURE\<rparr>, ctx, k)
            | (Inr bs, k) \<Rightarrow>
                if bs = [] then Some (eof_slot 0 ?s, p, ctx, k)
                else Some (?s\<lparr>as_buf := blit (as_buf ?s) 0 bs, as_nread := length bs, is_eof := False, slot_err := 0\<rparr>,
                           p\<lparr>r_records_done := r_records_done p + 1,
                             total_bytes_read := total_bytes_read p + int (length bs)\<rparr>,
                           dd_advance_input_offset (int (length bs)) ctx, k)))"
    by (simp add: async_fill_def Let_def rem_def tr0_def tr_def)
  have e: "slot_data (eof_slot e ?s) = []" "slot_ok (eof_slot e ?s)" "as_buf (eof_slot e ?s) = as_buf ?s"
    "is_eof (eof_slot e ?s)" "slot_err (eof_slot e ?s) = e" for e
    by (simp_all add: slot_data_def slot_ok_def eof_slot_def)
  have c0: "ctx = ctx\<lparr>input_offset := input_offset ctx\<rparr>" by simp
  show thesis
  proof (cases "reader_limit_hit p \<or> 0 \<le> bytes_to_copy ?c \<and> rem \<le> 0")
    case True
    then show thesis using c0 e I by (intro that [of "eof_slot 0 ?s" p "input_offset ctx" k "[]"])
        (auto simp: fill limits_hit_def rem_def)
  next
    case False
    have tr0: "0 < tr0" "tr0 \<le> bsize ctx"
      using False I(3-5) by (cases "r_bytes_limit p = 0"; auto simp: tr0_def reader_limit_hit_def)+
    have tr: "0 < tr" "tr \<le> bsize ctx" "0 \<le> bytes_to_copy ?c \<longrightarrow> tr \<le> rem"
      using False tr0 by (auto simp: tr_def)
    obtain r k' where rd: "iread ctx STDIN_FILENO (nat tr) k = (r, k')" by fastforce
    note cl = iread_clean [OF rd I(2)] and con = iread_consumes [OF rd]
    show thesis
    proof (cases r)
      case (Inl err)
      then show thesis using cl c0 e I False tr buf rd
        by (intro that [of "eof_slot err ?s" "p\<lparr>reader_exit := EXIT_FAILURE\<rparr>" "input_offset ctx" k' "[]"]) (auto simp: fill)
    next
      case (Inr bs)
      then have cb: "consumes bs k k'" "length bs \<le> nat tr" "bs = [] \<longrightarrow> avail k = []" using con tr(1) by auto
      show thesis
      proof (cases "bs = []")
        case True
        then have "avail k' = []" using cb consumesD(1) [OF cb(1)] by simp
        then show thesis using True Inr cb cl c0 e I False tr buf rd
          by (intro that [of "eof_slot 0 ?s" p "input_offset ctx" k' "[]"]) (auto simp: fill limits_hit_def)
      next
        case nn: False
        let ?n = "?s\<lparr>as_buf := blit (as_buf ?s) 0 bs, as_nread := length bs, is_eof := False, slot_err := 0\<rparr>"
        have le: "length bs \<le> length (as_buf ?s)" using cb(2) tr buf by simp
        obtain i where "dd_advance_input_offset (int (length bs)) ctx = ctx\<lparr>input_offset := i\<rparr>"
          using advance_upd by blast
        moreover have "slot_data ?n = bs" "slot_ok ?n" using le nn by (simp_all add: slot_data_def slot_ok_def)
        moreover have "1 \<le> int (length bs)" using nn by (cases bs) simp_all
        ultimately show thesis using nn Inr cb cl I False tr buf rd le
          by (intro that [of ?n "p\<lparr>r_records_done := r_records_done p + 1, total_bytes_read := total_bytes_read p + int (length bs)\<rparr>" i k' bs])
            (auto simp: fill rem_def)
      qed
    qed
  qed
qed

definition pc_rank :: "async_pipeline \<Rightarrow> nat" where
  "pc_rank p = (case rpc p of R_WAIT \<Rightarrow> 3 | R_FILL \<Rightarrow> 2 | R_PUBLISH \<Rightarrow> 1 | R_FINISH \<Rightarrow> 1 | R_EXIT \<Rightarrow> 0)"

lemma pend_simps:
  "rpc p = R_WAIT \<or> rpc p = R_FILL \<or> rpc p = R_FINISH \<or> rpc p = R_EXIT \<Longrightarrow> pend p = ring_items p"
  "rpc p = R_PUBLISH \<Longrightarrow> pend p = ring_items p @ [slots p ! tail p]"
  by (auto simp: pend_def)

lemma ring_items_rpc [simp]:
  "ring_items (p\<lparr>rpc := c\<rparr>) = ring_items p" "ring_inv (p\<lparr>rpc := c\<rparr>) = ring_inv p" "ring_room (p\<lparr>rpc := c\<rparr>) = ring_room p"
  by (simp_all add: ring_items_def ring_inv_def ring_room_def)

lemma async_inv_same_pend:
  assumes "async_inv c full wb p k" "pend p' = pend p" "ring_inv p'" "slots p' = slots p" "capacity p' = capacity p"
    "stop_requested p' = stop_requested p"
    "r_bytes_limit p' = r_bytes_limit p" "r_records_limit p' = r_records_limit p" "r_records_done p' = r_records_done p"
    "total_bytes_read p' = total_bytes_read p" "reader_done p' \<longleftrightarrow> rpc p' = R_EXIT" "rpc p' = R_FILL \<or> rpc p' = R_PUBLISH \<longrightarrow> ring_room p'"
    "rpc p' = R_WAIT \<or> rpc p' = R_FILL \<longrightarrow> list_all (\<lambda>s. \<not> is_eof s) (pend p)"
    "rpc p' = R_FINISH \<or> rpc p' = R_EXIT \<longrightarrow> pend p \<noteq> [] \<and> is_eof (last (pend p))"
  shows "async_inv c full wb p' k" "queued p' = queued p"
proof -
  show q: "queued p' = queued p" using assms(2) by (simp add: queued_def)
  have "limits_hit c p' k = limits_hit c p k" using assms(7-10) by (simp add: limits_hit_def reader_limit_hit_def)
  then have "marks_ok c p' k" using assms by (simp add: async_inv_def marks_ok_def)
  then show "async_inv c full wb p' k"
    using assms(1,3,11,12) unfolding async_inv_def async_eff_def q assms(4-10) by blast
qed

lemma reader_step_publish:
  assumes inv: "async_inv (cfg ctx) (iread_fnc ctx) wb p k" and pc: "rpc p = R_PUBLISH" and s: "reader_step p (ctx, k) = Some (p', w')"
  shows "async_inv (cfg ctx) (iread_fnc ctx) wb p' k \<and> w' = (ctx, k) \<and> queued p' = queued p \<and> count p' = count p + 1 \<and>
    r_records_limit p' = r_records_limit p \<and> (\<exists>ms. ring_items p' = ring_items p @ ms)"
proof -
  let ?e = "is_eof (slots p ! tail p)"
  have stop: "\<not> stop_requested p" and rinv: "ring_inv p" and room: "ring_room p" using inv pc by (auto simp: async_inv_def)
  have p': "p' = (ring_publish p)\<lparr>rpc := (if ?e then R_FINISH else R_WAIT)\<rparr>" "w' = (ctx, k)"
    using s pc stop by (simp_all add: reader_step_def)
  have "set_slot (slots p ! tail p) p = p" by (simp add: set_slot_def)
  then have q: "ring_inv (ring_publish p)" "ring_items (ring_publish p) = ring_items p @ [slots p ! tail p]"
    using ring_items_publish [OF rinv room, of "slots p ! tail p"] by simp_all
  then have pd: "pend p' = pend p" using pc by (simp add: p' pend_def)
  have la: "list_all (\<lambda>s. \<not> is_eof s) (ring_items p)"
    using inv pc by (simp add: async_inv_def marks_ok_def pend_def)
  have "async_inv (cfg ctx) (iread_fnc ctx) wb p' k" "queued p' = queued p"
    by (rule async_inv_same_pend [OF inv pd];
        use inv pc la q in \<open>simp add: p' ring_publish_def pend_def async_inv_def\<close>)+
  then show ?thesis using q by (simp add: p' ring_publish_def)
qed

lemma reader_step_fill:
  assumes inv: "async_inv (cfg ctx) (iread_fnc ctx) wb p k" and pc: "rpc p = R_FILL"
  shows "\<exists>p' ctx' k'. reader_step p (ctx, k) = Some (p', ctx', k') \<and> rpc p' = R_PUBLISH \<and> count p' = count p \<and>
    async_inv (cfg ctx) (iread_fnc ctx) wb p' k' \<and> reader_moves p (ctx, k) p' (ctx', k')"
proof -
  from async_fill_cases [OF inv pc]
  obtain s p1 i k' bs where f: "async_fill p (ctx, k) = Some (s, p1, ctx\<lparr>input_offset := i\<rparr>, k')" "consumes bs k k'"
    "slot_data s = bs" "slot_ok s" "length (as_buf s) = length (as_buf (slots p ! tail p))" "read_clean (iread_fnc ctx) k'"
    "is_eof s \<and> slot_err s = 0 \<longrightarrow> limits_hit (cfg ctx) p1 k'"
    "p1 = p\<lparr>reader_exit := reader_exit p1, r_records_done := r_records_done p1, total_bytes_read := total_bytes_read p + int (length bs)\<rparr>"
    "0 \<le> bytes_to_copy (cfg ctx) \<longrightarrow> total_bytes_read p1 \<le> bytes_to_copy (cfg ctx)"
    "r_records_done p1 \<le> total_bytes_read p1"
    by metis
  let ?p = "(set_slot s p1)\<lparr>rpc := R_PUBLISH\<rparr>"
  have I: "ring_inv p" "ring_room p" "list_all slot_ok (ring_items p)" "list_all (\<lambda>s. \<not> is_eof s) (ring_items p)"
    "length (queued p) \<le> in_off k" "avail (async_eff p k) = queued p @ avail k" "tail p < length (slots p)"
    using inv pc by (auto simp: async_inv_def marks_ok_def pend_def ring_inv_def)
  have p1: "slots p1 = slots p" "tail p1 = tail p" "head p1 = head p" "count p1 = count p" "capacity p1 = capacity p"
    "stop_requested p1 = stop_requested p" "r_bytes_limit p1 = r_bytes_limit p" "r_records_limit p1 = r_records_limit p"
    "reader_done p1 = reader_done p"
    by (subst f(8), simp)+
  have r1: "ring_inv p1" "ring_room p1" "ring_items p1 = ring_items p"
    using I(1,2) by (simp_all add: ring_inv_def ring_room_def ring_items_def p1)
  note ss = ring_items_set_slot [OF r1(1,2), of s]
  have pd: "pend ?p = ring_items p @ [s]" using ss(1,2) r1(3) by (simp add: pend_def) (simp add: set_slot_def)
  have q: "queued ?p = queued p @ bs" using pd pc f(3) by (simp add: queued_def pend_def)
  have lim: "limits_hit (cfg ctx) ?p k' = limits_hit (cfg ctx) p1 k'"
    by (simp add: limits_hit_def reader_limit_hit_def set_slot_def)
  have eff: "async_eff ?p k' = k'\<lparr>in_off := in_off k - length (queued p)\<rparr>"
    using f(2) I(5) by (simp add: async_eff_def q consumes_def)
  have av: "avail (async_eff ?p k') = queued ?p @ avail k'"
    using I(6) f(2) by (simp add: eff q) (simp add: async_eff_def avail_def consumes_def)
  have bufs: "list_all (\<lambda>s. bsize ctx \<le> int (length (as_buf s))) (slots ?p)"
    using inv I(7) f(5) by (auto simp: async_inv_def list_all_length set_slot_def p1 nth_list_update)
  have "marks_ok (cfg ctx) ?p k'"
    using I(3,4) f(4,7) by (simp add: marks_ok_def pd lim list_all_iff)
  then have "async_inv (cfg ctx) (iread_fnc ctx) wb ?p k'"
    using inv pc ss(3) f(2,6,9,10) q av bufs r1(2) p1 arg_cong [OF f(8), of total_bytes_read]
    by (simp add: async_inv_def consumes_def) (simp add: set_slot_def ring_room_def)
  moreover have "reader_moves p (ctx, k) ?p (ctx\<lparr>input_offset := i\<rparr>, k')"
    unfolding reader_moves_def using f(2) q ss(1) r1(3) p1(8) by (auto simp: set_slot_def)
  moreover have "reader_step p (ctx, k) = Some (?p, ctx\<lparr>input_offset := i\<rparr>, k')"
    using f(1) pc by (simp add: reader_step_def)
  moreover have "count ?p = count p" by (simp add: set_slot_def p1)
  ultimately show ?thesis by (intro exI [of _ ?p]) auto
qed

text \<open>Each micro-step of the reader keeps the invariant; a starving writer is served soon.\<close>

lemma reader_step_inv:
  assumes inv: "async_inv (cfg ctx) (iread_fnc ctx) wb p k"
  shows "\<exists>p' ctx' k'. reader_step p (ctx, k) = Some (p', ctx', k') \<and> async_inv (cfg ctx) (iread_fnc ctx) wb p' k' \<and>
    reader_moves p (ctx, k) p' (ctx', k') \<and> (count p' \<noteq> 0 \<or> pc_rank p' < pc_rank p \<or> reader_done p)"
proof -
  have I: "ring_inv p" "\<not> stop_requested p" "reader_done p \<longleftrightarrow> rpc p = R_EXIT" using inv by (auto simp: async_inv_def)
  have mv: "reader_moves p (ctx, k) p' (ctx, k)" if "queued p' = queued p" "\<exists>ms. ring_items p' = ring_items p @ ms" "r_records_limit p' = r_records_limit p" for p'
    using reader_moves_refl [of p "(ctx, k)"] that unfolding reader_moves_def by auto
  have same: "async_inv (cfg ctx) (iread_fnc ctx) wb p' k \<and> reader_moves p (ctx, k) p' (ctx, k)"
    if "pend p' = pend p" "ring_items p' = ring_items p" "ring_inv p'" "slots p' = slots p" "capacity p' = capacity p"
      "stop_requested p' = stop_requested p"
      "r_bytes_limit p' = r_bytes_limit p" "r_records_limit p' = r_records_limit p" "r_records_done p' = r_records_done p"
      "total_bytes_read p' = total_bytes_read p" "reader_done p' \<longleftrightarrow> rpc p' = R_EXIT" "rpc p' = R_FILL \<or> rpc p' = R_PUBLISH \<longrightarrow> ring_room p'"
      "rpc p' = R_WAIT \<or> rpc p' = R_FILL \<longrightarrow> list_all (\<lambda>s. \<not> is_eof s) (pend p)"
      "rpc p' = R_FINISH \<or> rpc p' = R_EXIT \<longrightarrow> pend p \<noteq> [] \<and> is_eof (last (pend p))" for p'
    using async_inv_same_pend [OF inv that(1,3-14)] mv that(2,8) by auto
  show ?thesis
  proof (cases "rpc p")
    case R_WAIT
    have m: "list_all (\<lambda>s. \<not> is_eof s) (pend p)" using inv R_WAIT by (simp add: async_inv_def marks_ok_def)
    show ?thesis
    proof (cases "count p = capacity p")
      case True
      let ?p = "p\<lparr>reader_stalls := reader_stalls p + 1\<rparr>"
      have f: "ring_items ?p = ring_items p" "ring_inv ?p = ring_inv p" by (simp_all add: ring_items_def ring_inv_def)
      have "async_inv (cfg ctx) (iread_fnc ctx) wb ?p k \<and> reader_moves p (ctx, k) ?p (ctx, k)"
        by (rule same) (use I R_WAIT m f in \<open>simp_all add: pend_def\<close>)
      moreover have "count p \<noteq> 0" using I(1) True by (simp add: ring_inv_def)
      ultimately show ?thesis using R_WAIT True I by (simp add: reader_step_def)
    next
      case False
      let ?p = "p\<lparr>rpc := R_FILL\<rparr>"
      have "async_inv (cfg ctx) (iread_fnc ctx) wb ?p k \<and> reader_moves p (ctx, k) ?p (ctx, k)"
        by (rule same) (use I R_WAIT m False in \<open>auto simp: pend_def ring_room_def ring_inv_def ring_items_def\<close>)
      then show ?thesis using R_WAIT False I by (simp add: reader_step_def pc_rank_def)
    qed
  next
    case R_FILL
    from reader_step_fill [OF inv R_FILL] show ?thesis using R_FILL by (fastforce simp: pc_rank_def)
  next
    case R_PUBLISH
    obtain p' w' where s: "reader_step p (ctx, k) = Some (p', w')" using R_PUBLISH by (simp add: reader_step_def)
    from reader_step_publish [OF inv R_PUBLISH s] show ?thesis using s mv by auto
  next
    case R_FINISH
    let ?p = "p\<lparr>reader_done := True, rpc := R_EXIT\<rparr>"
    have f: "ring_items ?p = ring_items p" "ring_inv ?p = ring_inv p" by (simp_all add: ring_items_def ring_inv_def)
    have m: "pend p \<noteq> [] \<and> is_eof (last (pend p))" using inv R_FINISH by (simp add: async_inv_def marks_ok_def)
    have "async_inv (cfg ctx) (iread_fnc ctx) wb ?p k \<and> reader_moves p (ctx, k) ?p (ctx, k)"
      by (rule same) (use I R_FINISH m f in \<open>simp_all add: pend_def\<close>)
    then show ?thesis using R_FINISH by (simp add: reader_step_def pc_rank_def)
  next
    case R_EXIT
    then show ?thesis using inv reader_moves_refl I by (auto simp: reader_step_def)
  qed
qed

lemma reader_moves_ctx:
  assumes "reader_moves p (ctx, k) p' (ctx', k')"
  shows "cfg ctx' = cfg ctx" "iread_fnc ctx' = iread_fnc ctx" "stats ctx' = stats ctx"
  using assms by (auto simp: reader_moves_def)

lemma reader_moves_carried:
  assumes "reader_moves p (ctx, k) p' (ctx', k')"
  shows "digest ctx' = digest ctx \<and> oc ctx' = oc ctx \<and> cfg ctx' = cfg ctx \<and> final_op_was_seek ctx' = final_op_was_seek ctx \<and>
    out_data k' = out_data k \<and> out_off k' = out_off k \<and> out_fl k' = out_fl k \<and> hole_ok (ctx', k') = hole_ok (ctx, k)"
proof -
  obtain i bs where "ctx' = ctx\<lparr>input_offset := i\<rparr>" "consumes bs k k'" using assms by (auto simp: reader_moves_def)
  then show ?thesis using solid_cong [of k' k] by (simp add: consumes_def digest_upd hole_ok_def view_def out_pos_def)
qed

lemma reader_moves_count:
  assumes "reader_moves p w p' w'"
  shows "count p \<le> count p'"
proof -
  obtain ms where "ring_items p' = ring_items p @ ms" using assms by (auto simp: reader_moves_def)
  then have "length (ring_items p) \<le> length (ring_items p')" by simp
  then show ?thesis by (simp add: ring_items_def)
qed

lemma reader_steps_inv:
  "async_inv (cfg ctx) (iread_fnc ctx) wb p k \<Longrightarrow>
     \<exists>p' ctx' k'. reader_steps n p (ctx, k) = Some (p', ctx', k') \<and> async_inv (cfg ctx) (iread_fnc ctx) wb p' k' \<and>
       reader_moves p (ctx, k) p' (ctx', k') \<and>
       (count p' \<noteq> 0 \<or> reader_done p' \<or> pc_rank p' \<le> pc_rank p - (if n = 0 then 0 else 1) \<and> (n \<noteq> 0 \<longrightarrow> 0 < pc_rank p))"
proof (induction n arbitrary: p ctx k)
  case 0
  then show ?case using reader_moves_refl by auto
next
  case (Suc n)
  obtain p1 c1 k1 where s: "reader_step p (ctx, k) = Some (p1, c1, k1)" "async_inv (cfg ctx) (iread_fnc ctx) wb p1 k1"
      "reader_moves p (ctx, k) p1 (c1, k1)" "count p1 \<noteq> 0 \<or> pc_rank p1 < pc_rank p \<or> reader_done p"
    using reader_step_inv [OF Suc.prems] by blast
  note f = reader_moves_ctx [OF s(3)]
  obtain p2 c2 k2 where t: "reader_steps n p1 (c1, k1) = Some (p2, c2, k2)" "async_inv (cfg ctx) (iread_fnc ctx) wb p2 k2"
      "reader_moves p1 (c1, k1) p2 (c2, k2)" "count p2 \<noteq> 0 \<or> reader_done p2 \<or> pc_rank p2 \<le> pc_rank p1"
    using Suc.IH [of c1 p1 k1] s(2) f(1,2) by fastforce
  have cnt: "count p1 \<le> count p2" by (rule reader_moves_count [OF t(3)])
  have rank0: "reader_done p2" if "reader_done p" "count p1 = 0"
    using that s(1,2) Suc.prems t(1)
    by (induction n) (auto simp: async_inv_def reader_step_def marks_ok_def pend_def ring_items_def)
  have "count p2 \<noteq> 0 \<or> reader_done p2 \<or> pc_rank p2 < pc_rank p"
    using s(4) t(4) cnt rank0 by (cases "count p1 = 0") auto
  then show ?case using s(1) t(1,2) reader_moves_trans [OF s(3) t(3)] by auto
qed

lemma next_turn_same: "next_turn k = (n, k') \<Longrightarrow> consumes [] k k' \<and> rd_ans k' = rd_ans k \<and> in_off k' = in_off k \<and> avail k' = avail k"
  by (auto simp: next_turn_def consumes_def avail_def split: list.splits)

lemma async_inv_kern:
  assumes "async_inv c full wb p k" "in_data k' = in_data k" "in_off k' = in_off k" "rd_ans k' = rd_ans k"
  shows "async_inv c full wb p k'"
proof -
  have a: "avail k' = avail k" "avail (async_eff p k') = avail (async_eff p k)"
    using assms by (simp_all add: avail_def async_eff_def)
  then have m: "marks_ok c p k' = marks_ok c p k" by (simp add: marks_ok_def limits_hit_def)
  have r: "read_clean full k' = read_clean full k" using assms(4) by (simp add: read_clean_def)
  show ?thesis using assms(1) unfolding async_inv_def a assms(3) m r .
qed

lemma reader_turn_inv:
  assumes "async_inv (cfg ctx) (iread_fnc ctx) wb p k"
  shows "\<exists>p' ctx' k'. reader_turn n p (ctx, k) = Some (p', ctx', k') \<and> async_inv (cfg ctx) (iread_fnc ctx) wb p' k' \<and>
       reader_moves p (ctx, k) p' (ctx', k') \<and> (0 < n \<longrightarrow> count p' \<noteq> 0 \<or> reader_done p' \<or> pc_rank p' < pc_rank p)"
proof -
  obtain m k1 where t: "next_turn k = (m, k1)" by fastforce
  note c = next_turn_same [OF t]
  have "async_inv (cfg ctx) (iread_fnc ctx) wb p k1"
    by (rule async_inv_kern [OF assms]) (use c in \<open>simp_all add: consumes_def\<close>)
  from reader_steps_inv [OF this, of "m + n"]
  obtain p' ctx' k' where r: "reader_steps (m + n) p (ctx, k1) = Some (p', ctx', k')" "async_inv (cfg ctx) (iread_fnc ctx) wb p' k'"
      "reader_moves p (ctx, k1) p' (ctx', k')"
      "count p' \<noteq> 0 \<or> reader_done p' \<or> pc_rank p' \<le> pc_rank p - (if m + n = 0 then 0 else 1) \<and> (m + n \<noteq> 0 \<longrightarrow> 0 < pc_rank p)"
    by blast
  have "reader_moves p (ctx, k) p' (ctx', k')"
    using r(3) consumes_trans [of "[]" k k1] c by (fastforce simp: reader_moves_def)
  then show ?thesis using r by (auto simp: reader_turn_def t)
qed

lemma async_wait_inv:
  "async_inv (cfg ctx) (iread_fnc ctx) wb p k \<Longrightarrow> pc_rank p < n \<Longrightarrow>
     \<exists>p' ctx' k'. async_wait n p (ctx, k) = Some (p', ctx', k') \<and> async_inv (cfg ctx) (iread_fnc ctx) wb p' k' \<and>
       reader_moves p (ctx, k) p' (ctx', k') \<and> (count p' \<noteq> 0 \<or> reader_done p')"
proof (induction n arbitrary: p ctx k)
  case (Suc n)
  show ?case
  proof (cases "count p = 0 \<and> \<not> reader_done p")
    case False
    then show ?thesis using Suc.prems reader_moves_refl by auto
  next
    case True
    let ?p = "p\<lparr>writer_stalls := writer_stalls p + 1\<rparr>"
    have f: "ring_items ?p = ring_items p" "ring_inv ?p = ring_inv p" "ring_room ?p = ring_room p" "pend ?p = pend p"
      by (simp_all add: ring_items_def ring_inv_def ring_room_def pend_def)
    have i: "async_inv (cfg ctx) (iread_fnc ctx) wb ?p k"
      by (rule async_inv_same_pend [OF Suc.prems(1)]) (use Suc.prems(1) f in \<open>auto simp: async_inv_def marks_ok_def\<close>)
    obtain p1 c1 k1 where r: "reader_turn 1 ?p (ctx, k) = Some (p1, c1, k1)" "async_inv (cfg ctx) (iread_fnc ctx) wb p1 k1"
        "reader_moves ?p (ctx, k) p1 (c1, k1)" "count p1 \<noteq> 0 \<or> reader_done p1 \<or> pc_rank p1 < pc_rank ?p"
      using reader_turn_inv [OF i, of 1] by auto
    have rm: "reader_moves p (ctx, k) p1 (c1, k1)"
      using r(3) by (simp add: reader_moves_def queued_def f)
    note g = reader_moves_ctx [OF rm]
    have rk: "pc_rank ?p = pc_rank p" by (simp add: pc_rank_def)
    show ?thesis
    proof (cases "count p1 \<noteq> 0 \<or> reader_done p1")
      case True
      have "pc_rank p \<noteq> 0"
        using \<open>count p = 0 \<and> \<not> reader_done p\<close> Suc.prems(1)
        by (auto simp: pc_rank_def async_inv_def split: reader_pc.splits)
      then have "async_wait n p1 (c1, k1) = Some (p1, c1, k1)"
        using Suc.prems(2) True by (cases n) auto
      then show ?thesis using r rm True \<open>count p = 0 \<and> \<not> reader_done p\<close> by auto
    next
      case False
      then have "pc_rank p1 < n" using r(4) rk Suc.prems(2) by simp
      from Suc.IH [of c1 p1 k1, OF _ this] r(2) g
      obtain p2 c2 k2 where t: "async_wait n p1 (c1, k1) = Some (p2, c2, k2)" "async_inv (cfg ctx) (iread_fnc ctx) wb p2 k2"
          "reader_moves p1 (c1, k1) p2 (c2, k2)" "count p2 \<noteq> 0 \<or> reader_done p2"
        by auto
      then show ?thesis using True r(1) reader_moves_trans [OF rm t(3)] by auto
    qed
  qed
qed simp

section \<open>One step of the writer\<close>

definition async_ready :: "async_pipeline \<Rightarrow> 'h st \<Rightarrow> bool" where
  "async_ready p w \<longleftrightarrow>
     async_inv (cfg (fst w)) (iread_fnc (fst w)) (w_bytes (stats (fst w))) p (snd w) \<and> sparse_ok (cfg (fst w)) (snd w)"

definition async_stop :: "async_pipeline \<Rightarrow> 'h st \<Rightarrow> bool" where
  "async_stop p w \<longleftrightarrow> queued p = [] \<and> limits_hit (cfg (fst w)) p (snd w)"

definition async_left :: "async_pipeline \<Rightarrow> 'h st \<Rightarrow> nat" where
  "async_left p w = length (avail (async_eff p (snd w)))"

lemma length_ring_items: "length (ring_items p) = count p"
  by (simp add: ring_items_def)

lemma async_release:
  assumes inv: "async_inv c full wb p k" and it: "ring_items p = s # rest" and ne: "\<not> is_eof s"
  shows "async_inv c full (wb + int (as_nread s)) (ring_release p) k \<and> queued p = slot_data s @ queued (ring_release p) \<and>
    length (slot_data s) = as_nread s \<and> as_nread s \<noteq> 0"
proof -
  let ?p = "ring_release p"
  have I: "ring_inv p" "length (queued p) \<le> in_off k" "avail (async_eff p k) = queued p @ avail k"
    "total_bytes_read p = wb + int (length (queued p))" "marks_ok c p k"
    using inv by (auto simp: async_inv_def)
  have r: "ring_inv ?p" "ring_items ?p = rest" "ring_room ?p" using ring_items_release [OF I(1)] it by auto
  have f: "slots ?p = slots p" "tail ?p = tail p" "rpc ?p = rpc p" "total_bytes_read ?p = total_bytes_read p"
      "stop_requested ?p = stop_requested p" "r_bytes_limit ?p = r_bytes_limit p" "reader_done ?p = reader_done p"
      "r_records_done ?p = r_records_done p"
    by (simp_all add: ring_release_def)
  have pd: "pend p = s # pend ?p" by (simp add: pend_def it r(2) f)
  have q: "queued p = slot_data s @ queued ?p" by (simp add: queued_def pd)
  have "slot_ok s" using I(5) by (simp add: marks_ok_def pd)
  then have len: "length (slot_data s) = as_nread s" "as_nread s \<noteq> 0" using ne by (auto simp: slot_ok_def slot_data_def)
  have lh: "limits_hit c ?p k = limits_hit c p k" by (simp add: limits_hit_def reader_limit_hit_def ring_release_def)
  have m: "marks_ok c ?p k"
    using I(5) ne unfolding marks_ok_def lh f by (auto simp: pd split: if_splits)
  have "avail (async_eff ?p k) = drop (length (slot_data s)) (avail (async_eff p k))"
    using I(2) by (simp add: async_eff_def q avail_def add.commute)
  then have av: "avail (async_eff ?p k) = queued ?p @ avail k" by (simp add: I(3) q)
  have "async_inv c full (wb + int (as_nread s)) ?p k"
    using inv r m av q len unfolding async_inv_def f by auto
  then show ?thesis using q len by blast
qed

text \<open>Which slot the writer gets: there always is one, and it is the oldest.\<close>

lemma async_front:
  assumes inv: "async_inv (cfg ctx) (iread_fnc ctx) wb p k"
  obtains p' ctx' k' s rest where "Option.bind (reader_turn 0 p (ctx, k)) (\<lambda>(p, w). async_wait 4 p w) = Some (p', ctx', k')"
    "async_inv (cfg ctx) (iread_fnc ctx) wb p' k'" "reader_moves p (ctx, k) p' (ctx', k')"
    "ring_items p' = s # rest" "slots p' ! head p' = s" "count p' \<noteq> 0"
proof -
  obtain p1 c1 k1 where t: "reader_turn 0 p (ctx, k) = Some (p1, c1, k1)" "async_inv (cfg ctx) (iread_fnc ctx) wb p1 k1"
      "reader_moves p (ctx, k) p1 (c1, k1)"
    using reader_turn_inv [OF inv, of 0] by auto
  note f = reader_moves_ctx [OF t(3)]
  have "pc_rank p1 < 4" by (auto simp: pc_rank_def split: reader_pc.splits)
  then obtain p2 c2 k2 where u: "async_wait 4 p1 (c1, k1) = Some (p2, c2, k2)" "async_inv (cfg ctx) (iread_fnc ctx) wb p2 k2"
      "reader_moves p1 (c1, k1) p2 (c2, k2)" "count p2 \<noteq> 0 \<or> reader_done p2"
    using async_wait_inv [of c1 wb p1 k1 4] t(2) f by auto
  have "ring_items p2 \<noteq> []"
    using u(2,4) by (auto simp: async_inv_def marks_ok_def pend_def ring_items_def)
  then obtain s rest where it: "ring_items p2 = s # rest" by (cases "ring_items p2") auto
  have "ring_inv p2" using u(2) by (simp add: async_inv_def)
  with it have "slots p2 ! head p2 = s" using ring_front [of p2] by simp
  moreover have "count p2 \<noteq> 0" using it length_ring_items [of p2] by auto
  ultimately show thesis
    using that [OF _ u(2) reader_moves_trans [OF t(3) u(3)] it] t(1) u(1) by simp
qed

lemma async_eff_frame:
  "view (async_eff p k) = view k" "beyond (async_eff p k) = beyond k" "out_fl (async_eff p k) = out_fl k"
  "out_seek (async_eff p k) = out_seek k" "out_type (async_eff p k) = out_type k"
  "in_seek (async_eff p k) = in_seek k" "in_type (async_eff p k) = in_type k"
  by (simp_all add: async_eff_def view_def beyond_def out_pos_def)

text \<open>The writer wrote the front slot; then the reader ran, then the slot was released.\<close>

lemma async_wrote:
  assumes inv1: "async_inv (cfg ctx) (iread_fnc ctx) wb p k" and it: "ring_items p = s # rest" and ne: "\<not> is_eof s"
    and ext: "extends (slot_data s) k k2" and c2: "cfg ctx2 = cfg ctx" "iread_fnc ctx2 = iread_fnc ctx"
  shows "\<exists>p' ctx' k'. reader_turn 0 p (ctx2, k2) = Some (p', ctx', k') \<and>
    async_inv (cfg ctx) (iread_fnc ctx) (wb + int (as_nread s)) (ring_release p') k' \<and>
    moves (slot_data s) (async_eff p k) (async_eff (ring_release p') k') \<and> stats ctx' = stats ctx2 \<and> cfg ctx' = cfg ctx2 \<and>
    iread_fnc ctx' = iread_fnc ctx2 \<and> length (slot_data s) = as_nread s \<and> as_nread s \<noteq> 0 \<and>
    digest ctx' = digest ctx2 \<and> oc ctx' = oc ctx2 \<and> hole_ok (ctx', k') = hole_ok (ctx2, k2) \<and>
    r_records_limit (ring_release p') = r_records_limit p"
proof -
  note e = extendsD [OF ext]
  have "async_inv (cfg ctx2) (iread_fnc ctx2) wb p k2"
    using async_inv_kern [OF inv1] e(6) c2 by (simp add: input_same_def)
  from reader_turn_inv [OF this, of 0]
  obtain p' ctx' k' where t: "reader_turn 0 p (ctx2, k2) = Some (p', ctx', k')" "async_inv (cfg ctx2) (iread_fnc ctx2) wb p' k'"
      "reader_moves p (ctx2, k2) p' (ctx', k')" by blast
  obtain ms where "ring_items p' = s # rest @ ms" using t(3) it by (auto simp: reader_moves_def)
  note rel = async_release [OF t(2) this ne]
  obtain cs where c: "consumes cs k2 k'" "queued p' = queued p @ cs" using t(3) by (auto simp: reader_moves_def)
  note cd = consumesD [OF c(1)]
  have "avail (async_eff p k) = queued p @ avail k" using inv1 by (simp add: async_inv_def)
  also have "\<dots> = (queued p @ cs) @ avail k'" using e(8) cd(1) by simp
  also have "\<dots> = slot_data s @ queued (ring_release p') @ avail k'" using rel c(2) by simp
  finally have av: "avail (async_eff p k) = slot_data s @ avail (async_eff (ring_release p') k')"
    using rel by (simp add: async_inv_def)
  have "moves (slot_data s) (async_eff p k) (async_eff (ring_release p') k')"
    using av e cd by (simp add: moves_def async_eff_frame input_same_def)
  moreover have "r_records_limit (ring_release p') = r_records_limit p" using t(3) by (simp add: reader_moves_def ring_release_def)
  ultimately show ?thesis using t(1) rel reader_moves_ctx [OF t(3)] reader_moves_carried [OF t(3)] c2 by (intro exI [of _ p'] exI [of _ ctx'] exI [of _ k']) simp
qed

definition async_good :: "'h hash_api \<Rightarrow> async_pipeline \<Rightarrow> 'h st \<Rightarrow> (async_pipeline, 'h) step_out option \<Rightarrow> bool" where
  "async_good H p w out \<longleftrightarrow> out \<noteq> None \<and> (\<forall>r. out = Some r \<longrightarrow> \<not> fallback r \<and>
     (\<exists>wb. async_inv (cfg (fst (world r))) (iread_fnc (fst (world r))) wb (dstate r) (snd (world r))) \<and>
     oc (fst (world r)) = oc (fst w) \<and>
     (rc r = EXIT_SUCCESS \<longrightarrow> async_ready (dstate r) (world r) \<and> cfg (fst (world r)) = cfg (fst w) \<and>
      r_records_limit (dstate r) = r_records_limit p \<and>
      (\<exists>bs. moves bs (async_eff p (snd w)) (async_eff (dstate r) (snd (world r))) \<and>
        w_bytes (stats (fst (world r))) = w_bytes (stats (fst w)) + int (length bs) \<and>
        carried H bs w (world r) \<and>
        (bs = [] \<longrightarrow> eof r) \<and> (eof r \<longrightarrow> bs = [] \<and> async_stop (dstate r) (world r)))))"

lemma async_good_fail:
  assumes "async_inv c full wb p' k'" "same_io k' (snd w')" "cfg (fst w') = c" "iread_fnc (fst w') = full"
    "oc (fst w') = oc (fst w)"
  shows "async_good H p w (done_fail p' w')"
proof -
  have "async_inv c full wb p' (snd w')" by (rule async_inv_kern [OF assms(1)]) (use same_ioD [OF assms(2)] in simp_all)
  then show ?thesis using assms(3-5) by (auto simp: async_good_def done_fail_def)
qed

lemma async_good_ready:
  assumes "async_ready p' w'" "cfg (fst w') = cfg (fst w)" "moves bs (async_eff p (snd w)) (async_eff p' (snd w'))"
    "w_bytes (stats (fst w')) = w_bytes (stats (fst w)) + int (length bs)" "carried H bs w w'" "r_records_limit p' = r_records_limit p"
  shows "bs \<noteq> [] \<Longrightarrow> async_good H p w (done_ok p' w')" "bs = [] \<Longrightarrow> async_stop p' w' \<Longrightarrow> async_good H p w (done_eof p' w')"
proof -
  have "\<exists>wb. async_inv (cfg (fst w')) (iread_fnc (fst w')) wb p' (snd w')" "oc (fst w') = oc (fst w)"
    using assms(1,5) by (auto simp: async_ready_def carried_def)
  then show "bs \<noteq> [] \<Longrightarrow> async_good H p w (done_ok p' w')" "bs = [] \<Longrightarrow> async_stop p' w' \<Longrightarrow> async_good H p w (done_eof p' w')"
    using assms by (auto simp: async_good_def done_defs)
qed

lemma async_step_good:
  assumes rdy: "async_ready p w"
  shows "async_good H p w (async_driver_step H p w)"
proof -
  obtain ctx k where w: "w = (ctx, k)" by fastforce
  let ?wb = "w_bytes (stats ctx)"
  have inv: "async_inv (cfg ctx) (iread_fnc ctx) ?wb p k" and sp: "sparse_ok (cfg ctx) k"
    using rdy by (simp_all add: async_ready_def w)
  obtain p1 c1 k1 s rest where f: "Option.bind (reader_turn 0 p (ctx, k)) (\<lambda>(p, w). async_wait 4 p w) = Some (p1, c1, k1)"
    "async_inv (cfg ctx) (iread_fnc ctx) ?wb p1 k1" "reader_moves p (ctx, k) p1 (c1, k1)"
    "ring_items p1 = s # rest" "slots p1 ! head p1 = s" "count p1 \<noteq> 0"
    using async_front [OF inv] .
  note g = reader_moves_ctx [OF f(3)]
  have rl: "r_records_limit p1 = r_records_limit p" using f(3) by (simp add: reader_moves_def)
  have mv: "moves [] (async_eff p k) (async_eff p1 k1)"
    using reader_moves_eff [OF f(3)] inv by (simp add: async_inv_def)
  have sp1: "sparse_ok (cfg c1) k1" using f(3) sp g(1) sparse_ok_consumes by (auto simp: reader_moves_def)
  have m1: "marks_ok (cfg ctx) p1 k1" using f(2) by (simp add: async_inv_def)
  show ?thesis
  proof (cases "is_eof s")
    case True
    show ?thesis
    proof (cases "slot_err s = 0")
      case False
      then have out: "async_driver_step H p w = done_fail p1 (dd_diagnose (slot_err s) ''error reading'' (c1, k1))"
        using f True by (simp add: w async_driver_step_def Let_def)
      obtain c5 k5 where dg: "dd_diagnose (slot_err s) ''error reading'' (c1, k1) = (c5, k5)" by fastforce
      have q: "same_data c1 c5" "same_io k1 k5"
        using quiet_dd_diagnose [of "(c1, k1)" "slot_err s" "''error reading''"] dg by (simp_all add: quiet_step_def)
      show ?thesis
        unfolding out dg by (rule async_good_fail [OF f(2)])
          (use q(2) g same_dataD [OF q(1)] reader_moves_carried [OF f(3)] in \<open>simp_all add: w\<close>)
    next
      case e0: True
      have pd: "\<exists>tl. pend p1 = s # tl" using f(4) by (simp add: pend_def)
      then have pd1: "pend p1 = [s]" using m1 True by (auto simp: marks_ok_def split: if_splits)
      then have "queued p1 = []" "limits_hit (cfg ctx) p1 k1"
        using m1 True e0 by (auto simp: marks_ok_def queued_def slot_ok_def slot_data_def)
      then have "async_stop p1 (c1, k1)" using g by (simp add: async_stop_def)
      moreover have "async_ready p1 (c1, k1)" using f(2) g sp1 by (simp add: async_ready_def)
      moreover have "async_driver_step H p w = done_eof p1 (c1, k1)" using f True e0 by (simp add: w async_driver_step_def Let_def)
      moreover have "carried H [] (ctx, k) (c1, k1)"
        by (rule carried_Nil) (use reader_moves_carried [OF f(3)] in simp_all)
      ultimately show ?thesis using mv g rl async_good_ready(2) [of p1 "(c1, k1)" w "[]" p H] by (simp add: w)
    qed
  next
    case False
    define c1' where "c1' = (if int (as_nread s) = bsize c1
                            then c1\<lparr>stats := (stats c1)\<lparr>r_full := r_full (stats c1) + 1\<rparr>\<rparr>
                            else c1\<lparr>stats := (stats c1)\<lparr>r_partial := r_partial (stats c1) + 1\<rparr>\<rparr>)"
    have c1': "cfg c1' = cfg ctx" "iread_fnc c1' = iread_fnc ctx" "w_bytes (stats c1') = ?wb" using g by (simp_all add: c1'_def)
    obtain n c2 k2 where wr: "dd_iwrite H (slot_data s) (c1', k1) = (n, c2, k2)" by (cases "dd_iwrite H (slot_data s) (c1', k1)")
    have "sparse_ok (cfg c1') k1" using sp1 g c1' by simp
    note d = dd_iwrite_contract [OF wr this] and wd = wroteD [OF dd_iwrite_contract(3) [OF wr this]]
    have out: "async_driver_step H p w =
      (if n \<noteq> as_nread s
       then (case dd_diagnose (errno k2) ''error writing'' (c2\<lparr>stats := (stats c2)\<lparr>w_bytes := w_bytes (stats c2) + int n\<rparr>\<rparr>, k2) of
               (ctx, k) \<Rightarrow> done_fail p1 (if n \<noteq> 0 then ctx\<lparr>stats := (stats ctx)\<lparr>w_partial := w_partial (stats ctx) + 1\<rparr>\<rparr> else ctx, k))
       else (case reader_turn 0 p1 (c2\<lparr>stats := (stats c2)\<lparr>w_bytes := w_bytes (stats c2) + int n, w_full := w_full (stats c2) + 1\<rparr>\<rparr>, k2) of
               None \<Rightarrow> None
             | Some (p, w) \<Rightarrow> done_ok (ring_release p) w))"
      using f False wr by (simp add: w async_driver_step_def Let_def slot_data_def c1'_def)
    show ?thesis
    proof (cases "n = as_nread s")
      case False
      have k2: "async_inv (cfg ctx) (iread_fnc ctx) ?wb p1 k2"
        by (rule async_inv_kern [OF f(2)]) (use extendsD(6) [OF d(2)] in \<open>simp_all add: input_same_def\<close>)
      let ?c = "c2\<lparr>stats := (stats c2)\<lparr>w_bytes := w_bytes (stats c2) + int n\<rparr>\<rparr>"
      obtain c5 k5 where dg: "dd_diagnose (errno k2) ''error writing'' (?c, k2) = (c5, k5)" by fastforce
      have q: "same_data ?c c5" "same_io k2 k5"
        using quiet_dd_diagnose [of "(?c, k2)" "errno k2" "''error writing''"] dg by (simp_all add: quiet_step_def)
      have "cfg c5 = cfg ctx" "iread_fnc c5 = iread_fnc ctx" "oc c5 = oc ctx"
        using same_dataD [OF q(1)] wd c1' reader_moves_carried [OF f(3)] by (simp_all add: c1'_def)
      then show ?thesis
        using False q(2) by (simp add: out dg) (intro conjI impI async_good_fail [OF k2]; simp add: w)
    next
      case True
      let ?c3 = "c2\<lparr>stats := (stats c2)\<lparr>w_bytes := w_bytes (stats c2) + int n, w_full := w_full (stats c2) + 1\<rparr>\<rparr>"
      have "slot_data s = take n (slot_data s)" by (simp add: slot_data_def True)
      then have ext: "extends (slot_data s) k1 k2" using d(2) by simp
      obtain p' c4 k4 where t: "reader_turn 0 p1 (?c3, k2) = Some (p', c4, k4)"
        "async_inv (cfg ctx) (iread_fnc ctx) (?wb + int (as_nread s)) (ring_release p') k4"
        "moves (slot_data s) (async_eff p1 k1) (async_eff (ring_release p') k4)" "stats c4 = stats ?c3" "cfg c4 = cfg ?c3"
        "iread_fnc c4 = iread_fnc ?c3" "length (slot_data s) = as_nread s" "as_nread s \<noteq> 0"
        "digest c4 = digest ?c3" "oc c4 = oc ?c3" "hole_ok (c4, k4) = hole_ok (?c3, k2)"
        "r_records_limit (ring_release p') = r_records_limit p"
        using rl async_wrote [OF f(2,4) False ext, of ?c3] wd c1' by auto
      have c4: "cfg c4 = cfg ctx" "iread_fnc c4 = iread_fnc ctx" "w_bytes (stats c4) = ?wb + int (as_nread s)"
        using t(4-6) wd c1' True by simp_all
      have mvs: "moves (slot_data s) (async_eff p k) (async_eff (ring_release p') k4)"
        using moves_trans [OF mv t(3)] by simp
      have "sparse_ok (cfg c4) k4"
        using sp sparse_ok_moves [OF _ mvs] c4(1) by (simp add: sparse_ok_def async_eff_frame)
      then have "async_ready (ring_release p') (c4, k4)" using t(2) c4 by (simp add: async_ready_def)
      moreover have ne: "slot_data s \<noteq> []" using t(7,8) by auto
      moreover have "carried H (slot_data s) (ctx, k) (c4, k4)"
      proof (rule carried_write)
        have "digest c1' = digest ctx" using reader_moves_carried [OF f(3)] by (simp add: c1'_def digest_upd)
        then have "digest (hash_feed H (slot_data s) c1') = digest (hash_feed H (slot_data s) ctx)"
          by (rule digest_feed) (simp add: c1')
        then show "digest c4 = digest (hash_feed H (slot_data s) ctx)"
          using t(9) wrote_digest [OF d(3)] by (simp add: digest_upd)
        show "oc c4 = oc ctx" using t(10) wd reader_moves_carried [OF f(3)] by (simp add: c1'_def)
        have "n = length (slot_data s)" using True t(7) by simp
        then show "hole_ok (c4, k4)"
          using t(11) dd_iwrite_hole [of H "slot_data s" c1' k1 c2 k2] wr sp1 g c1' ne hole_ok_cong [of ?c3 c2 k2] by simp
      qed (simp add: c4)
      moreover have "async_driver_step H p w = done_ok (ring_release p') (c4, k4)" using t(1) True by (simp add: out)
      ultimately show ?thesis
        using mvs c4 t(7,12) async_good_ready(1) [of "ring_release p'" "(c4, k4)" w "slot_data s" p H] by (simp add: w)
    qed
  qed
qed

interpretation async: io_driver "async_driver_step H" async_ready async_stop "\<lambda>p w. async_eff p (snd w)" async_left
    "\<lambda>d w. w_bytes (stats (fst w))"
  for H :: "'h hash_api"
proof (unfold_locales, goal_cases)
  case (3 d w r)
  then obtain bs where "moves bs (async_eff d (snd w)) (async_eff (dstate r) (snd (world r)))" "bs \<noteq> []"
    using async_step_good [OF 3(1), of H] unfolding async_good_def by blast
  then show ?case using movesD(1) by (fastforce simp: async_left_def)
qed (use async_step_good [where H = H] in \<open>unfold async_good_def, blast\<close>)+

section \<open>From init to the end\<close>

lemma shrink_capacity_cases:
  "case shrink_capacity fits c of None \<Rightarrow> 2 \<le> c \<longrightarrow> \<not> fits 2 | Some d \<Rightarrow> d \<le> c \<and> fits d \<and> (2 \<le> c \<longrightarrow> 2 \<le> d)"
proof (induction fits c rule: shrink_capacity.induct)
  case (1 fits c)
  show ?case
  proof (cases "fits c \<or> \<not> 2 < c")
    case True
    then show ?thesis by (subst shrink_capacity.simps) (auto simp: le_less)
  next
    case False
    let ?h = "if c div 2 < 2 then 2 else c div 2"
    have "shrink_capacity fits c = shrink_capacity fits ?h" using False by (subst shrink_capacity.simps) simp
    moreover have "?h \<le> c" "2 \<le> ?h" using False by auto
    ultimately show ?thesis using 1 False by (fastforce split: option.splits)
  qed
qed

lemma choose_capacity_bounds: "2 \<le> choose_capacity c \<and> choose_capacity c \<le> 1024"
  by (auto simp: choose_capacity_def Let_def)

text \<open>
  The depth of the ring is between 2 and 1024 slots whatever \<open>--queue-depth\<close> and the block size say,
  never more than was chosen, and a depth that could be allocated; the program gives up for want of memory
  only when not even two slots fit.
\<close>

theorem async_capacity_bounds:
  "case shrink_capacity fits (choose_capacity c) of
     None \<Rightarrow> \<not> fits 2
   | Some d \<Rightarrow> 2 \<le> d \<and> d \<le> choose_capacity c \<and> choose_capacity c \<le> 1024 \<and> fits d"
  using shrink_capacity_cases [where fits = fits and c = "choose_capacity c"] choose_capacity_bounds [of c] by (auto split: option.splits)

text \<open>
  C29: the ring buffer is a bounded queue: in any history of publishing and releasing in which the reader
  publishes only when there is room and the writer releases only what is there, the slots released and
  then those still in the ring are the slots that were in it and then those published, in order.
\<close>

theorem ring_buffer_fifo:
  assumes "ring_inv p" "ring.history hs p = Some (out, q)"
  shows "ring_inv q \<and> out @ ring_items q = ring_items p @ puts_of hs"
  by (rule ring.fifo [OF assms])

definition slot1 :: "byte \<Rightarrow> async_slot" where
  "slot1 b = \<lparr>as_buf = [b], as_nread = 1, is_eof = False, slot_err = 0\<rparr>"

definition pipe2 :: async_pipeline where
  "pipe2 = \<lparr>slots = [slot1 0, slot1 0], capacity = 2, head = 0, tail = 0, count = 0, reader_stalls = 0, writer_stalls = 0,
     stop_requested = False, reader_done = False, reader_exit = 0, r_records_limit = 9, r_bytes_limit = 0, r_records_done = 0,
     total_bytes_read = 0, rpc = R_WAIT\<rparr>"

lemma ring_buffer_fifo_witness:
  "case ring.history [Some (slot1 1), Some (slot1 2), None, Some (slot1 3), None] pipe2 of
     None \<Rightarrow> False
   | Some (out, q) \<Rightarrow> out @ ring_items q = [slot1 1, slot1 2, slot1 3] \<and> tail q = 1"
proof -
  let ?hs = "[Some (slot1 1), Some (slot1 2), None, Some (slot1 3), None]"
  have "map_option (\<lambda>(out, q). tail q) (ring.history ?hs pipe2) = Some 1"
    unfolding ring.history.simps
    by (simp add: pipe2_def ring_room_def ring_publish_def ring_release_def set_slot_def ring_items_def)
  then obtain out q where h: "ring.history ?hs pipe2 = Some (out, q)" and t: "tail q = 1" by auto
  have "ring_inv pipe2" "ring_items pipe2 = []" by (simp_all add: ring_inv_def pipe2_def ring_items_def)
  with ring_buffer_fifo [OF _ h] t show ?thesis unfolding h option.case prod.case by simp
qed

lemma dd_alloc_obuf_frame:
  "cfg (dd_alloc_obuf k ctx) = cfg ctx" "stats (dd_alloc_obuf k ctx) = stats ctx" "iread_fnc (dd_alloc_obuf k ctx) = iread_fnc ctx"
  by (simp_all add: dd_alloc_obuf_def)

lemma async_init_ready:
  assumes init: "async_driver_init (ctx, k) = InitOk p w0"
    and c: "w_bytes (stats ctx) = 0" "0 < bsize ctx" "0 \<le> max_bytes (cfg ctx)" "max_bytes (cfg ctx) \<le> bsize ctx"
    and k: "sparse_ok (cfg ctx) k" "read_clean (iread_fnc ctx) k"
  shows "async_ready p w0 \<and> queued p = [] \<and> same_io k (snd w0) \<and> cfg (fst w0) = cfg ctx \<and> w_bytes (stats (fst w0)) = 0 \<and>
    r_records_limit p = max_records (cfg ctx)"
proof -
  obtain cap where cap: "shrink_capacity (mem_fits (plat k)) (choose_capacity (cfg ctx)) = Some cap"
    using init by (cases "shrink_capacity (mem_fits (plat k)) (choose_capacity (cfg ctx))") (auto simp: async_driver_init_def)
  obtain e k1 where e: "next_err k = (e, k1)" by fastforce
  note f = next_err_frame [OF e]
  let ?c = "dd_alloc_obuf k (ctx\<lparr>stats := (stats ctx)\<lparr>dd_stats.async_capacity := int cap\<rparr>\<rparr>)"
  have c0: "2 \<le> cap" using async_capacity_bounds [of "mem_fits (plat k)" "cfg ctx"] cap by simp
  have w0: "w0 = (?c, k1)" and p: "p = \<lparr>slots = replicate cap \<lparr>as_buf = alignalloc (bs_nat ctx) k1, as_nread = 0, is_eof = False, slot_err = 0\<rparr>,
                   capacity = cap, head = 0, tail = 0, count = 0, reader_stalls = 0, writer_stalls = 0,
                   stop_requested = False, reader_done = False, reader_exit = 0,
                   r_records_limit = max_records (cfg ctx), r_bytes_limit = max_bytes (cfg ctx), r_records_done = 0,
                   total_bytes_read = 0, rpc = R_WAIT\<rparr>"
    using init by (auto simp: async_driver_init_def cap e Let_def dd_alloc_obuf_frame split: if_splits)
  have g: "cfg ?c = cfg ctx" "iread_fnc ?c = iread_fnc ctx" "w_bytes (stats ?c) = 0" using c(1) by (simp_all add: dd_alloc_obuf_frame)
  have pd: "pend p = []" "queued p = []" "ring_inv p" using c0 by (simp_all add: pend_def p ring_items_def queued_def ring_inv_def)
  have sp: "sparse_ok (cfg ctx) k1" using sparse_ok_consumes [OF k(1) consumes_same_io [OF f]] .
  have rc: "read_clean (iread_fnc ctx) k1" using k(2) same_ioD(5) [OF f] by (simp add: read_clean_def)
  have "async_inv (cfg ctx) (iread_fnc ctx) 0 p k1"
    using c pd rc by (simp add: async_inv_def marks_ok_def async_eff_def) (simp add: p list_all_length)
  then have "async_ready p (?c, k1)" using g sp by (simp add: async_ready_def)
  moreover have "r_records_limit p = max_records (cfg ctx)" by (simp add: p)
  ultimately show ?thesis using f g pd by (simp add: w0)
qed


text \<open>
  C25: the threaded pipeline delivers the input in order and loses nothing, however the scheduler
  interleaves reader and writer: from \<open>init\<close> to the end, the target's view grows by exactly the bytes that
  left the source, they are counted, and the end is the end of the input or a limit. It needs at most one
  step per byte: no step waits for ever or leaves a buffer. None of this depends on the conversions asked
  for: with \<open>--swab\<close> too the bytes go out as they came in.
\<close>

theorem async_driver_copies:
  assumes init: "async_driver_init (ctx, k) = InitOk p w0"
    and c: "w_bytes (stats ctx) = 0" "0 < bsize ctx" "0 \<le> max_bytes (cfg ctx)" "max_bytes (cfg ctx) \<le> bsize ctx"
    and k: "sparse_ok (cfg ctx) k" "read_clean (iread_fnc ctx) k"
    and run: "async.steps H n p w0 = Some r" "rc r = EXIT_SUCCESS"
  shows "(\<exists>bs. avail k = bs @ avail (snd (world r)) \<and> view (snd (world r)) = view k @ bs \<and>
            w_bytes (stats (fst (world r))) = int (length bs)) \<and>
         limits_hit (cfg (fst (world r))) (dstate r) (snd (world r)) \<and>
         async.steps H (Suc (length (avail k))) p w0 \<noteq> None"
proof -
  note i = async_init_ready [OF init c k]
  have av: "avail (async_eff p (snd w0)) = avail k" "view (async_eff p (snd w0)) = view k"
    using i same_ioD(1) [of k "snd w0"] extendsD(1) [OF extends_same_io, of k "snd w0"]
    by (simp_all add: async_eff_def)
  have fb: "\<not> fallback r"
    by (rule async.steps_no_fallback [OF _ _ run(1)]) (use i async_step_good [where H = H] in \<open>auto simp: async_good_def\<close>)
  from async.steps_moves [OF _ run fb] i
  obtain bs where bs: "moves bs (async_eff p (snd w0)) (async_eff (dstate r) (snd (world r)))"
      "w_bytes (stats (fst (world r))) = int (length bs)" "async_stop (dstate r) (world r)"
    by auto
  have "async_eff (dstate r) (snd (world r)) = snd (world r)" using bs(3) by (simp add: async_eff_def async_stop_def)
  then have "avail k = bs @ avail (snd (world r))" "view (snd (world r)) = view k @ bs"
    using movesD(1,2) [OF bs(1)] av by simp_all
  moreover have "async.steps H (Suc (length (avail k))) p w0 \<noteq> None"
    by (rule async.steps_end) (use i av in \<open>simp_all add: async_left_def\<close>)
  ultimately show ?thesis using bs(2,3) by (auto simp: async_stop_def)
qed


text \<open>Joining the reader.\<close>

lemma async_fill_stop:
  "async_fill (p\<lparr>stop_requested := b\<rparr>) w = map_option (\<lambda>(s, p, w). (s, p\<lparr>stop_requested := b\<rparr>, w)) (async_fill p w)"
  by (cases w) (auto simp: async_fill_def Let_def reader_limit_hit_def split: sum.split prod.split)

lemma async_join:
  assumes inv: "async_inv (cfg ctx) (iread_fnc ctx) wb p k"
  shows "\<exists>p' w'. reader_steps 4 (p\<lparr>stop_requested := True\<rparr>) (ctx, k) = Some (p', w') \<and> rpc p' = R_EXIT \<and> reader_done p'"
proof -
  have four: "reader_steps 4 q w = reader_steps (Suc (Suc (Suc (Suc 0)))) q w" for q and w :: "'a st" by (simp add: eval_nat_numeral)
  have d: "reader_done p \<longleftrightarrow> rpc p = R_EXIT" using inv by (simp add: async_inv_def)
  show ?thesis
  proof (cases "rpc p")
    case R_FILL
    from async_fill_cases [OF inv R_FILL] obtain s p1 i k' where
      "async_fill p (ctx, k) = Some (s, p1, ctx\<lparr>input_offset := i\<rparr>, k')" by metis
    then show ?thesis using R_FILL
      by (simp add: four reader_step_def async_fill_stop set_slot_def ring_publish_def)
  qed (use d in \<open>auto simp: four reader_step_def ring_publish_def\<close>)
qed

text \<open>The reader, stopping or not, does not touch the target, the hashers or the counters.\<close>

definition reader_frame :: "'h st \<Rightarrow> 'h st \<Rightarrow> bool" where
  "reader_frame w w' \<longleftrightarrow> digest (fst w') = digest (fst w) \<and> cfg (fst w') = cfg (fst w) \<and> oc (fst w') = oc (fst w) \<and>
     final_op_was_seek (fst w') = final_op_was_seek (fst w) \<and> w_bytes (stats (fst w')) = w_bytes (stats (fst w)) \<and>
     r_partial (stats (fst w')) = r_partial (stats (fst w)) \<and> r_full (stats (fst w')) = r_full (stats (fst w)) \<and>
     out_data (snd w') = out_data (snd w) \<and> out_off (snd w') = out_off (snd w) \<and> out_fl (snd w') = out_fl (snd w)"

lemma reader_frame_trans: "reader_frame a b \<Longrightarrow> reader_frame b c \<Longrightarrow> reader_frame a c"
  by (simp add: reader_frame_def)

lemma reader_step_frame:
  assumes "reader_step p w = Some (p', w')"
  shows "reader_frame w w'"
proof (cases "rpc p = R_FILL")
  case True
  obtain ctx k where w: "w = (ctx, k)" by fastforce
  obtain s p1 where f: "async_fill p w = Some (s, p1, w')" using assms True by (auto simp: reader_step_def split: option.splits)
  have frame: "reader_frame (ctx, k) (dd_advance_input_offset n ctx, k')" "reader_frame (ctx, k) (ctx, k')" if "consumes bs k k'" for n k' bs
    using that advance_upd [of n ctx] by (auto simp: reader_frame_def consumes_def digest_upd)
  obtain r k1 where rd: "iread ctx STDIN_FILENO
      (nat (let to_read = (if r_records_limit p \<le> r_records_done p then r_bytes_limit p else bsize ctx)
       in if 0 \<le> bytes_to_copy (cfg ctx) \<and> bytes_to_copy (cfg ctx) - total_bytes_read p < to_read
          then bytes_to_copy (cfg ctx) - total_bytes_read p else to_read)) k = (r, k1)" by fastforce
  have fw: "w' = w \<or> w' = (ctx, k1) \<or> (\<exists>n. w' = (dd_advance_input_offset n ctx, k1))"
    using f rd by (auto simp: w async_fill_def Let_def split: if_splits sum.splits)
  obtain bs where "consumes bs k k1" using iread_consumes [OF rd] by blast
  then show ?thesis using frame fw by (auto simp: w reader_frame_def)
qed (use assms in \<open>auto simp: reader_step_def reader_frame_def split: reader_pc.splits if_splits\<close>)

lemma reader_steps_frame: "reader_steps n p w = Some (p', w') \<Longrightarrow> reader_frame w w'"
  by (induction n arbitrary: p w) (auto simp: reader_frame_def dest!: reader_step_frame split: option.splits)

lemma async_cleanup_inv:
  assumes "async_inv (cfg ctx) (iread_fnc ctx) wb p k"
  obtains p' w' where "async_driver_cleanup p (ctx, k) = Some (p', w')" "rpc p' = R_EXIT" "reader_done p'" "reader_frame (ctx, k) w'"
proof -
  from reader_turn_inv [OF assms, of 0] obtain p1 c1 k1 where t: "reader_turn 0 p (ctx, k) = Some (p1, c1, k1)"
    "async_inv (cfg ctx) (iread_fnc ctx) wb p1 k1" "reader_moves p (ctx, k) p1 (c1, k1)" by blast
  have "async_inv (cfg (async_stalls p1 c1)) (iread_fnc (async_stalls p1 c1)) wb p1 k1"
    using t(2) reader_moves_ctx [OF t(3)] by (simp add: async_stalls_def)
  from async_join [OF this] obtain p' w' where j: "reader_steps 4 (p1\<lparr>stop_requested := True\<rparr>) (async_stalls p1 c1, k1) = Some (p', w')"
    "rpc p' = R_EXIT" "reader_done p'" by blast
  have "reader_frame (ctx, k) (async_stalls p1 c1, k1)"
    using reader_moves_carried [OF t(3)] reader_moves_ctx [OF t(3)] by (simp add: reader_frame_def async_stalls_def digest_upd)
  then show thesis using that [OF _ j(2,3)] t(1) j(1) reader_frame_trans [OF _ reader_steps_frame [OF j(1)]]
    by (simp add: async_driver_cleanup_def)
qed

lemma async_cleanup_ok:
  assumes "async_ready p w"
  obtains p' w' where "async_driver_cleanup p w = Some (p', w')" "rpc p' = R_EXIT" "reader_done p'" "reader_frame w w'"
proof -
  obtain ctx k where w: "w = (ctx, k)" by fastforce
  have "async_inv (cfg ctx) (iread_fnc ctx) (w_bytes (stats ctx)) p k" using assms by (simp add: async_ready_def w)
  from async_cleanup_inv [OF this] show thesis using that unfolding w by blast
qed


lemma async_init_example:
  assumes "mem_fits (plat k) (choose_capacity (cfg ctx))" "err_ans (plat k) = []"
  shows "\<exists>p w0. async_driver_init (ctx, k) = InitOk p w0"
  using assms by (simp add: async_driver_init_def shrink_capacity.simps [of "mem_fits (plat k)"] next_err_def Let_def)

definition async_ctx :: "byte list dd_context" where
  "async_ctx = ctx0 [] 0 (dd_init_default_config\<lparr>blocksize := 2, async_queue_depth := 2, conversions_mask := C_SWAB\<rparr>)"

lemma async_ctx_ok:
  "w_bytes (stats async_ctx) = 0" "0 < bsize async_ctx" "0 \<le> max_bytes (cfg async_ctx)" "max_bytes (cfg async_ctx) \<le> bsize async_ctx"
  "sparse_ok (cfg async_ctx) (file_to_file bs)" "read_clean (iread_fnc async_ctx) (file_to_file bs)"
  by (simp_all add: async_ctx_def ctx0_def stats0_def dd_init_default_config_def sparse_ok_def conv_def any_set_def cfg_simps
      read_clean_def file_to_file_def)


lemma numeral_Suc_4: "(4 :: nat) = Suc (Suc (Suc (Suc 0)))" "(2 :: nat) = Suc (Suc 0)" by simp_all

lemmas async_eval = io_eval async_driver_init_def choose_capacity_def shrink_capacity.simps next_err_def plat0_def async_ctx_def
  async_driver_step_def reader_turn_def next_turn_def reader_step_def async_fill_def reader_limit_hit_def set_slot_def
  ring_publish_def ring_release_def eof_slot_def numeral_Suc_4

lemma async_run_example:
  "case async_driver_init (async_ctx, file_to_file [7]) of
     InitOk p w0 \<Rightarrow>
       (case async.steps list_hash (Suc (Suc 0)) p w0 of None \<Rightarrow> False | Some r \<Rightarrow> rc r = EXIT_SUCCESS)
   | _ \<Rightarrow> False"
  by (simp add: async_eval async.steps.simps)

lemma async_driver_copies_witness:
  "case async_driver_init (async_ctx, file_to_file [7]) of
     InitOk p w0 \<Rightarrow>
       (case async.steps list_hash (Suc (Suc 0)) p w0 of
          None \<Rightarrow> False
        | Some r \<Rightarrow> \<exists>bs. [7] = bs @ avail (snd (world r)) \<and> view (snd (world r)) = bs)
   | _ \<Rightarrow> False"
proof -
  obtain p w0 r where i: "async_driver_init (async_ctx, file_to_file [7]) = InitOk p w0"
    and r: "async.steps list_hash (Suc (Suc 0)) p w0 = Some r" "rc r = EXIT_SUCCESS"
    using async_run_example by (auto split: init_out.splits option.splits)
  have "avail (file_to_file [7]) = [7]" "view (file_to_file [7]) = []"
    by (simp_all add: file_to_file_def avail_def view_def out_pos_def any_set_def cfg_simps)
  with conjunct1 [OF async_driver_copies [OF i async_ctx_ok r]]
  show ?thesis unfolding i init_out.case r(1) option.case by auto
qed

end
