(* ===== verification/UringShards.thy ===== *)
theory UringShards
  imports Driver
begin

text \<open>
  The multi-ring mode of \<open>src/src/io_uring.c\<close>: worker threads claim chunks of the source with an atomic
  counter and copy them with positioned reads and writes, each through a ring of its own. A micro-step of
  a worker is one request or one update of the shared counters; the threads interleave freely.

  The submission queue of a worker has 32 entries and at most one request is outstanding, so
  \<open>io_uring_get_sqe\<close> always gives an entry. The answer to a request stands for the result of its
  submission, the wait and the completion.
\<close>

section \<open>Positioned reads and writes\<close>

text \<open>\<open>io_uring_prep_read\<close> and \<open>io_uring_prep_write\<close> at an offset leave the descriptor's own offset alone.\<close>

definition pread :: "nat \<Rightarrow> nat \<Rightarrow> kern \<Rightarrow> (int + byte list) \<times> kern" where
  "pread pos n k = (case sys_read0 n (k\<lparr>in_off := pos\<rparr>) of (r, k') \<Rightarrow> (r, k'\<lparr>in_off := in_off k\<rparr>))"

definition pwrite :: "nat \<Rightarrow> byte list \<Rightarrow> kern \<Rightarrow> (int + nat) \<times> kern" where
  "pwrite pos bs k = (case sys_write bs (k\<lparr>out_off := pos\<rparr>) of (r, k') \<Rightarrow> (r, k'\<lparr>out_off := out_off k\<rparr>))"

section \<open>The workers\<close>

text \<open>
  Where a worker stands: about to claim a chunk; in the chunk at \<open>off\<close> of length \<open>len\<close>, with \<open>done\<close> of it
  copied, about to read; with \<open>bs\<close> read there and \<open>wr\<close> of it written; past its loop; gone.
\<close>

datatype shard_pc =
  SW_CLAIM
| SW_READ nat nat nat
| SW_WRITE nat nat nat "byte list" nat
| SW_STOP
| SW_GONE

record uring_sharded_state =
  workers :: "shard_pc list"
  buf_capacity :: nat
  chunk_size :: nat
  total_bytes :: nat
  in_start_pos :: nat
  out_start_pos :: nat
  next_chunk_offset :: nat
  bytes_written :: nat
  records_full :: nat
  records_partial :: nat
  active_workers :: nat
  abort_requested :: bool
  error_code :: int

definition set_worker :: "nat \<Rightarrow> shard_pc \<Rightarrow> uring_sharded_state \<Rightarrow> uring_sharded_state" where
  "set_worker i pc s = s\<lparr>workers := (workers s)[i := pc]\<rparr>"

definition shard_abort :: "int \<Rightarrow> uring_sharded_state \<Rightarrow> uring_sharded_state" where
  "shard_abort e s = s\<lparr>abort_requested := True, error_code := e\<rparr>"

text \<open>A worker claims the next chunk, or leaves its loop when none is left or the transfer was aborted.\<close>

definition shard_claim :: "nat \<Rightarrow> uring_sharded_state \<Rightarrow> uring_sharded_state" where
  "shard_claim i s =
     (if abort_requested s then set_worker i SW_STOP s
      else
        let chunk_offset = next_chunk_offset s;
            s = s\<lparr>next_chunk_offset := chunk_offset + chunk_size s\<rparr>
        in if total_bytes s \<le> chunk_offset then set_worker i SW_STOP s
           else
             let chunk_len = (if total_bytes s < chunk_offset + chunk_size s then total_bytes s - chunk_offset
                              else chunk_size s)
             in set_worker i (SW_READ chunk_offset chunk_len 0) s)"

definition cur_len :: "uring_sharded_state \<Rightarrow> nat \<Rightarrow> nat \<Rightarrow> nat" where
  "cur_len s len chunk_done = (if len < chunk_done + buf_capacity s then len - chunk_done else buf_capacity s)"

text \<open>Reading the next block of the chunk. An end of file leaves the chunk without a word.\<close>

definition shard_read :: "nat \<Rightarrow> nat \<Rightarrow> nat \<Rightarrow> nat \<Rightarrow> uring_sharded_state \<Rightarrow> kern \<Rightarrow> uring_sharded_state \<times> kern" where
  "shard_read i off len chunk_done s k =
     (if \<not> chunk_done < len \<or> abort_requested s then (set_worker i SW_CLAIM s, k)
      else (case pread (in_start_pos s + (off + chunk_done)) (cur_len s len chunk_done) k of
              (Inl e, k) \<Rightarrow> (set_worker i SW_CLAIM (shard_abort e s), k)
            | (Inr bs, k) \<Rightarrow>
                (set_worker i (if bs = [] then SW_CLAIM else SW_WRITE off len chunk_done bs 0) s, k)))"

text \<open>Writing what was read, in as many requests as it takes; then on to the next block, unless the read was short.\<close>

definition shard_write ::
  "nat \<Rightarrow> nat \<Rightarrow> nat \<Rightarrow> nat \<Rightarrow> byte list \<Rightarrow> nat \<Rightarrow> uring_sharded_state \<Rightarrow> kern \<Rightarrow> uring_sharded_state \<times> kern" where
  "shard_write i off len chunk_done bs wr s k =
     (if \<not> wr < length bs
      then (set_worker i (if length bs < cur_len s len chunk_done then SW_CLAIM else SW_READ off len (chunk_done + length bs)) s, k)
      else if abort_requested s then (set_worker i SW_CLAIM s, k)
      else (case pwrite (out_start_pos s + (off + chunk_done) + wr) (drop wr bs) k of
              (Inl e, k) \<Rightarrow> (set_worker i SW_CLAIM (shard_abort e s), k)
            | (Inr n, k) \<Rightarrow>
                if n = 0 then (set_worker i SW_CLAIM s, k)
                else (set_worker i (SW_WRITE off len chunk_done bs (wr + n))
                        (s\<lparr>bytes_written := bytes_written s + n,
                           records_full := (if n = buf_capacity s then records_full s + 1 else records_full s),
                           records_partial := (if n = buf_capacity s then records_partial s else records_partial s + 1)\<rparr>), k)))"

definition worker_step :: "nat \<Rightarrow> uring_sharded_state \<Rightarrow> kern \<Rightarrow> uring_sharded_state \<times> kern" where
  "worker_step i s k =
     (case workers s ! i of
        SW_CLAIM \<Rightarrow> (shard_claim i s, k)
      | SW_READ off len chunk_done \<Rightarrow> shard_read i off len chunk_done s k
      | SW_WRITE off len chunk_done bs wr \<Rightarrow> shard_write i off len chunk_done bs wr s k
      | SW_STOP \<Rightarrow> (set_worker i SW_GONE (s\<lparr>active_workers := active_workers s - 1\<rparr>), k)
      | SW_GONE \<Rightarrow> (s, k))"

text \<open>The threads together: any worker that is still there may take the next micro-step.\<close>

inductive shard_step :: "uring_sharded_state \<times> kern \<Rightarrow> uring_sharded_state \<times> kern \<Rightarrow> bool" where
  step: "i < length (workers s) \<Longrightarrow> workers s ! i \<noteq> SW_GONE \<Longrightarrow> shard_step (s, k) (worker_step i s k)"

inductive_cases shard_stepE: "shard_step c c'"

inductive shard_run :: "uring_sharded_state \<times> kern \<Rightarrow> uring_sharded_state \<times> kern \<Rightarrow> bool" where
  here: "shard_run c c"
| more: "shard_run c c' \<Longrightarrow> shard_step c' c'' \<Longrightarrow> shard_run c c''"

section \<open>The pool\<close>

definition URING_DEFAULT_CHUNK_SIZE :: nat where "URING_DEFAULT_CHUNK_SIZE = 64 * 1024 * 1024"

text \<open>The chunk size for so many bytes, workers and a block size.\<close>

definition shard_chunk_size :: "nat \<Rightarrow> nat \<Rightarrow> nat \<Rightarrow> nat" where
  "shard_chunk_size tot num_workers bs =
     (let chunk = (if tot < URING_DEFAULT_CHUNK_SIZE * num_workers * 2
                   then (let c = tot div (num_workers * 2) in if c < bs then bs else c)
                   else URING_DEFAULT_CHUNK_SIZE);
          chunk = (chunk div bs) * bs
      in if chunk = 0 then bs else chunk)"

definition shard_workers :: "dd_config \<Rightarrow> nat" where
  "shard_workers c = (let n = (if threads c \<le> 0 then 1 else threads c) in nat (if 256 < n then 256 else n))"

definition shard_blocksize :: "dd_config \<Rightarrow> nat" where
  "shard_blocksize c = (if 0 < blocksize c then nat (blocksize c) else 1048576)"

definition shard_pool :: "dd_config \<Rightarrow> nat \<Rightarrow> nat \<Rightarrow> nat \<Rightarrow> uring_sharded_state" where
  "shard_pool c ipos opos tot =
     (let n = shard_workers c; bs = shard_blocksize c
      in \<lparr>workers = replicate n SW_CLAIM, buf_capacity = bs, chunk_size = shard_chunk_size tot n bs, total_bytes = tot,
          in_start_pos = ipos, out_start_pos = opos, next_chunk_offset = 0, bytes_written = 0, records_full = 0,
          records_partial = 0, active_workers = n, abort_requested = False, error_code = 0\<rparr>)"

text \<open>
  \<open>init_sharded_uring\<close>: one buffer and one ring per worker, then the threads, whose creation is taken to
  succeed. \<open>None\<close> is \<open>EXIT_FAILURE\<close>.
\<close>

fun shard_rings :: "nat \<Rightarrow> kern \<Rightarrow> int \<times> kern" where
  "shard_rings 0 k = (0, k)"
| "shard_rings (Suc n) k = (case next_err k of (e, k) \<Rightarrow> if e \<noteq> 0 then (e, k) else shard_rings n k)"

definition init_sharded_uring :: "nat \<Rightarrow> nat \<Rightarrow> nat \<Rightarrow> 'h st \<Rightarrow> uring_sharded_state option \<times> 'h st" where
  "init_sharded_uring ipos opos tot w =
     (case w of (ctx, k) \<Rightarrow>
        if \<not> mem_fits (plat k) (shard_workers (cfg ctx))
        then (None, dd_diagnose (errno k) ''io_uring sharding: failed to allocate aligned buffer for worker'' (ctx, k))
        else (case shard_rings (shard_workers (cfg ctx)) k of
                (e, k) \<Rightarrow>
                  if e \<noteq> 0 then (None, dd_diagnose e ''io_uring sharding: ring init failed for worker'' (ctx, k))
                  else (Some (shard_pool (cfg ctx) ipos opos tot), ctx, k)))"

section \<open>The main thread\<close>

text \<open>
  Each time the main thread has slept, the workers have got on: \<open>sched\<close> says by how many micro-steps and
  which worker takes each of them, a worker that is gone standing for the first that is not.
\<close>

definition pick_worker :: "nat \<Rightarrow> uring_sharded_state \<Rightarrow> nat" where
  "pick_worker m s =
     (if m < length (workers s) \<and> workers s ! m \<noteq> SW_GONE then m
      else length (takeWhile (\<lambda>pc. pc = SW_GONE) (workers s)))"

fun shard_turns :: "nat \<Rightarrow> uring_sharded_state \<Rightarrow> kern \<Rightarrow> uring_sharded_state \<times> kern" where
  "shard_turns 0 s k = (s, k)"
| "shard_turns (Suc n) s k =
     (case next_turn k of (m, k) \<Rightarrow>
        if pick_worker m s < length (workers s)
        then (case worker_step (pick_worker m s) s k of (s, k) \<Rightarrow> shard_turns n s k)
        else (s, k))"

definition uring_sharded_step ::
  "uring_sharded_state \<Rightarrow> 'h st \<Rightarrow> (uring_sharded_state, 'h) step_out option" where
  "uring_sharded_step sh w =
     (case w of (ctx, k) \<Rightarrow>
        (case next_turn k of (n, k) \<Rightarrow>
          (case shard_turns (Suc n) sh k of (sh, k) \<Rightarrow>
             let ctx = ctx\<lparr>stats := (stats ctx)\<lparr>w_bytes := int (bytes_written sh),
                         r_full := int (records_full sh), w_full := int (records_full sh),
                         r_partial := int (records_partial sh), w_partial := int (records_partial sh)\<rparr>\<rparr>
             in if abort_requested sh
                then done_fail sh
                       (if error_code sh \<noteq> 0 then dd_diagnose (error_code sh) ''io_uring sharding: transfer error'' (ctx, k)
                        else (ctx, k))
                else if active_workers sh = 0
                then done_eof sh (ctx, k\<lparr>in_off := in_start_pos sh + bytes_written sh,
                                         out_off := out_start_pos sh + bytes_written sh\<rparr>)
                else done_ok sh (ctx, k))))"

section \<open>The shards put every byte in its place\<close>

text \<open>What is left of the chunk a worker is in, and what a worker that is in a chunk knows.\<close>

fun region :: "shard_pc \<Rightarrow> nat set" where
  "region (SW_READ off len d) = {off + d..<off + len}"
| "region (SW_WRITE off len d bs wr) = {off + d + wr..<off + len}"
| "region _ = {}"

fun pc_ok :: "byte list \<Rightarrow> uring_sharded_state \<Rightarrow> shard_pc \<Rightarrow> bool" where
  "pc_ok src s (SW_READ off len d) \<longleftrightarrow> d \<le> len \<and> off + len \<le> min (next_chunk_offset s) (total_bytes s)"
| "pc_ok src s (SW_WRITE off len d bs wr) \<longleftrightarrow>
     d < len \<and> off + len \<le> min (next_chunk_offset s) (total_bytes s) \<and> wr \<le> length bs \<and>
     bs = take (cur_len s len d) (drop (in_start_pos s + (off + d)) src) \<and> length bs = cur_len s len d"
| "pc_ok src s SW_STOP \<longleftrightarrow> total_bytes s \<le> next_chunk_offset s"
| "pc_ok src s SW_GONE \<longleftrightarrow> total_bytes s \<le> next_chunk_offset s"
| "pc_ok src s SW_CLAIM \<longleftrightarrow> True"

definition left_over :: "shard_pc list \<Rightarrow> nat \<Rightarrow> bool" where
  "left_over ws x \<longleftrightarrow> (\<exists>j < length ws. x \<in> region (ws ! j))"

text \<open>The target: what has been claimed and is not left to do is in place, and nothing else has changed.\<close>

definition placed :: "byte list \<Rightarrow> byte list \<Rightarrow> uring_sharded_state \<Rightarrow> byte list \<Rightarrow> bool" where
  "placed src out0 s out \<longleftrightarrow>
     (\<forall>x < min (next_chunk_offset s) (total_bytes s). \<not> left_over (workers s) x \<longrightarrow>
        out_start_pos s + x < length out \<and> out ! (out_start_pos s + x) = src ! (in_start_pos s + x)) \<and>
     (\<forall>y < length out. y < out_start_pos s \<or> out_start_pos s + total_bytes s \<le> y \<longrightarrow>
        out ! y = (if y < length out0 then out0 ! y else 0)) \<and>
     length out0 \<le> length out \<and> length out \<le> max (length out0) (out_start_pos s + total_bytes s)"

definition disjoint_regions :: "shard_pc list \<Rightarrow> bool" where
  "disjoint_regions ws \<longleftrightarrow> (\<forall>i < length ws. \<forall>j < length ws. i \<noteq> j \<longrightarrow> region (ws ! i) \<inter> region (ws ! j) = {})"

text \<open>The kernel answers every request, reads in full.\<close>

definition shard_kern :: "kern \<Rightarrow> bool" where
  "shard_kern k \<longleftrightarrow> rd_ans k = [] \<and> (\<forall>a \<in> set (wr_ans k). \<exists>n > 0. a = Xfer n) \<and> \<not> any_set (out_fl k) O_APPEND"

definition shard_inv :: "byte list \<Rightarrow> byte list \<Rightarrow> uring_sharded_state \<Rightarrow> kern \<Rightarrow> bool" where
  "shard_inv src out0 s k \<longleftrightarrow>
     0 < buf_capacity s \<and> 0 < chunk_size s \<and> in_start_pos s + total_bytes s \<le> length src \<and> in_data k = src \<and> shard_kern k \<and>
     \<not> abort_requested s \<and> list_all (pc_ok src s) (workers s) \<and> disjoint_regions (workers s) \<and>
     placed src out0 s (out_data k) \<and>
     bytes_written s + sum_list (map (\<lambda>pc. card (region pc)) (workers s)) = min (next_chunk_offset s) (total_bytes s) \<and>
     active_workers s = length (filter (\<lambda>pc. pc \<noteq> SW_GONE) (workers s))"

lemma nth_write_at:
  "i < length (write_at f pos bs) \<Longrightarrow>
     write_at f pos bs ! i = (if pos \<le> i \<and> i < pos + length bs then bs ! (i - pos) else if i < length f then f ! i else 0)"
  by (auto simp: write_at_def nth_append min_def not_less less_diff_conv2 le_diff_conv add.commute)

lemma pread_full:
  assumes "rd_ans k = []" "pread pos n k = (r, k')"
  shows "r = Inr (take n (drop pos (in_data k))) \<and> k' = k"
  using assms by (auto simp: pread_def sys_read0_def take_input_def avail_def split: prod.splits)

lemma pwrite_some:
  assumes "shard_kern k" "pwrite pos bs k = (r, k')" "bs \<noteq> []"
  shows "\<exists>n. r = Inr n \<and> 0 < n \<and> n \<le> length bs \<and> out_data k' = write_at (out_data k) pos (take n bs) \<and>
    in_data k' = in_data k \<and> shard_kern k'"
proof (cases "wr_ans k")
  case Nil
  then show ?thesis using assms
    by (auto simp: pwrite_def sys_write_def put_output_def out_pos_def shard_kern_def split: prod.splits)
next
  case (Cons a as)
  then obtain n where "a = Xfer n" "0 < n" using assms(1) by (auto simp: shard_kern_def)
  moreover have "r = Inr (min (length bs) n)" "k' = k\<lparr>wr_ans := as, out_data := write_at (out_data k) pos (take n bs)\<rparr>"
    using assms Cons calculation
    by (auto simp: pwrite_def sys_write_def put_output_def out_pos_def shard_kern_def split: prod.splits)
  moreover have "take (min (length bs) n) bs = take n bs" by (simp add: min_def)
  ultimately show ?thesis using assms(1,3) Cons by (intro exI [of _ "min (length bs) n"]) (simp add: shard_kern_def)
qed

lemma list_all_update: "list_all P xs \<Longrightarrow> P y \<Longrightarrow> list_all P (xs[i := y])"
  by (auto simp: list_all_iff dest: set_update_subset_insert [THEN subsetD])

lemma disjoint_update:
  assumes "disjoint_regions ws" "i < length ws" "\<And>j. j < length ws \<Longrightarrow> j \<noteq> i \<Longrightarrow> region pc \<inter> region (ws ! j) = {}"
  shows "disjoint_regions (ws[i := pc])"
  unfolding disjoint_regions_def
proof (intro allI impI)
  fix a b assume "a < length (ws[i := pc])" "b < length (ws[i := pc])" "a \<noteq> b"
  then show "region (ws[i := pc] ! a) \<inter> region (ws[i := pc] ! b) = {}"
    using assms by (cases "a = i"; cases "b = i") (auto simp: disjoint_regions_def Int_commute)
qed

lemma left_over_update:
  "i < length ws \<Longrightarrow> left_over (ws[i := pc]) x \<longleftrightarrow> x \<in> region pc \<or> (\<exists>j < length ws. j \<noteq> i \<and> x \<in> region (ws ! j))"
  by (auto simp: left_over_def nth_list_update split: if_splits)

lemma sum_regions_update:
  "i < length ws \<Longrightarrow> sum_list (map (\<lambda>pc. card (region pc)) (ws[i := pc])) + card (region (ws ! i)) =
     sum_list (map (\<lambda>pc. card (region pc)) ws) + card (region pc)"
  by (induction ws arbitrary: i) (auto split: nat.splits simp: nth_Cons)

lemma active_update:
  "i < length ws \<Longrightarrow> ws ! i \<noteq> SW_GONE \<Longrightarrow> pc \<noteq> SW_GONE \<Longrightarrow>
     length (filter (\<lambda>pc. pc \<noteq> SW_GONE) (ws[i := pc])) = length (filter (\<lambda>pc. pc \<noteq> SW_GONE) ws)"
  by (induction ws arbitrary: i) (auto split: nat.splits simp: nth_Cons)

lemma active_gone:
  "i < length ws \<Longrightarrow> ws ! i \<noteq> SW_GONE \<Longrightarrow>
     Suc (length (filter (\<lambda>pc. pc \<noteq> SW_GONE) (ws[i := SW_GONE]))) = length (filter (\<lambda>pc. pc \<noteq> SW_GONE) ws)"
  by (induction ws arbitrary: i) (auto split: nat.splits simp: nth_Cons)

text \<open>A worker moves on without changing what is left to do.\<close>

lemma shard_inv_move:
  assumes inv: "shard_inv src out0 s k" and i: "i < length (workers s)" "workers s ! i \<noteq> SW_GONE" "pc \<noteq> SW_GONE"
    and r: "region pc = region (workers s ! i)" and ok: "pc_ok src s pc"
  shows "shard_inv src out0 (set_worker i pc s) k"
proof -
  have "placed src out0 (set_worker i pc s) (out_data k)"
  proof -
    have "left_over ((workers s)[i := pc]) x \<longleftrightarrow> left_over (workers s) x" for x
      using i r left_over_update [OF i(1)] by (auto simp: left_over_def)
    then show ?thesis using inv by (simp add: placed_def set_worker_def shard_inv_def)
  qed
  moreover have "pc_ok src (set_worker i pc s) = pc_ok src s"
  proof
    show "pc_ok src (set_worker i pc s) q = pc_ok src s q" for q by (cases q) (simp_all add: set_worker_def cur_len_def)
  qed
  moreover have "disjoint_regions ((workers s)[i := pc])"
    using inv i r by (intro disjoint_update) (auto simp: shard_inv_def disjoint_regions_def)
  moreover have "sum_list (map (\<lambda>pc. card (region pc)) ((workers s)[i := pc])) = sum_list (map (\<lambda>pc. card (region pc)) (workers s))"
    using sum_regions_update [OF i(1), of pc] r by simp
  ultimately show ?thesis
    using inv ok active_update [OF i] unfolding shard_inv_def
    by (simp add: set_worker_def list_all_update)
qed

lemma pc_ok_mono:
  "pc_ok src s q \<Longrightarrow> pc_ok src (s\<lparr>next_chunk_offset := next_chunk_offset s + n, workers := ws\<rparr>) q"
  by (cases q) (auto simp: cur_len_def)

lemma pc_ok_next: "pc_ok src s q \<Longrightarrow> pc_ok src (s\<lparr>next_chunk_offset := next_chunk_offset s + n\<rparr>) q"
  by (cases q) (auto simp: cur_len_def)

lemma shard_inv_claim:
  assumes inv: "shard_inv src out0 s k" and i: "i < length (workers s)" "workers s ! i = SW_CLAIM"
    and off: "next_chunk_offset s < total_bytes s"
    and len: "len = (if total_bytes s < next_chunk_offset s + chunk_size s then total_bytes s - next_chunk_offset s else chunk_size s)"
  shows "shard_inv src out0 (set_worker i (SW_READ (next_chunk_offset s) len 0)
           (s\<lparr>next_chunk_offset := next_chunk_offset s + chunk_size s\<rparr>)) k"
proof -
  let ?o = "next_chunk_offset s" and ?T = "total_bytes s"
  let ?pc = "SW_READ ?o len 0"
  let ?ws = "(workers s)[i := ?pc]"
  let ?s = "s\<lparr>next_chunk_offset := ?o + chunk_size s, workers := ?ws\<rparr>"
  have fin: "?o + len = min (?o + chunk_size s) ?T" using off by (simp add: len min_def)
  have lo: "min ?o ?T = ?o" using off by simp
  have below: "x < ?o" if "j < length (workers s)" "x \<in> region (workers s ! j)" for j x
  proof -
    have "pc_ok src s (workers s ! j)" using inv that(1) by (simp add: shard_inv_def list_all_length)
    then show ?thesis using that(2) by (cases "workers s ! j") auto
  qed
  have reg: "region ?pc = {?o..<?o + len}" by simp
  have dis: "disjoint_regions ?ws"
    by (rule disjoint_update [OF _ i(1)]) (use inv below in \<open>fastforce simp: shard_inv_def\<close>)+
  have left: "left_over ?ws x \<longleftrightarrow> ?o \<le> x \<and> x < ?o + len \<or> left_over (workers s) x" for x
  proof -
    have "(\<exists>j < length (workers s). j \<noteq> i \<and> x \<in> region (workers s ! j)) \<longleftrightarrow> left_over (workers s) x"
      using i(2) by (fastforce simp: left_over_def)
    then show ?thesis by (simp add: left_over_update [OF i(1)])
  qed
  have pl: "placed src out0 ?s (out_data k)"
    using inv unfolding shard_inv_def placed_def
    by (simp add: left fin [symmetric] lo)
  have "sum_list (map (\<lambda>pc. card (region pc)) ?ws) = sum_list (map (\<lambda>pc. card (region pc)) (workers s)) + len"
    using sum_regions_update [OF i(1), of ?pc] i(2) by simp
  moreover have "list_all (pc_ok src ?s) ?ws"
  proof (rule list_all_update)
    show "list_all (pc_ok src ?s) (workers s)" using inv pc_ok_mono by (auto simp: shard_inv_def list_all_iff)
    show "pc_ok src ?s ?pc" using fin by simp
  qed
  moreover have "length (filter (\<lambda>pc. pc \<noteq> SW_GONE) ?ws) = length (filter (\<lambda>pc. pc \<noteq> SW_GONE) (workers s))"
    by (rule active_update) (use i in simp_all)
  ultimately have "shard_inv src out0 ?s k"
    using inv dis pl fin lo by (simp add: shard_inv_def)
  then show ?thesis by (simp add: set_worker_def)
qed

lemma placed_write:
  assumes pl: "placed src out0 s out" and n: "bs = take n (drop (in_start_pos s + x0) src)" "bs \<noteq> []"
    and in_: "x0 + length bs \<le> min (next_chunk_offset s) (total_bytes s)"
    and lo: "\<And>x. left_over (workers s) x \<longleftrightarrow> left_over ws x \<or> x0 \<le> x \<and> x < x0 + length bs"
    and s': "s' = s\<lparr>bytes_written := b, records_full := f, records_partial := q, workers := ws\<rparr>"
  shows "placed src out0 s' (write_at out (out_start_pos s + x0) bs)"
proof -
  let ?p = "out_start_pos s + x0" and ?o = "write_at out (out_start_pos s + x0) bs"
  have L: "length ?o = max (length out) (?p + length bs)" by (rule length_write_at)
  have N: "length bs \<le> n" "in_start_pos s + x0 + length bs \<le> length src" using n by auto
  have bsn: "bs ! j = src ! (in_start_pos s + x0 + j)" if "j < length bs" for j
    using that N by (subst n(1)) (simp add: add.assoc)
  have p1: "out_start_pos s + x < length out \<and> out ! (out_start_pos s + x) = src ! (in_start_pos s + x)"
    if "x < min (next_chunk_offset s) (total_bytes s)" "\<not> left_over (workers s) x" for x
    using pl that by (simp add: placed_def)
  have p2: "out ! y = (if y < length out0 then out0 ! y else 0)"
    if "y < length out" "y < out_start_pos s \<or> out_start_pos s + total_bytes s \<le> y" for y
    using pl that unfolding placed_def by blast
  have p3: "length out0 \<le> length out" "length out \<le> max (length out0) (out_start_pos s + total_bytes s)"
    using pl by (simp_all add: placed_def)
  have a: "out_start_pos s + x < length ?o \<and> ?o ! (out_start_pos s + x) = src ! (in_start_pos s + x)"
    if x: "x < min (next_chunk_offset s) (total_bytes s)" "\<not> left_over ws x" for x
  proof (cases "x0 \<le> x \<and> x < x0 + length bs")
    case True
    then have l: "out_start_pos s + x < length ?o" by (simp add: L less_max_iff_disj)
    moreover have "?o ! (out_start_pos s + x) = bs ! (x - x0)" using True nth_write_at [OF l] by simp
    moreover have "\<dots> = src ! (in_start_pos s + x)" using True bsn [of "x - x0"] by (simp add: less_diff_conv2)
    ultimately show ?thesis by simp
  next
    case False
    then have "\<not> left_over (workers s) x" using lo x(2) by simp
    from p1 [OF x(1) this] show ?thesis using False nth_write_at [of "out_start_pos s + x" out ?p bs] by (auto simp: L)
  qed
  have b: "?o ! y = (if y < length out0 then out0 ! y else 0)"
    if y: "y < length ?o" "y < out_start_pos s \<or> out_start_pos s + total_bytes s \<le> y" for y
  proof -
    have neg: "\<not> (?p \<le> y \<and> y < ?p + length bs)" using y(2) in_ by auto
    have e: "?o ! y = (if y < length out then out ! y else 0)"
      unfolding nth_write_at [OF y(1)] by (rule if_not_P [OF neg])
    show ?thesis
    proof (cases "y < length out")
      case True
      then show ?thesis using e p2 y(2) by simp
    next
      case False
      then show ?thesis using e p3(1) by simp
    qed
  qed
  have c: "length out0 \<le> length ?o" "length ?o \<le> max (length out0) (out_start_pos s + total_bytes s)"
    using p3 in_ by (auto simp: L)
  show ?thesis unfolding placed_def s' using a b c by simp
qed

lemma shard_inv_write:
  assumes inv: "shard_inv src out0 s k" and i: "i < length (workers s)" "workers s ! i = SW_WRITE off len d bs wr" and more: "wr < length bs"
    and w: "pwrite (out_start_pos s + (off + d) + wr) (drop wr bs) k = (r, k')"
  shows "\<exists>n. r = Inr n \<and> 0 < n \<and> wr + n \<le> length bs \<and> shard_inv src out0 (set_worker i (SW_WRITE off len d bs (wr + n))
           (s\<lparr>bytes_written := bytes_written s + n,
              records_full := (if n = buf_capacity s then records_full s + 1 else records_full s),
              records_partial := (if n = buf_capacity s then records_partial s else records_partial s + 1)\<rparr>)) k'"
proof -
  have kk: "shard_kern k" using inv by (simp add: shard_inv_def)
  obtain n where n: "r = Inr n" "0 < n" "n \<le> length (drop wr bs)" "in_data k' = in_data k" "shard_kern k'"
      "out_data k' = write_at (out_data k) (out_start_pos s + (off + d) + wr) (take n (drop wr bs))"
    using pwrite_some [OF kk w] more by auto
  let ?pc = "SW_WRITE off len d bs (wr + n)"
  let ?ws = "(workers s)[i := ?pc]" and ?x0 = "off + d + wr" and ?b = "take n (drop wr bs)"
  let ?f = "if n = buf_capacity s then records_full s + 1 else records_full s"
  let ?q = "if n = buf_capacity s then records_partial s else records_partial s + 1"
  let ?s = "s\<lparr>bytes_written := bytes_written s + n, records_full := ?f, records_partial := ?q, workers := ?ws\<rparr>"
  have lb: "length ?b = n" using n(3) by simp
  have "pc_ok src s (workers s ! i)" using inv i(1) by (simp add: shard_inv_def list_all_length)
  then have pc: "d < len" "off + len \<le> min (next_chunk_offset s) (total_bytes s)" "wr \<le> length bs"
      "bs = take (cur_len s len d) (drop (in_start_pos s + (off + d)) src)" "length bs = cur_len s len d"
    unfolding i(2) pc_ok.simps by blast+
  have cl: "d + length bs \<le> len" using pc(1,5) by (auto simp: cur_len_def split: if_splits)
  have wn: "wr + n \<le> length bs" using n(3) more by simp
  have "?b = take n (take (cur_len s len d - wr) (drop (in_start_pos s + ?x0) src))"
    by (subst pc(4)) (simp add: drop_take drop_drop ac_simps)
  then have b: "?b = take (min n (cur_len s len d - wr)) (drop (in_start_pos s + ?x0) src)" by simp
  have others: "x \<notin> region (workers s ! j)" if "j < length (workers s)" "j \<noteq> i" "?x0 \<le> x" "x < off + len" for x j
  proof -
    have "region (workers s ! i) \<inter> region (workers s ! j) = {}"
      using inv i(1) that by (simp add: shard_inv_def disjoint_regions_def)
    then show ?thesis using that by (auto simp: i(2))
  qed
  have lo: "left_over (workers s) x \<longleftrightarrow> left_over ?ws x \<or> ?x0 \<le> x \<and> x < ?x0 + length ?b" for x
  proof -
    have "left_over (workers s) x \<longleftrightarrow> x \<in> region (workers s ! i) \<or> (\<exists>j < length (workers s). j \<noteq> i \<and> x \<in> region (workers s ! j))"
      using i(1) by (auto simp: left_over_def)
    then show ?thesis using left_over_update [OF i(1), of ?pc x] wn cl by (auto simp: i(2) lb)
  qed
  have "placed src out0 s (out_data k)" using inv by (simp add: shard_inv_def)
  then have pl: "placed src out0 ?s (out_data k')"
    unfolding n(6) add.assoc by (rule placed_write [OF _ b, unfolded add.assoc])
      (use n lb pc(2) cl wn lo in \<open>auto simp: add.assoc\<close>)
  have dis: "disjoint_regions ?ws"
  proof (rule disjoint_update [OF _ i(1)])
    show "disjoint_regions (workers s)" using inv by (simp add: shard_inv_def)
    fix j assume "j < length (workers s)" "j \<noteq> i"
    with others show "region ?pc \<inter> region (workers s ! j) = {}" by fastforce
  qed
  have sum: "sum_list (map (\<lambda>pc. card (region pc)) ?ws) + n = sum_list (map (\<lambda>pc. card (region pc)) (workers s))"
    using sum_regions_update [OF i(1), of ?pc] wn cl by (simp add: i(2))
  have "pc_ok src ?s = pc_ok src s"
  proof
    show "pc_ok src ?s q = pc_ok src s q" for q by (cases q) (simp_all add: cur_len_def)
  qed
  then have ok: "list_all (pc_ok src ?s) ?ws"
    using inv wn pc by (auto simp: shard_inv_def intro!: list_all_update)
  have "length (filter (\<lambda>pc. pc \<noteq> SW_GONE) ?ws) = length (filter (\<lambda>pc. pc \<noteq> SW_GONE) (workers s))"
    by (rule active_update) (use i in simp_all)
  then have "shard_inv src out0 ?s k'"
    using inv dis pl ok sum n(4,5) by (simp add: shard_inv_def)
  then have "shard_inv src out0 (set_worker i ?pc (s\<lparr>bytes_written := bytes_written s + n, records_full := ?f, records_partial := ?q\<rparr>)) k'"
    by (simp add: set_worker_def split del: if_split)
  then show ?thesis using n(1,2) wn by blast
qed

lemma shard_inv_next:
  assumes "shard_inv src out0 s k" "total_bytes s \<le> next_chunk_offset s"
  shows "shard_inv src out0 (s\<lparr>next_chunk_offset := next_chunk_offset s + n\<rparr>) k"
proof -
  have m: "min (next_chunk_offset s + n) (total_bytes s) = min (next_chunk_offset s) (total_bytes s)" using assms(2) by simp
  have "list_all (pc_ok src (s\<lparr>next_chunk_offset := next_chunk_offset s + n\<rparr>)) (workers s)"
    using assms(1) pc_ok_next by (auto simp: shard_inv_def list_all_iff)
  then show ?thesis using assms(1) by (simp add: shard_inv_def placed_def m)
qed

lemma shard_inv_gone:
  assumes inv: "shard_inv src out0 s k" and i: "i < length (workers s)" "workers s ! i = SW_STOP"
  shows "shard_inv src out0 (set_worker i SW_GONE (s\<lparr>active_workers := active_workers s - 1\<rparr>)) k"
proof -
  let ?ws = "(workers s)[i := SW_GONE]"
  let ?s = "s\<lparr>active_workers := active_workers s - 1, workers := ?ws\<rparr>"
  have "pc_ok src s (workers s ! i)" using inv i(1) by (simp add: shard_inv_def list_all_length)
  then have ok: "pc_ok src s SW_GONE" by (simp add: i(2))
  have "pc_ok src ?s = pc_ok src s"
  proof
    show "pc_ok src ?s q = pc_ok src s q" for q by (cases q) (simp_all add: cur_len_def)
  qed
  then have "list_all (pc_ok src ?s) ?ws" using inv ok by (simp add: shard_inv_def list_all_update)
  moreover have "left_over ?ws x = left_over (workers s) x" for x
  proof -
    have "(\<exists>j < length (workers s). j \<noteq> i \<and> x \<in> region (workers s ! j)) \<longleftrightarrow> left_over (workers s) x"
      using i(2) by (fastforce simp: left_over_def)
    then show ?thesis by (simp add: left_over_update [OF i(1)])
  qed
  then have "placed src out0 ?s (out_data k)" using inv by (simp add: shard_inv_def placed_def)
  moreover have "disjoint_regions ?ws" using inv i(1) by (intro disjoint_update) (simp_all add: shard_inv_def)
  moreover have "sum_list (map (\<lambda>pc. card (region pc)) ?ws) = sum_list (map (\<lambda>pc. card (region pc)) (workers s))"
    using sum_regions_update [OF i(1), of SW_GONE] i(2) by simp
  moreover have "active_workers s - 1 = length (filter (\<lambda>pc. pc \<noteq> SW_GONE) ?ws)"
    using active_gone [OF i(1)] i(2) inv by (simp add: shard_inv_def)
  ultimately have "shard_inv src out0 ?s k" using inv by (simp add: shard_inv_def)
  then show ?thesis by (simp add: set_worker_def)
qed

text \<open>How many micro-steps there can still be.\<close>

fun pc_weight :: "shard_pc \<Rightarrow> nat" where
  "pc_weight SW_CLAIM = 2"
| "pc_weight (SW_READ off len d) = 4 * (len - d) + 4"
| "pc_weight (SW_WRITE off len d bs wr) = 4 * (len - d - length bs) + 5 + 2 * (length bs - wr)"
| "pc_weight SW_STOP = 1"
| "pc_weight SW_GONE = 0"

definition shard_left :: "uring_sharded_state \<Rightarrow> nat" where
  "shard_left s = 7 * (total_bytes s - next_chunk_offset s) + sum_list (map pc_weight (workers s))"

lemma weight_update:
  "i < length ws \<Longrightarrow> sum_list (map pc_weight (ws[i := pc])) + pc_weight (ws ! i) = sum_list (map pc_weight ws) + pc_weight pc"
  by (induction ws arbitrary: i) (auto split: nat.splits simp: nth_Cons)

lemma shard_left_less:
  assumes "i < length (workers s)" "workers s' = (workers s)[i := pc]"
    "7 * (total_bytes s' - next_chunk_offset s') + pc_weight pc < 7 * (total_bytes s - next_chunk_offset s) + pc_weight (workers s ! i)"
  shows "shard_left s' < shard_left s"
  using weight_update [OF assms(1), of pc] assms(2,3) by (simp add: shard_left_def)

lemma worker_step_inv:
  assumes inv: "shard_inv src out0 s k" and i: "i < length (workers s)" "workers s ! i \<noteq> SW_GONE"
    and w: "worker_step i s k = (s', k')"
  shows "shard_inv src out0 s' k' \<and> shard_left s' < shard_left s"
proof -
  have I: "\<not> abort_requested s" "0 < buf_capacity s" "0 < chunk_size s" "in_start_pos s + total_bytes s \<le> length src"
      "in_data k = src" "shard_kern k"
    using inv by (simp_all add: shard_inv_def)
  have pc: "pc_ok src s (workers s ! i)" using inv i(1) by (simp add: shard_inv_def list_all_length)
  show ?thesis
  proof (cases "workers s ! i")
    case SW_CLAIM
    show ?thesis
    proof (cases "total_bytes s \<le> next_chunk_offset s")
      case True
      let ?s = "s\<lparr>next_chunk_offset := next_chunk_offset s + chunk_size s\<rparr>"
      have s': "s' = set_worker i SW_STOP ?s" "k' = k" using w SW_CLAIM I True by (simp_all add: worker_step_def shard_claim_def Let_def)
      have "shard_inv src out0 s' k'"
        unfolding s' by (rule shard_inv_move [OF shard_inv_next [OF inv True]]) (use i SW_CLAIM True in simp_all)
      moreover have "shard_left s' < shard_left s"
        by (rule shard_left_less [OF i(1), where pc = SW_STOP]) (use True in \<open>simp_all add: s' set_worker_def SW_CLAIM\<close>)
      ultimately show ?thesis ..
    next
      case False
      define len where "len = (if total_bytes s < next_chunk_offset s + chunk_size s then total_bytes s - next_chunk_offset s else chunk_size s)"
      have s': "s' = set_worker i (SW_READ (next_chunk_offset s) len 0) (s\<lparr>next_chunk_offset := next_chunk_offset s + chunk_size s\<rparr>)" "k' = k"
        using w SW_CLAIM I False by (auto simp: worker_step_def shard_claim_def Let_def len_def split: if_splits)
      have "shard_inv src out0 s' k'" unfolding s'
        by (rule shard_inv_claim [OF inv i(1) SW_CLAIM _ len_def]) (use False in simp)
      moreover have "shard_left s' < shard_left s"
        by (rule shard_left_less [OF i(1)]) (use False I(3) in \<open>auto simp: s' set_worker_def SW_CLAIM len_def\<close>)
      ultimately show ?thesis ..
    qed
  next
    case (SW_READ off len d)
    show ?thesis
    proof (cases "d < len")
      case False
      then have s': "s' = set_worker i SW_CLAIM s" "k' = k" using w SW_READ by (simp_all add: worker_step_def shard_read_def)
      have "shard_inv src out0 s' k'" unfolding s'
        by (rule shard_inv_move [OF inv]) (use i SW_READ False in simp_all)
      moreover have "shard_left s' < shard_left s"
        by (rule shard_left_less [OF i(1), where pc = SW_CLAIM]) (simp_all add: s' set_worker_def SW_READ)
      ultimately show ?thesis ..
    next
      case True
      let ?bs = "take (cur_len s len d) (drop (in_start_pos s + (off + d)) src)"
      have pk: "pread (in_start_pos s + (off + d)) (cur_len s len d) k = (Inr ?bs, k)"
        using pread_full [of k] I(5,6) by (cases "pread (in_start_pos s + (off + d)) (cur_len s len d) k") (auto simp: shard_kern_def)
      have cl: "0 < cur_len s len d" "d + cur_len s len d \<le> len" using True I(2) by (auto simp: cur_len_def)
      have "off + len \<le> total_bytes s" using pc by (simp add: SW_READ)
      then have "cur_len s len d \<le> length src - (in_start_pos s + (off + d))" using cl(2) I(4) by linarith
      then have lb: "length ?bs = cur_len s len d" by simp
      then have ne: "?bs \<noteq> []" using cl(1) by (metis length_greater_0_conv)
      have s': "s' = set_worker i (SW_WRITE off len d ?bs 0) s" "k' = k"
        using w SW_READ True I(1) pk ne by (simp_all add: worker_step_def shard_read_def)
      have "shard_inv src out0 s' k'" unfolding s'
        by (rule shard_inv_move [OF inv]) (use i pc SW_READ True lb in simp_all)
      moreover have "shard_left s' < shard_left s"
        by (rule shard_left_less [OF i(1), where pc = "SW_WRITE off len d ?bs 0"]) (use cl lb in \<open>simp_all add: s' set_worker_def SW_READ\<close>)
      ultimately show ?thesis ..
    qed
  next
    case (SW_WRITE off len d bs wr)
    have p: "d < len" "wr \<le> length bs" "length bs = cur_len s len d" "off + len \<le> min (next_chunk_offset s) (total_bytes s)"
      using pc unfolding SW_WRITE pc_ok.simps by blast+
    have cl: "d + length bs \<le> len" using p(1,3) by (auto simp: cur_len_def split: if_splits)
    show ?thesis
    proof (cases "wr < length bs")
      case False
      then have s': "s' = set_worker i (SW_READ off len (d + length bs)) s" "k' = k"
        using w SW_WRITE p by (simp_all add: worker_step_def shard_write_def)
      have "shard_inv src out0 s' k'" unfolding s'
        by (rule shard_inv_move [OF inv]) (use i p SW_WRITE False cl in \<open>simp_all add: add.assoc\<close>)
      moreover have "shard_left s' < shard_left s"
        by (rule shard_left_less [OF i(1), where pc = "SW_READ off len (d + length bs)"])
          (use p(2) cl in \<open>simp_all add: s' set_worker_def SW_WRITE\<close>)
      ultimately show ?thesis ..
    next
      case True
      obtain r k1 where pw: "pwrite (out_start_pos s + (off + d) + wr) (drop wr bs) k = (r, k1)" by fastforce
      obtain n where n: "r = Inr n" "0 < n" "wr + n \<le> length bs"
        "shard_inv src out0 (set_worker i (SW_WRITE off len d bs (wr + n))
           (s\<lparr>bytes_written := bytes_written s + n,
              records_full := (if n = buf_capacity s then records_full s + 1 else records_full s),
              records_partial := (if n = buf_capacity s then records_partial s else records_partial s + 1)\<rparr>)) k1"
        using shard_inv_write [OF inv i(1) SW_WRITE True pw] by blast
      have s': "s' = set_worker i (SW_WRITE off len d bs (wr + n))
           (s\<lparr>bytes_written := bytes_written s + n,
              records_full := (if n = buf_capacity s then records_full s + 1 else records_full s),
              records_partial := (if n = buf_capacity s then records_partial s else records_partial s + 1)\<rparr>)" "k' = k1"
        using w SW_WRITE True I(1) pw n(1,2) by (simp_all add: worker_step_def shard_write_def split del: if_split)
      moreover have "shard_left s' < shard_left s"
        by (rule shard_left_less [OF i(1), where pc = "SW_WRITE off len d bs (wr + n)"])
          (use n(2,3) cl in \<open>simp_all add: s'(1) set_worker_def SW_WRITE\<close>)
      ultimately show ?thesis using n(4) by simp
    qed
  next
    case SW_STOP
    then have s': "s' = set_worker i SW_GONE (s\<lparr>active_workers := active_workers s - 1\<rparr>)" "k' = k"
      using w by (simp_all add: worker_step_def)
    have "shard_inv src out0 s' k'" unfolding s' by (rule shard_inv_gone [OF inv i(1) SW_STOP])
    moreover have "shard_left s' < shard_left s"
      by (rule shard_left_less [OF i(1), where pc = SW_GONE]) (simp_all add: s' set_worker_def SW_STOP)
    ultimately show ?thesis ..
  next
    case SW_GONE
    with i show ?thesis by simp
  qed
qed

lemma worker_step_frame:
  assumes "worker_step i s k = (s', k')"
  shows "total_bytes s' = total_bytes s \<and> in_start_pos s' = in_start_pos s \<and> out_start_pos s' = out_start_pos s \<and>
    length (workers s') = length (workers s)"
  using assms
  by (auto simp: worker_step_def shard_claim_def shard_read_def shard_write_def set_worker_def shard_abort_def Let_def
      split: shard_pc.splits if_splits sum.splits prod.splits)

text \<open>Every interleaving keeps the invariant.\<close>

lemma shard_run_inv:
  assumes "shard_run c c'"
  shows "shard_inv src out0 (fst c) (snd c) \<longrightarrow> shard_inv src out0 (fst c') (snd c') \<and>
    total_bytes (fst c') = total_bytes (fst c) \<and> in_start_pos (fst c') = in_start_pos (fst c) \<and>
    out_start_pos (fst c') = out_start_pos (fst c) \<and> length (workers (fst c')) = length (workers (fst c))"
  using assms
proof (induction rule: shard_run.induct)
  case (more c c' c'')
  from more.hyps(2) obtain i where i: "i < length (workers (fst c'))" "workers (fst c') ! i \<noteq> SW_GONE"
      "c'' = worker_step i (fst c') (snd c')"
    by (cases rule: shard_step.cases) auto
  obtain s' k' where w: "worker_step i (fst c') (snd c') = (s', k')" by fastforce
  show ?case
    using more.IH worker_step_inv [OF _ i(1,2) w] worker_step_frame [OF w] i(3) w by auto
qed simp

lemma shard_workers_pos: "0 < shard_workers c"
  by (simp add: shard_workers_def Let_def)

lemma shard_blocksize_pos: "0 < shard_blocksize c"
  by (simp add: shard_blocksize_def)

text \<open>
  The chunk size of the workers is a positive multiple of the block size, at most 64 MiB (or one
  block), whatever the length of the input and the number of workers; so chunks start at block boundaries.
\<close>

theorem shard_chunk_size_ok:
  assumes "0 < bs"
  shows "bs dvd shard_chunk_size tot n bs \<and> bs \<le> shard_chunk_size tot n bs \<and>
    shard_chunk_size tot n bs \<le> max bs URING_DEFAULT_CHUNK_SIZE"
proof -
  define c where "c = (if tot < URING_DEFAULT_CHUNK_SIZE * n * 2
                   then (let c = tot div (n * 2) in if c < bs then bs else c)
                   else URING_DEFAULT_CHUNK_SIZE)"
  have e: "shard_chunk_size tot n bs = (if c div bs * bs = 0 then bs else c div bs * bs)"
    by (simp add: shard_chunk_size_def Let_def c_def)
  have "tot div (n * 2) \<le> URING_DEFAULT_CHUNK_SIZE" if "tot < URING_DEFAULT_CHUNK_SIZE * n * 2"
  proof -
    have "tot div (n * 2) \<le> (URING_DEFAULT_CHUNK_SIZE * (n * 2)) div (n * 2)"
      by (rule div_le_mono) (use that in \<open>simp add: mult.assoc\<close>)
    then show ?thesis by (cases "n = 0") simp_all
  qed
  then have c: "c \<le> max bs URING_DEFAULT_CHUNK_SIZE" by (auto simp: c_def Let_def)
  have q: "c div bs * bs \<le> max bs URING_DEFAULT_CHUNK_SIZE" "bs dvd c div bs * bs"
    using le_trans [OF div_times_less_eq_dividend c] by simp_all
  have "c div bs * bs \<noteq> 0 \<longrightarrow> bs \<le> c div bs * bs" using assms by (cases "c div bs") simp_all
  then show ?thesis using q unfolding e by auto
qed

lemma shard_chunk_size_ok_witness:
  "(4096 :: nat) dvd shard_chunk_size 100000 4 4096 \<and> 4096 \<le> shard_chunk_size 100000 4 4096"
  using shard_chunk_size_ok [of 4096 100000 4] by simp

lemma shard_pool_inv:
  assumes "shard_kern k" "ipos + tot \<le> length (in_data k)"
  shows "shard_inv (in_data k) (out_data k) (shard_pool c ipos opos tot) k"
proof -
  let ?s = "shard_pool c ipos opos tot"
  have f: "workers ?s = replicate (shard_workers c) SW_CLAIM" "next_chunk_offset ?s = 0" "bytes_written ?s = 0"
      "active_workers ?s = shard_workers c" "\<not> abort_requested ?s" "in_start_pos ?s = ipos" "total_bytes ?s = tot"
      "out_start_pos ?s = opos" "buf_capacity ?s = shard_blocksize c"
      "chunk_size ?s = shard_chunk_size tot (shard_workers c) (shard_blocksize c)"
    by (simp_all add: shard_pool_def Let_def)
  have "0 < chunk_size ?s"
    using shard_chunk_size_ok [OF shard_blocksize_pos, of c tot "shard_workers c"] shard_blocksize_pos [of c] f(10) by linarith
  then show ?thesis
    using assms shard_blocksize_pos [of c]
    by (simp add: shard_inv_def f placed_def disjoint_regions_def map_replicate_const sum_list_replicate list_all_iff)
qed

text \<open>When the last worker has gone, all of it is in place.\<close>

lemma shard_inv_done:
  assumes inv: "shard_inv src out0 s k" and d: "active_workers s = 0" "workers s \<noteq> []" and pos: "0 < total_bytes s"
  shows "out_data k = write_at out0 (out_start_pos s) (take (total_bytes s) (drop (in_start_pos s) src)) \<and>
    bytes_written s = total_bytes s \<and> \<not> abort_requested s"
proof -
  let ?T = "total_bytes s" and ?o = "out_data k" and ?bs = "take (total_bytes s) (drop (in_start_pos s) src)"
  have gone: "\<forall>pc \<in> set (workers s). pc = SW_GONE"
    using inv d(1) by (simp add: shard_inv_def filter_empty_conv)
  then have "hd (workers s) = SW_GONE" using d(2) by simp
  moreover have "pc_ok src s (hd (workers s))" using inv d(2) by (simp add: shard_inv_def list_all_iff)
  ultimately have T: "min (next_chunk_offset s) ?T = ?T" by simp
  have nl: "\<not> left_over (workers s) x" for x
    using gone nth_mem by (fastforce simp: left_over_def)
  have sum0: "sum_list (map (\<lambda>pc. card (region pc)) (workers s)) = 0" using gone by (fastforce simp: sum_list_eq_0_iff)
  have "bytes_written s + sum_list (map (\<lambda>pc. card (region pc)) (workers s)) = min (next_chunk_offset s) ?T"
    using inv by (simp only: shard_inv_def)
  then have b: "bytes_written s = ?T" unfolding sum0 T by simp
  have pl: "placed src out0 s ?o" and src: "in_start_pos s + ?T \<le> length src" using inv by (simp_all add: shard_inv_def)
  have p1: "out_start_pos s + x < length ?o \<and> ?o ! (out_start_pos s + x) = src ! (in_start_pos s + x)" if "x < ?T" for x
    using pl that nl by (simp add: placed_def T)
  have p2: "?o ! y = (if y < length out0 then out0 ! y else 0)"
    if "y < length ?o" "y < out_start_pos s \<or> out_start_pos s + ?T \<le> y" for y
    using pl that unfolding placed_def by blast
  have lb: "length ?bs = ?T" using src by simp
  have "out_start_pos s + ?T \<le> length ?o" using p1 [of "?T - 1"] pos by linarith
  moreover have "length out0 \<le> length ?o" "length ?o \<le> max (length out0) (out_start_pos s + ?T)"
    using pl by (simp_all add: placed_def)
  ultimately have len: "length ?o = length (write_at out0 (out_start_pos s) ?bs)"
    unfolding length_write_at lb by linarith
  have "?o = write_at out0 (out_start_pos s) ?bs"
  proof (rule nth_equalityI [OF len])
    fix y assume y: "y < length ?o"
    then have w: "y < length (write_at out0 (out_start_pos s) ?bs)" using len by simp
    show "?o ! y = write_at out0 (out_start_pos s) ?bs ! y"
    proof (cases "out_start_pos s \<le> y \<and> y < out_start_pos s + ?T")
      case True
      then obtain x where x: "y = out_start_pos s + x" "x < ?T" by (metis add_less_cancel_left le_Suc_ex)
      have "?bs ! x = src ! (in_start_pos s + x)" using x(2) src by simp
      moreover have "write_at out0 (out_start_pos s) ?bs ! y = ?bs ! x"
        using x unfolding nth_write_at [OF w] lb by simp
      ultimately show ?thesis using p1 [OF x(2)] x(1) by simp
    next
      case False
      then have "?o ! y = (if y < length out0 then out0 ! y else 0)" using p2 [OF y] by linarith
      then show ?thesis unfolding nth_write_at [OF w] lb if_not_P [OF False] .
    qed
  qed
  then show ?thesis using b inv by (simp add: shard_inv_def)
qed


text \<open>The main thread's turns are such runs, and enough of them end.\<close>

lemma pick_worker_active:
  assumes "pick_worker m s < length (workers s)"
  shows "workers s ! pick_worker m s \<noteq> SW_GONE"
proof (cases "m < length (workers s) \<and> workers s ! m \<noteq> SW_GONE")
  case False
  then have p: "pick_worker m s = length (takeWhile (\<lambda>pc. pc = SW_GONE) (workers s))"
    unfolding pick_worker_def by (rule if_not_P)
  show ?thesis using assms nth_length_takeWhile [of "\<lambda>pc. pc = SW_GONE" "workers s"] unfolding p by simp
qed (simp add: pick_worker_def)

lemma pick_worker_none:
  assumes "\<not> pick_worker m s < length (workers s)" "active_workers s = length (filter (\<lambda>pc. pc \<noteq> SW_GONE) (workers s))"
  shows "active_workers s = 0"
proof -
  have "length (takeWhile (\<lambda>pc. pc = SW_GONE) (workers s)) = length (workers s)"
    using assms(1) length_takeWhile_le [of "\<lambda>pc. pc = SW_GONE" "workers s"] by (auto simp: pick_worker_def split: if_splits)
  then have "takeWhile (\<lambda>pc. pc = SW_GONE) (workers s) = workers s" by (metis takeWhile_eq_take take_all order_refl)
  then have "\<forall>pc \<in> set (workers s). pc = SW_GONE" by (simp add: takeWhile_eq_all_conv)
  then show ?thesis by (simp add: assms(2) filter_empty_conv)
qed

lemma shard_inv_turn: "next_turn k = (m, k') \<Longrightarrow> shard_inv src out0 s k' = shard_inv src out0 s k"
  by (auto simp: next_turn_def shard_inv_def shard_kern_def split: list.splits)

lemma shard_turns_inv:
  "shard_inv src out0 s k \<Longrightarrow> shard_turns n s k = (s', k') \<Longrightarrow>
     shard_inv src out0 s' k' \<and> total_bytes s' = total_bytes s \<and> in_start_pos s' = in_start_pos s \<and>
     out_start_pos s' = out_start_pos s \<and> length (workers s') = length (workers s) \<and>
     (active_workers s' = 0 \<or> shard_left s' + n \<le> shard_left s)"
proof (induction n arbitrary: s k)
  case (Suc n)
  obtain m k1 where t: "next_turn k = (m, k1)" by fastforce
  have i: "shard_inv src out0 s k1" using Suc.prems(1) shard_inv_turn [OF t] by blast
  show ?case
  proof (cases "pick_worker m s < length (workers s)")
    case False
    then have "s' = s" "k' = k1" using Suc.prems(2) t by simp_all
    moreover have "active_workers s = 0"
      by (rule pick_worker_none [OF False]) (use i in \<open>simp add: shard_inv_def\<close>)
    ultimately show ?thesis using i by simp
  next
    case True
    obtain s1 k2 where w: "worker_step (pick_worker m s) s k1 = (s1, k2)" by fastforce
    note st = worker_step_inv [OF i True pick_worker_active [OF True] w] and fr = worker_step_frame [OF w]
    have "shard_turns n s1 k2 = (s', k')" using Suc.prems(2) t True w by simp
    from Suc.IH [OF _ this] st fr show ?thesis by auto
  qed
qed simp


definition shard_example :: kern where
  "shard_example = (file_to_file [1, 2, 3, 4, 5])\<lparr>plat := plat0\<lparr>sched := [1, 0, 1, 0]\<rparr>, wr_ans := [Xfer 1, Xfer 2]\<rparr>"

lemma shard_example_ok: "shard_kern shard_example" "0 + 5 \<le> length (in_data shard_example)"
  "out_data shard_example = []" "in_data shard_example = [1, 2, 3, 4, 5]"
  by (simp_all add: shard_example_def shard_kern_def file_to_file_def any_set_def cfg_simps)


lemma shard_run_trans: "shard_run b c \<Longrightarrow> shard_run a b \<Longrightarrow> shard_run a c"
  by (induction rule: shard_run.induct) (auto intro: shard_run.intros)

lemma shard_run_first: "shard_step a b \<Longrightarrow> shard_run b c \<Longrightarrow> shard_run a c"
  using shard_run_trans [of b c a] shard_run.intros by blast

text \<open>Running one worker after the other to its end is one of the runs.\<close>

lemma shard_run_exists:
  "shard_inv src out0 s k \<Longrightarrow> \<exists>s' k'. shard_run (s, k) (s', k') \<and> active_workers s' = 0"
proof (induction "shard_left s" arbitrary: s k rule: less_induct)
  case less
  show ?case
  proof (cases "pick_worker 0 s < length (workers s)")
    case False
    then have "active_workers s = 0"
      by (rule pick_worker_none) (use less.prems in \<open>simp add: shard_inv_def\<close>)
    then show ?thesis using shard_run.here by blast
  next
    case True
    obtain s1 k1 where w: "worker_step (pick_worker 0 s) s k = (s1, k1)" by fastforce
    note act = pick_worker_active [OF True]
    have st: "shard_inv src out0 s1 k1" "shard_left s1 < shard_left s"
      using worker_step_inv [OF less.prems True act w] by simp_all
    obtain s' k' where "shard_run (s1, k1) (s', k')" "active_workers s' = 0" using less.hyps [OF st(2,1)] by blast
    moreover have "shard_step (s, k) (s1, k1)" using shard_step.step [OF True act, of k] by (simp add: w)
    ultimately show ?thesis using shard_run_first by blast
  qed
qed


lemma shard_turns_numeral:
  "shard_turns (numeral v) s k =
     (case next_turn k of (m, k) \<Rightarrow>
        if pick_worker m s < length (workers s)
        then (case worker_step (pick_worker m s) s k of (s, k) \<Rightarrow> shard_turns (pred_numeral v) s k)
        else (s, k))"
  by (simp add: numeral_eq_Suc)


end
