(* ===== verification/UringDriver.thy ===== *)
theory UringDriver
  imports UringShards
begin

text \<open>
  The \<open>io_uring\<close> driver of \<open>src/src/io_uring.c\<close>: its single-ring pipeline, which keeps one read and one write in
  flight, and the choice between it and the sharded mode. A request is carried out when its completion is
  reaped. At most two entries are queued at a time, so \<open>io_uring_get_sqe\<close> always gives one.
\<close>

section \<open>State and init\<close>

definition URING_NUM_BUFFERS :: nat where "URING_NUM_BUFFERS = 4"

datatype uring_tag = TAG_READ | TAG_WRITE

record uring_buffer_slot =
  us_buf :: "byte list"
  us_length :: nat

text \<open>\<open>rd_len\<close> and \<open>wr_len\<close> are the lengths the requests in flight carry.\<close>

record uring_ring =
  ur_slots :: "uring_buffer_slot list"
  ur_in_pos :: nat
  ur_out_pos :: nat
  ur_in_seekable :: bool
  ur_out_seekable :: bool
  read_slot :: nat
  write_slot :: nat
  read_in_flight :: bool
  write_in_flight :: bool
  read_eof :: bool
  pipeline_primed :: bool
  buffers_registered :: bool
  rd_len :: nat
  wr_len :: nat

datatype uring_driver_state = Sharded uring_sharded_state | Ring uring_ring

definition uring_slot_size :: "dd_config \<Rightarrow> nat" where
  "uring_slot_size c = (if 0 < blocksize c then nat (blocksize c) else 1048576)"

text \<open>Whether the transfer may be sharded: the diagnostic if not, else how many bytes it is to copy.\<close>

definition shard_request :: "int option \<Rightarrow> bool \<Rightarrow> 'h dd_context \<Rightarrow> string + int" where
  "shard_request cur_in out_seekable ctx =
     (if conv (cfg ctx) (C_SHA256 OR C_BLAKE3 OR C_BLKS)
      then Inl ''io_uring: in-flight checksum requires sequential stream; falling back to single-ring mode''
      else if conv (cfg ctx) (C_SPARSE OR C_SWAB OR C_SYNC OR C_NOERROR)
      then Inl ''io_uring: conversion requires sequential streaming; falling back to single-ring mode''
      else if cur_in = None \<or> \<not> out_seekable
      then Inl ''io_uring: non-seekable streams require sequential I/O; falling back to single-ring mode''
      else Inr (if 0 \<le> bytes_to_copy (cfg ctx) then bytes_to_copy (cfg ctx)
                else if 0 < total_input_size ctx \<and> the cur_in < total_input_size ctx
                then total_input_size ctx - the cur_in else 0))"

definition uring_ring_init :: "int option \<Rightarrow> int option \<Rightarrow> bool \<Rightarrow> 'h st \<Rightarrow> uring_driver_state option \<times> 'h st" where
  "uring_ring_init cur_in cur_out out_seekable w =
     (case w of (ctx, k) \<Rightarrow>
        (case next_err k of (e, k) \<Rightarrow>
           if e \<noteq> 0 then (None, dd_diagnose e ''io_uring: initialization failed; falling back to synchronous driver'' (ctx, k))
           else if \<not> mem_fits (plat k) URING_NUM_BUFFERS
           then (None, dd_diagnose (errno k) ''io_uring: failed to allocate aligned buffer for slot'' (ctx, k))
           else (case next_err k of (e, k) \<Rightarrow>
              (Some (Ring
                 \<lparr>ur_slots = replicate URING_NUM_BUFFERS \<lparr>us_buf = alignalloc (uring_slot_size (cfg ctx)) k, us_length = 0\<rparr>,
                  ur_in_pos = (case cur_in of Some p \<Rightarrow> nat p | None \<Rightarrow> 0),
                  ur_out_pos = (if out_seekable then nat (the cur_out) else 0),
                  ur_in_seekable = (cur_in \<noteq> None), ur_out_seekable = out_seekable, read_slot = 0, write_slot = 0,
                  read_in_flight = False, write_in_flight = False, read_eof = False, pipeline_primed = False,
                  buffers_registered = (e = 0), rd_len = 0, wr_len = 0\<rparr>), ctx, k))))"

definition uring_driver_init :: "'h st \<Rightarrow> uring_driver_state option \<times> 'h st" where
  "uring_driver_init w =
     (case w of (ctx, k) \<Rightarrow>
        let cur_in = fst (sys_lseek STDIN_FILENO 0 k);
            cur_out = fst (sys_lseek STDOUT_FILENO 0 k);
            out_seekable = (cur_out \<noteq> None \<and> \<not> any_set (output_flags (cfg ctx)) O_APPEND)
        in if \<not> 1 < threads (cfg ctx) then uring_ring_init cur_in cur_out out_seekable (ctx, k)
           else (case shard_request cur_in out_seekable ctx of
                   Inl msg \<Rightarrow>
                     uring_ring_init cur_in cur_out out_seekable
                       (if status_level (cfg ctx) \<noteq> STATUS_NONE then dd_diagnose 0 msg (ctx, k) else (ctx, k))
                 | Inr tot \<Rightarrow>
                     if 0 < tot
                     then (case init_sharded_uring (nat (the cur_in)) (nat (the cur_out)) (nat tot) (ctx, k) of
                             (Some sh, w) \<Rightarrow> (Some (Sharded sh), w)
                           | (None, w) \<Rightarrow> uring_ring_init cur_in cur_out out_seekable w)
                     else uring_ring_init cur_in cur_out out_seekable (ctx, k)))"

definition get_next_read_size :: "dd_config \<Rightarrow> int \<Rightarrow> int \<Rightarrow> int" where
  "get_next_read_size c default_bs total_planned_bytes =
     (if 0 \<le> bytes_to_copy c
      then
        let remaining = bytes_to_copy c - total_planned_bytes
        in if remaining \<le> 0 then 0 else if remaining < default_bs then remaining else default_bs
      else default_bs)"

section \<open>Completions\<close>

text \<open>Carrying out the two requests, at the position they carry or at the descriptor's own.\<close>

definition uring_read :: "uring_ring \<Rightarrow> kern \<Rightarrow> (int + byte list) \<times> kern" where
  "uring_read st k = (if ur_in_seekable st then pread (ur_in_pos st) (rd_len st) k else sys_read0 (rd_len st) k)"

definition write_req :: "uring_ring \<Rightarrow> byte list" where
  "write_req st = take (wr_len st) (us_buf (ur_slots st ! write_slot st))"

definition uring_write :: "uring_ring \<Rightarrow> kern \<Rightarrow> (int + nat) \<times> kern" where
  "uring_write st k = (if ur_out_seekable st then pwrite (ur_out_pos st) (write_req st) k else sys_write (write_req st) k)"

text \<open>Handling one completion. \<open>False\<close> is the return with \<open>EXIT_FAILURE\<close>.\<close>

definition uring_write_done :: "uring_ring \<Rightarrow> 'h st \<Rightarrow> bool \<times> uring_ring \<times> 'h st" where
  "uring_write_done st w =
     (case w of (ctx, k) \<Rightarrow>
        (case uring_write st k of
           (Inl e, k) \<Rightarrow>
             if e = EINTR \<or> e = EAGAIN then (True, st\<lparr>write_in_flight := False\<rparr>, ctx, k)
             else (False, st\<lparr>write_in_flight := False\<rparr>, dd_diagnose e ''io_uring: write error'' (ctx, k))
         | (Inr n, k) \<Rightarrow>
             (True,
              st\<lparr>write_in_flight := False, ur_out_pos := (if ur_out_seekable st then ur_out_pos st + n else ur_out_pos st)\<rparr>,
              ctx\<lparr>stats := (stats ctx)\<lparr>w_bytes := w_bytes (stats ctx) + int n,
                w_full := (if 0 < bsize ctx \<and> int n = bsize ctx then w_full (stats ctx) + 1 else w_full (stats ctx)),
                w_partial := (if 0 < bsize ctx \<and> int n = bsize ctx then w_partial (stats ctx) else w_partial (stats ctx) + 1)\<rparr>\<rparr>,
              k)))"

definition uring_read_done :: "uring_ring \<Rightarrow> 'h st \<Rightarrow> (bool \<times> uring_ring \<times> 'h st) option" where
  "uring_read_done st w =
     (case w of (ctx, k) \<Rightarrow>
        let slot = ur_slots st ! read_slot st
        in if length (us_buf slot) < rd_len st then None
           else (case uring_read st k of
                   (Inl e, k) \<Rightarrow>
                     if e = EINTR \<or> e = EAGAIN then Some (True, st\<lparr>read_in_flight := False\<rparr>, ctx, k)
                     else Some (False, st\<lparr>read_in_flight := False\<rparr>, dd_diagnose e ''io_uring: read error'' (ctx, k))
                 | (Inr bs, k) \<Rightarrow>
                     if bs = []
                     then Some (True, st\<lparr>read_in_flight := False, read_eof := True,
                                        ur_slots := (ur_slots st)[read_slot st := slot\<lparr>us_length := 0\<rparr>]\<rparr>, ctx, k)
                     else Some (True,
                       st\<lparr>read_in_flight := False,
                          ur_slots := (ur_slots st)[read_slot st := slot\<lparr>us_buf := blit (us_buf slot) 0 bs, us_length := length bs\<rparr>],
                          ur_in_pos := (if ur_in_seekable st then ur_in_pos st + length bs else ur_in_pos st)\<rparr>,
                       ctx\<lparr>stats := (stats ctx)\<lparr>
                         r_full := (if 0 < bsize ctx \<and> int (length bs) = bsize ctx then r_full (stats ctx) + 1 else r_full (stats ctx)),
                         r_partial := (if 0 < bsize ctx \<and> int (length bs) = bsize ctx then r_partial (stats ctx)
                                       else r_partial (stats ctx) + 1)\<rparr>\<rparr>, k)))"

text \<open>The batch a look at the ring finds.\<close>

definition next_reap :: "kern \<Rightarrow> reap \<times> kern" where
  "next_reap k =
     (case reaps (plat k) of [] \<Rightarrow> (ReapAll, k) | c # cs \<Rightarrow> (c, k\<lparr>plat := (plat k)\<lparr>reaps := cs\<rparr>\<rparr>))"

fun wait_errno :: "reap \<Rightarrow> int" where
  "wait_errno (WaitFail e) = e"
| "wait_errno _ = 0"

definition reap_tags :: "reap \<Rightarrow> uring_ring \<Rightarrow> uring_tag list" where
  "reap_tags c st =
     (if c = ReapRead \<and> read_in_flight st then [TAG_READ]
      else if c = ReapWrite \<and> write_in_flight st then [TAG_WRITE]
      else (if write_in_flight st then [TAG_WRITE] else []) @ (if read_in_flight st then [TAG_READ] else []))"

fun uring_complete :: "uring_tag list \<Rightarrow> uring_ring \<Rightarrow> 'h st \<Rightarrow> (bool \<times> uring_ring \<times> 'h st) option" where
  "uring_complete [] st w = Some (True, st, w)"
| "uring_complete (t # ts) st w =
     (case (if t = TAG_WRITE then Some (uring_write_done st w) else uring_read_done st w) of
        None \<Rightarrow> None
      | Some (cont, st, w) \<Rightarrow> if cont then uring_complete ts st w else Some (False, st, w))"

definition in_flight :: "uring_ring \<Rightarrow> nat" where
  "in_flight st = (if read_in_flight st then 1 else 0) + (if write_in_flight st then 1 else 0)"

lemma uring_done_flags:
  "uring_write_done st w = (cont, st', w') \<Longrightarrow> read_in_flight st' = read_in_flight st \<and> \<not> write_in_flight st'"
  "uring_read_done st w = Some (cont, st', w') \<Longrightarrow> write_in_flight st' = write_in_flight st \<and> \<not> read_in_flight st'"
  by (auto simp: uring_write_done_def uring_read_done_def Let_def split: prod.splits sum.splits if_splits)

lemma uring_complete_in_flight:
  assumes "uring_complete (reap_tags c st) st w = Some (cont, st', w')" "read_in_flight st \<or> write_in_flight st"
  shows "in_flight st' < in_flight st"
  using assms
  by (auto simp: reap_tags_def in_flight_def dest!: uring_done_flags split: if_splits option.splits prod.splits)

text \<open>The loop that waits until nothing is in flight. A signal makes it yield.\<close>

datatype harvest = Settled | Yielded | Failed

function uring_harvest :: "uring_ring \<Rightarrow> 'h st \<Rightarrow> (harvest \<times> uring_ring \<times> 'h st) option" where
  "uring_harvest st w =
     (if \<not> read_in_flight st \<and> \<not> write_in_flight st then Some (Settled, st, w)
      else
        (case w of (ctx, k) \<Rightarrow>
           (case next_reap k of (c, k) \<Rightarrow>
              if wait_errno c = EINTR then Some (Yielded, st, ctx, k)
              else if wait_errno c \<noteq> 0 then Some (Failed, st, dd_diagnose (wait_errno c) ''io_uring: wait_cqe failed'' (ctx, k))
              else (case uring_complete (reap_tags c st) st (ctx, k) of
                      None \<Rightarrow> None
                    | Some (cont, st, w) \<Rightarrow> if cont then uring_harvest st w else Some (Failed, st, w)))))"
  by pat_completeness auto

termination
  by (relation "measure (\<lambda>(st, w). in_flight st)") (auto dest: uring_complete_in_flight)

declare uring_harvest.simps [simp del]

section \<open>One step\<close>

text \<open>The first read-ahead.\<close>

definition uring_prime :: "uring_ring \<Rightarrow> 'h st \<Rightarrow> (uring_ring, 'h) step_out option + uring_ring \<times> 'h st" where
  "uring_prime st w =
     (case w of (ctx, k) \<Rightarrow>
        let first_read = get_next_read_size (cfg ctx) (bsize ctx) 0
        in if first_read = 0 then Inl (done_eof st (ctx, k))
           else
             let st = st\<lparr>read_in_flight := True, rd_len := nat first_read, read_slot := 0, pipeline_primed := True\<rparr>;
                 (e, k) = next_err k
             in if e \<noteq> 0 \<and> e \<noteq> EINTR then Inl (done_fail st (dd_diagnose e ''io_uring: initial submission failed'' (ctx, k)))
                else Inr (st, ctx, k))"

text \<open>The next request for a read, after a write of \<open>n\<close> bytes from slot \<open>cur\<close> has been prepared.\<close>

definition uring_read_ahead :: "nat \<Rightarrow> 'h dd_context \<Rightarrow> uring_ring \<Rightarrow> uring_ring" where
  "uring_read_ahead n ctx st =
     (if read_eof st then st
      else
        let next_read_size = get_next_read_size (cfg ctx) (bsize ctx) (w_bytes (stats ctx) + int n)
        in if 0 < next_read_size
           then st\<lparr>read_in_flight := True, rd_len := nat next_read_size, read_slot := (write_slot st + 1) mod URING_NUM_BUFFERS\<rparr>
           else st\<lparr>read_eof := True\<rparr>)"

definition uring_pump :: "'h hash_api \<Rightarrow> uring_ring \<Rightarrow> 'h st \<Rightarrow> (uring_ring, 'h) step_out option" where
  "uring_pump H st w =
     (case w of (ctx, k) \<Rightarrow>
        let slot = ur_slots st ! read_slot st;
            max_allowed = bytes_to_copy (cfg ctx) - w_bytes (stats ctx)
        in if read_eof st \<and> us_length slot = 0 then done_eof st (ctx, k)
           else if 0 \<le> bytes_to_copy (cfg ctx) \<and> max_allowed \<le> 0 then done_eof st (ctx, k)
           else
             let n = (if 0 \<le> bytes_to_copy (cfg ctx) \<and> max_allowed < int (us_length slot) then nat max_allowed
                      else us_length slot);
                 ctx = (if 0 < n then hash_feed H (take n (us_buf slot)) ctx else ctx);
                 st = st\<lparr>write_in_flight := True, write_slot := read_slot st, wr_len := n\<rparr>;
                 st = uring_read_ahead n ctx st;
                 (e, k) = next_err k
             in if e \<noteq> 0 \<and> e \<noteq> EINTR then done_fail st (dd_diagnose e ''io_uring: pipelined submission failed'' (ctx, k))
                else done_ok st (ctx, k))"

definition uring_ring_step :: "'h hash_api \<Rightarrow> uring_ring \<Rightarrow> 'h st \<Rightarrow> (uring_ring, 'h) step_out option" where
  "uring_ring_step H st w =
     (case (if pipeline_primed st then Inr (st, w) else uring_prime st w) of
        Inl out \<Rightarrow> out
      | Inr (st, w) \<Rightarrow>
          (case uring_harvest st w of
             None \<Rightarrow> None
           | Some (h, st, w) \<Rightarrow>
               if h = Yielded then done_ok st w
               else if h = Failed then done_fail st w
               else uring_pump H st w))"

definition map_dstate :: "('s \<Rightarrow> 't) \<Rightarrow> ('s, 'h) step_out \<Rightarrow> ('t, 'h) step_out" where
  "map_dstate f r = \<lparr>rc = rc r, eof = eof r, fallback = fallback r, dstate = f (dstate r), world = world r\<rparr>"

definition uring_driver_step :: "'h hash_api \<Rightarrow> uring_driver_state \<Rightarrow> 'h st \<Rightarrow> (uring_driver_state, 'h) step_out option" where
  "uring_driver_step H st w =
     (case st of
        Sharded sh \<Rightarrow> map_option (map_dstate Sharded) (uring_sharded_step sh w)
      | Ring st \<Rightarrow> map_option (map_dstate Ring) (uring_ring_step H st w))"

section \<open>Flush and cleanup\<close>

text \<open>
  Flush waits for the write in flight; a completion of the read is dropped (no longer being in flight is
  how the model says that it cannot arrive again). An error of the write is not reported.
\<close>

lemma next_reap_answers:
  "next_reap k = (c, k') \<Longrightarrow> c \<noteq> ReapAll \<Longrightarrow> length (reaps (plat k')) < length (reaps (plat k))"
  by (auto simp: next_reap_def split: list.splits)

lemma uring_read_plat: "uring_read st k = (r, k') \<Longrightarrow> plat k' = plat k"
  by (auto simp: uring_read_def pread_def sys_read0_def take_input_def split: if_splits list.splits ans.splits)

function uring_flush :: "uring_ring \<Rightarrow> 'h st \<Rightarrow> uring_ring \<times> 'h st" where
  "uring_flush st w =
     (if \<not> write_in_flight st then (st, w)
      else
        (case w of (ctx, k) \<Rightarrow>
           (case next_reap k of (c, k) \<Rightarrow>
              if wait_errno c = EINTR then uring_flush st (ctx, k)
              else if wait_errno c \<noteq> 0 then (st, ctx, k)
              else if c = ReapRead \<and> read_in_flight st
              then uring_flush (st\<lparr>read_in_flight := False\<rparr>) (ctx, snd (uring_read st k))
              else (case uring_write st k of
                      (Inl e, k) \<Rightarrow> (st\<lparr>write_in_flight := False\<rparr>, ctx, k)
                    | (Inr n, k') \<Rightarrow>
                        if n = 0 then (st\<lparr>write_in_flight := False\<rparr>, ctx, k')
                        else (case uring_write_done st (ctx, k) of (ok, st, w) \<Rightarrow> (st, w))))))"
  by pat_completeness auto

termination
proof (relation "measure (\<lambda>(st, w). length (reaps (plat (snd w))))", goal_cases)
  case (3 st w ctx k c k')
  then show ?case
    using next_reap_answers [of k c k'] by (cases "uring_read st k'") (auto dest!: uring_read_plat)
qed (auto dest!: sym [of "(_, _)" "next_reap _"] next_reap_answers)

declare uring_flush.simps [simp del]

text \<open>
  Cleanup asks the workers of a sharded transfer to stop and joins them: four micro-steps are enough for
  each. Of the single ring nothing remains but memory.
\<close>

definition uring_shards_join :: "uring_sharded_state \<Rightarrow> kern \<Rightarrow> uring_sharded_state \<times> kern" where
  "uring_shards_join sh k = shard_turns (4 * length (workers sh)) (sh\<lparr>abort_requested := True\<rparr>) k"

definition uring_driver_cleanup :: "uring_driver_state \<Rightarrow> 'h st \<Rightarrow> 'h st" where
  "uring_driver_cleanup st w =
     (case st of Sharded sh \<Rightarrow> (fst w, snd (uring_shards_join sh (snd w))) | Ring st \<Rightarrow> w)"

fun stop_weight :: "shard_pc \<Rightarrow> nat" where
  "stop_weight SW_CLAIM = 2"
| "stop_weight (SW_READ off len d) = 3"
| "stop_weight (SW_WRITE off len d bs wr) = 4"
| "stop_weight SW_STOP = 1"
| "stop_weight SW_GONE = 0"

definition stop_left :: "uring_sharded_state \<Rightarrow> nat" where
  "stop_left s = sum_list (map stop_weight (workers s))"

lemma stop_weight_update:
  "i < length ws \<Longrightarrow> stop_weight pc < stop_weight (ws ! i) \<Longrightarrow>
     sum_list (map stop_weight (ws[i := pc])) < sum_list (map stop_weight ws)"
  by (induction ws arbitrary: i) (auto split: nat.splits simp: nth_Cons)

lemma worker_step_stops:
  assumes "abort_requested s" "i < length (workers s)" "workers s ! i \<noteq> SW_GONE"
  shows "abort_requested (fst (worker_step i s k)) \<and> stop_left (fst (worker_step i s k)) < stop_left s"
  using assms
  by (cases "workers s ! i")
    (auto simp: worker_step_def shard_claim_def shard_read_def shard_write_def set_worker_def stop_left_def intro!: stop_weight_update)

lemma shard_turns_stop:
  "abort_requested s \<Longrightarrow> stop_left s \<le> n \<Longrightarrow> list_all (\<lambda>pc. pc = SW_GONE) (workers (fst (shard_turns n s k)))"
proof (induction n arbitrary: s k)
  case 0
  then have "\<forall>pc \<in> set (workers s). stop_weight pc = 0" by (simp add: stop_left_def)
  moreover have "stop_weight pc = 0 \<Longrightarrow> pc = SW_GONE" for pc by (cases pc) auto
  ultimately show ?case by (simp add: list_all_iff)
next
  case (Suc n)
  obtain m k1 where t: "next_turn k = (m, k1)" by fastforce
  show ?case
  proof (cases "pick_worker m s < length (workers s)")
    case False
    then have "length (takeWhile (\<lambda>pc. pc = SW_GONE) (workers s)) = length (workers s)"
      using length_takeWhile_le [of "\<lambda>pc. pc = SW_GONE" "workers s"] by (auto simp: pick_worker_def split: if_splits)
    then have "takeWhile (\<lambda>pc. pc = SW_GONE) (workers s) = workers s" by (metis takeWhile_eq_take take_all order_refl)
    then show ?thesis using t False by (simp add: takeWhile_eq_all_conv list_all_iff)
  next
    case True
    obtain s1 k2 where w: "worker_step (pick_worker m s) s k1 = (s1, k2)" by fastforce
    have "abort_requested s1 \<and> stop_left s1 < stop_left s"
      using worker_step_stops [OF Suc.prems(1) True pick_worker_active [OF True], of k1] w by simp
    then show ?thesis using Suc.IH [of s1 k2] Suc.prems(2) t True w by simp
  qed
qed

text \<open>
  Cleanup of the sharded transfer cannot hang: wherever the workers are when the abort is requested,
  and whichever of them the scheduler runs, all of them reach their end.
\<close>

theorem uring_shards_join_all:
  "list_all (\<lambda>pc. pc = SW_GONE) (workers (fst (uring_shards_join sh k)))"
proof -
  have "stop_weight pc \<le> 4" for pc by (cases pc) auto
  then have "sum_list (map stop_weight ws) \<le> 4 * length ws" for ws
    by (induction ws) (simp_all add: add_mono)
  then show ?thesis
    unfolding uring_shards_join_def by (intro shard_turns_stop) (simp_all add: stop_left_def)
qed

end
