(* ===== verification/DriverSelect.thy ===== *)
theory DriverSelect
  imports SyncDriver ReflinkDriver SpliceDriver AsyncDriver UringDriver
begin

text \<open>
  The choice of a backend in \<open>src/src/io_engine.c\<close> and the table of backends behind the interface of
  \<open>src/src/io_driver.h\<close>: the pointer to a driver is a constructor, its opaque state a constructor around the
  state of that driver.
\<close>

section \<open>The choice\<close>

datatype driver = sync_io_driver | async_io_driver | reflink_io_driver | splice_io_driver | uring_io_driver

text \<open>What the opportunistic choice of a zero-copy driver asks of the options.\<close>

definition zero_copy_allowed :: "'h dd_context \<Rightarrow> bool" where
  "zero_copy_allowed ctx \<longleftrightarrow>
     \<not> conv (cfg ctx) (C_SWAB OR C_SYNC OR C_SHA256 OR C_BLAKE3 OR C_BLKS OR C_SPARSE OR C_AUTOTUNE) \<and>
     \<not> iread_fnc ctx \<and> \<not> i_nocache (cfg ctx) \<and> \<not> o_nocache (cfg ctx) \<and>
     \<not> any_set (input_flags (cfg ctx)) (O_DIRECT OR O_NOCACHE) \<and>
     \<not> any_set (output_flags (cfg ctx)) (O_DIRECT OR O_NOCACHE)"

definition direct_io :: "dd_config \<Rightarrow> bool" where
  "direct_io c \<longleftrightarrow> any_set (input_flags c) O_DIRECT \<or> any_set (output_flags c) O_DIRECT"

text \<open>An engine that was asked for, by \<open>--engine\<close> or by a conversion bit; \<open>None\<close> leaves the choice to the code.\<close>

definition explicit_driver :: "dd_config \<Rightarrow> driver option" where
  "explicit_driver c =
     (if engine c = ENGINE_URING \<or> conv c C_URING then Some uring_io_driver
      else if engine c = ENGINE_REFLINK \<or> conv c C_REFLINK then Some reflink_io_driver
      else if engine c = ENGINE_SPLICE \<or> conv c C_SPLICE then Some splice_io_driver
      else if engine c = ENGINE_ASYNC \<or> conv c C_ASYNC \<or> any_set (output_flags c) O_ASYNC_PIPELINE then Some async_io_driver
      else if engine c = ENGINE_SYNC then Some sync_io_driver
      else None)"

definition dd_select_io_driver :: "'h st \<Rightarrow> driver" where
  "dd_select_io_driver w =
     (case w of (ctx, k) \<Rightarrow>
        (case explicit_driver (cfg ctx) of
           Some d \<Rightarrow> d
         | None \<Rightarrow>
             if zero_copy_allowed ctx \<and> in_type k = Some S_IFREG \<and> out_type k = Some S_IFREG then reflink_io_driver
             else if \<not> conv (cfg ctx) (C_SWAB OR C_AUTOTUNE) \<and>
                     (in_type k = Some S_IFBLK \<or> out_type k = Some S_IFBLK \<or> direct_io (cfg ctx) \<or> 1 < threads (cfg ctx))
             then uring_io_driver
             else if zero_copy_allowed ctx \<and> (in_type k = Some S_IFIFO \<or> out_type k = Some S_IFIFO) then splice_io_driver
             else sync_io_driver))"

section \<open>The table of drivers\<close>

datatype driver_state =
  SyncSt sync_driver_state
| AsyncSt async_pipeline
| ReflinkSt reflink_driver_state
| SpliceSt splice_driver_state
| UringSt uring_driver_state

definition driver_init :: "driver \<Rightarrow> 'h st \<Rightarrow> (driver_state, 'h) init_out" where
  "driver_init d w =
     (case d of
        sync_io_driver \<Rightarrow> (case sync_driver_init w of (s, w) \<Rightarrow> InitOk (SyncSt s) w)
      | async_io_driver \<Rightarrow>
          (case async_driver_init w of InitOk s w \<Rightarrow> InitOk (AsyncSt s) w | InitFail w \<Rightarrow> InitFail w | InitDies w \<Rightarrow> InitDies w)
      | reflink_io_driver \<Rightarrow> (case reflink_driver_init w of None \<Rightarrow> InitFail w | Some s \<Rightarrow> InitOk (ReflinkSt s) w)
      | splice_io_driver \<Rightarrow> (case splice_driver_init w of None \<Rightarrow> InitFail w | Some s \<Rightarrow> InitOk (SpliceSt s) w)
      | uring_io_driver \<Rightarrow> (case uring_driver_init w of (None, w) \<Rightarrow> InitFail w | (Some s, w) \<Rightarrow> InitOk (UringSt s) w))"

definition driver_step :: "'h hash_api \<Rightarrow> driver_state \<Rightarrow> 'h st \<Rightarrow> (driver_state, 'h) step_out option" where
  "driver_step H d w =
     (case d of
        SyncSt s \<Rightarrow> map_option (map_dstate SyncSt) (sync_driver_step H s w)
      | AsyncSt s \<Rightarrow> map_option (map_dstate AsyncSt) (async_driver_step H s w)
      | ReflinkSt s \<Rightarrow> map_option (map_dstate ReflinkSt) (reflink_driver_step s w)
      | SpliceSt s \<Rightarrow> map_option (map_dstate SpliceSt) (splice_driver_step s w)
      | UringSt s \<Rightarrow> map_option (map_dstate UringSt) (uring_driver_step H s w))"

text \<open>\<open>dd_copy\<close> drops the result of \<open>flush\<close>. \<open>None\<close>: an access outside a buffer, as for a step.\<close>

definition driver_flush :: "'h hash_api \<Rightarrow> driver_state \<Rightarrow> 'h st \<Rightarrow> (driver_state \<times> 'h st) option" where
  "driver_flush H d w =
     (case d of
        SyncSt s \<Rightarrow> map_option (\<lambda>(r, w). (d, w)) (sync_driver_flush H s w)
      | AsyncSt s \<Rightarrow> Some (d, snd (async_driver_flush H w))
      | ReflinkSt s \<Rightarrow> Some (d, w)
      | SpliceSt s \<Rightarrow> Some (d, w)
      | UringSt (Sharded s) \<Rightarrow> Some (d, w)
      | UringSt (Ring s) \<Rightarrow> (case uring_flush s w of (s, w) \<Rightarrow> Some (UringSt (Ring s), w)))"

definition driver_cleanup :: "driver_state \<Rightarrow> 'h st \<Rightarrow> 'h st option" where
  "driver_cleanup d w =
     (case d of
        SyncSt s \<Rightarrow> Some w
      | AsyncSt s \<Rightarrow> map_option snd (async_driver_cleanup s w)
      | ReflinkSt s \<Rightarrow> Some w
      | SpliceSt s \<Rightarrow> Some w
      | UringSt s \<Rightarrow> Some (uring_driver_cleanup s w))"

lemmas driver_simps = driver_init_def driver_step_def driver_flush_def driver_cleanup_def



end
