(* ===== verification/CopyLoop.thy ===== *)
theory CopyLoop
  imports DriverSelect
begin

text \<open>
  The orchestration of a copy in \<open>src/src/io_engine.c\<close>: skipping and seeking, the one loop around the
  driver's \<open>step\<close> with its signals, limits and fallback, flushing, the end of a sparse file, the digest.
\<close>

section \<open>Outcomes\<close>

text \<open>
  How a part of the program can end: it returns; the process exits with a status, or is killed by a signal;
  it accesses memory outside a buffer; or the fuel given to the model's loop was too little.
\<close>

datatype ('a, 'h) run = Ret 'a "'h st" | Exits int "'h st" | Killed int "'h st" | Undefd | NoFuel

fun run_bind :: "('a, 'h) run \<Rightarrow> ('a \<Rightarrow> 'h st \<Rightarrow> ('b, 'h) run) \<Rightarrow> ('b, 'h) run" where
  "run_bind (Ret a w) f = f a w"
| "run_bind (Exits e w) f = Exits e w"
| "run_bind (Killed s w) f = Killed s w"
| "run_bind Undefd f = Undefd"
| "run_bind NoFuel f = NoFuel"

section \<open>Closing and signals\<close>

text \<open>\<open>iclose\<close>: closing again while it is interrupted. \<open>9\<close> is \<open>EBADF\<close>.\<close>

function iclose_retry :: "kern \<Rightarrow> int \<times> kern" where
  "iclose_retry k =
     (if errno k \<noteq> EINTR then (- 1, k)
      else (case next_err k of (e, k') \<Rightarrow> if e \<noteq> 0 \<and> e \<noteq> 9 then iclose_retry k' else (0, k')))"
  by pat_completeness auto
termination
  by (relation "measure (\<lambda>k. length (err_ans (plat k)))") (auto simp: next_err_def split: list.splits)

declare iclose_retry.simps [simp del]

definition iclose :: "kern \<Rightarrow> int \<times> kern" where
  "iclose k = (case next_err k of (e, k) \<Rightarrow> if e \<noteq> 0 then iclose_retry k else (0, k))"

definition close_streams :: "'h st \<Rightarrow> (unit, 'h) run" where
  "close_streams w =
     (case w of (ctx, k) \<Rightarrow>
        (case iclose k of (r, k) \<Rightarrow>
           if r \<noteq> 0 then Exits EXIT_FAILURE (ctx, emit (Diagnose (errno k) ''closing input file'') k)
           else (case iclose k of (r, k) \<Rightarrow>
              if r \<noteq> 0 then Exits EXIT_FAILURE (ctx, emit (Diagnose (errno k) ''closing output file'') k)
              else Ret () (ctx, k))))"

text \<open>
  One look at the signals: \<open>sigs\<close> says how many information requests are pending and which interrupt. An
  interrupt closes the streams (without synchronising), reports, and raises the signal with its default
  action; an information request reports.
\<close>

definition next_sigs :: "kern \<Rightarrow> (nat \<times> int) \<times> kern" where
  "next_sigs k =
     (case sigs (plat k) of [] \<Rightarrow> ((0, 0), k) | s # ss \<Rightarrow> (s, k\<lparr>plat := (plat k)\<lparr>sigs := ss\<rparr>\<rparr>))"

definition dd_process_signals :: "'h st \<Rightarrow> (unit, 'h) run" where
  "dd_process_signals w =
     (case w of (ctx, k) \<Rightarrow>
        (case next_sigs k of ((infos, interrupt), k) \<Rightarrow>
           if interrupt \<noteq> 0
           then run_bind (close_streams (ctx, k)) (\<lambda>_ w. Killed interrupt (dd_print_stats w))
           else Ret () ((dd_print_stats ^^ infos) (ctx, k))))"

section \<open>Skipping\<close>

text \<open>
  \<open>skip\<close>: what is left of \<open>*bytes\<close> and the records not skipped. Where the descriptor does not seek, it reads.
  \<open>None\<close>: more bytes arrive than the buffer of one block holds, or the offset overflows.
\<close>

fun skip_read :: "fd \<Rightarrow> nat \<Rightarrow> nat \<Rightarrow> kern \<Rightarrow> nat \<times> kern" where
  "skip_read fd bs 0 k = (0, k)"
| "skip_read fd bs (Suc n) k =
     (case dd_iread fd bs k of
        (Inl e, k) \<Rightarrow> (Suc n, k)
      | (Inr data, k) \<Rightarrow> if data = [] then (Suc n, k) else skip_read fd bs n k)"

definition skip :: "fd \<Rightarrow> int \<Rightarrow> int \<Rightarrow> int \<Rightarrow> kern \<Rightarrow> (int \<times> int \<times> kern) option" where
  "skip fd records bs bytes k =
     (let offset = records * bs + bytes
      in if \<not> in_intmax offset then None
         else (case sys_lseek fd offset k of
                 (Some off, k) \<Rightarrow> Some (0, 0, k)
               | (None, k) \<Rightarrow>
                   (case skip_read fd (nat bs) (nat records) k of (left, k) \<Rightarrow>
                      if left \<noteq> 0 then Some (bytes, int left, k)
                      else if 0 < bytes
                      then (case dd_iread fd (nat bytes) k of
                              (Inl e, k) \<Rightarrow> Some (bytes, 0, k)
                            | (Inr data, k) \<Rightarrow>
                                if bs < int (length data) then None else Some (bytes - int (length data), 0, k))
                      else Some (bytes, 0, k))))"

definition skip_input :: "'h st \<Rightarrow> 'h st option" where
  "skip_input w =
     (case w of (ctx, k) \<Rightarrow>
        if skip_records (cfg ctx) = 0 \<and> skip_bytes (cfg ctx) = 0 then Some (ctx, k)
        else
          (case ckd_mul (skip_records (cfg ctx)) (bsize ctx) of (ov1, prod1) \<Rightarrow>
          (case (if ov1 then (True, prod1) else ckd_add (skip_bytes (cfg ctx)) prod1) of (overflow, us_bytes) \<Rightarrow>
          (case skip STDIN_FILENO (skip_records (cfg ctx)) (bsize ctx) (skip_bytes (cfg ctx)) k of
             None \<Rightarrow> None
           | Some (bytes, us_blocks, k) \<Rightarrow>
               let off0 = input_offset ctx;
                   ctx = ctx\<lparr>cfg := (cfg ctx)\<lparr>skip_bytes := bytes\<rparr>\<rparr>
               in Some (if (us_blocks \<noteq> 0 \<or> 0 \<le> input_offset ctx \<and> (overflow \<or> us_bytes \<noteq> input_offset ctx - off0)) \<and>
                           status_level (cfg ctx) \<noteq> STATUS_NONE
                        then dd_diagnose 0 ''cannot skip to specified offset'' (ctx, k) else (ctx, k))))))"

text \<open>The zero blocks for a target that does not seek: \<open>n\<close> blocks, the last one shorter if \<open>seek_bytes\<close> says so.\<close>

fun seek_zeros :: "'h hash_api \<Rightarrow> nat \<Rightarrow> 'h st \<Rightarrow> (int \<times> 'h st) option" where
  "seek_zeros H 0 w = Some (EXIT_SUCCESS, w)"
| "seek_zeros H (Suc n) w =
     (case w of (ctx, k) \<Rightarrow>
        let sz = nat (if n = 0 \<and> seek_bytes (cfg ctx) \<noteq> 0 then seek_bytes (cfg ctx) else bsize ctx)
        in if length (obuf_bytes ctx) < sz then None
           else (case dd_iwrite H (take sz (obuf_bytes ctx)) (ctx, k) of
                   (m, ctx, k) \<Rightarrow>
                     if m \<noteq> sz then Some (EXIT_FAILURE, dd_diagnose (errno k) ''error writing'' (ctx, k))
                     else seek_zeros H n (ctx, k)))"

definition seek_output :: "'h hash_api \<Rightarrow> 'h st \<Rightarrow> (int \<times> 'h st) option" where
  "seek_output H w =
     (case w of (ctx, k) \<Rightarrow>
        if seek_records (cfg ctx) = 0 \<and> seek_bytes (cfg ctx) = 0 then Some (EXIT_SUCCESS, ctx, k)
        else (case skip STDOUT_FILENO (seek_records (cfg ctx)) (bsize ctx) (seek_bytes (cfg ctx)) k of
                None \<Rightarrow> None
              | Some (bytes, write_records, k) \<Rightarrow>
                  let ctx = ctx\<lparr>cfg := (cfg ctx)\<lparr>seek_bytes := bytes\<rparr>\<rparr>
                  in if write_records = 0 then Some (EXIT_SUCCESS, ctx, k)
                     else
                       let ctx = dd_alloc_obuf k ctx;
                           ctx = set_obuf (blit (obuf_bytes ctx) 0 (replicate (bs_nat ctx) 0)) ctx
                       in seek_zeros H (nat write_records) (ctx, k)))"

section \<open>The loop\<close>

definition hash_begin :: "'h hash_api \<Rightarrow> 'h dd_context \<Rightarrow> 'h dd_context" where
  "hash_begin H ctx =
     (if conv (cfg ctx) C_SHA256 then ctx\<lparr>ctx_hash_algo := HASH_ALGO_SHA256, sha_evp_ctx := EVP_new H\<rparr>
      else if conv (cfg ctx) C_BLAKE3 then ctx\<lparr>ctx_hash_algo := HASH_ALGO_BLAKE3, b3_hasher := blake3_init H\<rparr>
      else if conv (cfg ctx) C_BLKS then ctx\<lparr>ctx_hash_algo := HASH_ALGO_BLKS, blks_hasher := blks_new H\<rparr>
      else ctx\<lparr>ctx_hash_algo := hash_algo (cfg ctx)\<rparr>)"

definition hash_end :: "'h hash_api \<Rightarrow> 'h dd_context \<Rightarrow> 'h dd_context" where
  "hash_end H ctx =
     (if conv (cfg ctx) C_SHA256
      then (case sha_evp_ctx ctx of
              None \<Rightarrow> ctx\<lparr>sha_computed := True\<rparr>
            | Some h \<Rightarrow> ctx\<lparr>sha_digest := EVP_final H h, sha_evp_ctx := None, sha_computed := True\<rparr>)
      else if conv (cfg ctx) C_BLAKE3
      then ctx\<lparr>sha_digest := blake3_finalize H (b3_hasher ctx), sha_computed := True\<rparr>
      else if conv (cfg ctx) C_BLKS
      then (case blks_hasher ctx of
              None \<Rightarrow> ctx\<lparr>sha_computed := True\<rparr>
            | Some h \<Rightarrow> ctx\<lparr>sha_digest := blks_finalize H h, blks_hasher := None, sha_computed := True\<rparr>)
      else ctx)"

definition init_driver :: "'h st \<Rightarrow> (driver_state, 'h) run" where
  "init_driver w =
     (case driver_init (dd_select_io_driver w) w of
        InitOk d w \<Rightarrow> Ret d w
      | InitDies w \<Rightarrow> Exits EXIT_FAILURE w
      | InitFail w \<Rightarrow> (case sync_driver_init w of (s, w) \<Rightarrow> Ret (SyncSt s) w))"

definition limit_reached :: "'h dd_context \<Rightarrow> bool" where
  "limit_reached ctx \<longleftrightarrow>
     (if 0 \<le> bytes_to_copy (cfg ctx) then bytes_to_copy (cfg ctx) \<le> w_bytes (stats ctx)
      else max_records (cfg ctx) + (if max_bytes (cfg ctx) \<noteq> 0 then 1 else 0) \<le> r_partial (stats ctx) + r_full (stats ctx))"

text \<open>\<open>while (!eof)\<close>, at most \<open>n\<close> rounds: the exit status and the driver in use at the end.\<close>

fun copy_loop :: "nat \<Rightarrow> 'h hash_api \<Rightarrow> driver_state \<Rightarrow> 'h st \<Rightarrow> (int \<times> driver_state, 'h) run" where
  "copy_loop 0 H d w = NoFuel"
| "copy_loop (Suc n) H d w =
     run_bind (dd_process_signals w) (\<lambda>_ w.
       if limit_reached (fst w) then Ret (EXIT_SUCCESS, d) w
       else (case driver_step H d w of
               None \<Rightarrow> Undefd
             | Some r \<Rightarrow>
                 if fallback r then
                   (case driver_cleanup (dstate r) (world r) of
                      None \<Rightarrow> Undefd
                    | Some w \<Rightarrow>
                        (case sync_driver_init w of (s, w) \<Rightarrow>
                           if eof r then Ret (EXIT_SUCCESS, SyncSt s) w else copy_loop n H (SyncSt s) w))
                 else if rc r \<noteq> EXIT_SUCCESS then Ret (EXIT_FAILURE, dstate r) (world r)
                 else
                   let w = dd_check_progress (world r)
                   in if eof r then Ret (EXIT_SUCCESS, dstate r) w else copy_loop n H (dstate r) w))"

section \<open>After the loop\<close>

text \<open>\<open>ftruncate\<close> of the target, and the attempt to extend it with a byte where that fails.\<close>

definition set_length :: "nat \<Rightarrow> kern \<Rightarrow> kern" where
  "set_length n k = k\<lparr>out_data := take n (out_data k) @ replicate (n - length (out_data k)) 0\<rparr>"

definition finish_sparse :: "'h st \<Rightarrow> 'h st" where
  "finish_sparse w =
     (case w of (ctx, k) \<Rightarrow>
        if \<not> final_op_was_seek ctx then (ctx, k)
        else
          (ctx\<lparr>final_op_was_seek := False\<rparr>,
           (if out_type k = Some S_IFREG
            then (case sys_lseek STDOUT_FILENO 0 k of
                    (None, k) \<Rightarrow> k
                  | (Some pos, k) \<Rightarrow>
                      if pos \<le> 0 then k
                      else (case next_err k of (e, k) \<Rightarrow>
                              if e = 0 then set_length (nat pos) k
                              else (case sys_lseek STDOUT_FILENO (- 1) k of
                                      (None, k) \<Rightarrow> k
                                    | (Some p, k) \<Rightarrow> snd (sys_write [0] k))))
            else k)))"

definition dd_finish :: "'h hash_api \<Rightarrow> int \<Rightarrow> driver_state \<Rightarrow> 'h st \<Rightarrow> (int, 'h) run" where
  "dd_finish H status d w =
     (case driver_flush H d w of
        None \<Rightarrow> Undefd
      | Some (d, w) \<Rightarrow>
          (case driver_cleanup d w of
             None \<Rightarrow> Undefd
           | Some w \<Rightarrow> (case finish_sparse w of (ctx, k) \<Rightarrow> Ret status (hash_end H ctx, k))))"

definition dd_copy :: "nat \<Rightarrow> 'h hash_api \<Rightarrow> 'h st \<Rightarrow> (int, 'h) run" where
  "dd_copy n H w =
     (case skip_input w of
        None \<Rightarrow> Undefd
      | Some w \<Rightarrow>
          (case seek_output H w of
             None \<Rightarrow> Undefd
           | Some (r, ctx, k) \<Rightarrow>
               if r \<noteq> EXIT_SUCCESS then Ret EXIT_FAILURE (ctx, k)
               else if max_records (cfg ctx) = 0 \<and> max_bytes (cfg ctx) = 0 then Ret EXIT_SUCCESS (ctx, k)
               else
                 run_bind (init_driver (hash_begin H ctx, k)) (\<lambda>d w.
                   run_bind (copy_loop n H d w) (\<lambda>(status, d) w. dd_finish H status d w))))"

lemmas copy_eval = sync_eval dd_copy_def skip_input_def seek_output_def init_driver_def dd_select_io_driver_def explicit_driver_def
  zero_copy_allowed_def driver_init_def driver_step_def driver_flush_def driver_cleanup_def map_dstate_def dd_finish_def
  finish_sparse_def hash_begin_def hash_end_def limit_reached_def dd_process_signals_def next_sigs_def plat0_def copy_loop.simps
  reflink_driver_init_def zero_copy_refuses_def reflink_driver_step_def sys_copy_file_range_def cfr_copy_def pop_cfr_def
  zero_copy_limit_def reflink_count_def

end
