(* ===== verification/CopyErrors.thy ===== *)
theory CopyErrors
  imports CopyLoop
begin

text \<open>
  Runs of \<open>dd_copy\<close> (\<open>src/src/io_engine.c\<close>) that end with success although something went wrong, and a
  message that something went wrong although it did not.
\<close>



text \<open>
  C38: \<open>--skip\<close> on an input that seeks skips exactly as many bytes as it was told, and then says that it could
  not: the message compares with \<open>input_offset\<close>, which \<open>skip\<close> never moves.
\<close>

theorem skip_false_alarm:
  assumes "in_seek k" "0 \<le> skip_records (cfg ctx)" "0 \<le> skip_bytes (cfg ctx)" "0 < bsize ctx"
    and "skip_records (cfg ctx) \<noteq> 0 \<or> skip_bytes (cfg ctx) \<noteq> 0"
    and "in_intmax (skip_records (cfg ctx) * bsize ctx + skip_bytes (cfg ctx))"
    and "0 \<le> input_offset ctx" "status_level (cfg ctx) \<noteq> STATUS_NONE"
  shows "case skip_input (ctx, k) of
           None \<Rightarrow> False
         | Some (ctx', k') \<Rightarrow>
             in_off k' = in_off k + nat (skip_records (cfg ctx) * bsize ctx + skip_bytes (cfg ctx)) \<and>
             out_data k' = out_data k \<and> last (trace k') = Diagnose 0 ''cannot skip to specified offset''"
proof -
  let ?o = "skip_records (cfg ctx) * bsize ctx + skip_bytes (cfg ctx)"
  let ?k = "k\<lparr>in_off := nat (int (in_off k) + ?o)\<rparr>" and ?c = "ctx\<lparr>cfg := (cfg ctx)\<lparr>skip_bytes := 0\<rparr>\<rparr>"
  have pr: "0 \<le> skip_records (cfg ctx) * bsize ctx" using assms(2,4) by simp
  have o: "0 < ?o"
    using assms(2-5) pr by (metis add_cancel_right_left add_nonneg_pos add_pos_nonneg le_less mult_pos_pos)
  have sk: "skip STDIN_FILENO (skip_records (cfg ctx)) (bsize ctx) (skip_bytes (cfg ctx)) k = Some (0, 0, ?k)"
    using assms(1,6) o by (simp add: skip_def sys_lseek_def Let_def)
  have in1: "in_intmax (skip_records (cfg ctx) * bsize ctx)"
    using assms(3,6) pr by (auto simp: in_intmax_def INTMAX_MIN_def)
  have "wrap64 (skip_bytes (cfg ctx) + skip_records (cfg ctx) * bsize ctx) \<noteq> 0"
    using o assms(6) by (simp add: add.commute)
  then have d: "skip_input (ctx, k) = Some (dd_diagnose 0 ''cannot skip to specified offset'' (?c, ?k))"
    using assms(5,7,8) in1 by (auto simp: skip_input_def sk ckd_mul_def ckd_add_def Let_def split_def)
  obtain c1 k1 where r: "dd_diagnose 0 ''cannot skip to specified offset'' (?c, ?k) = (c1, k1)" by fastforce
  have "same_io ?k k1"
    using quiet_dd_diagnose [of "(?c, ?k)" 0 "''cannot skip to specified offset''"] r by (simp add: quiet_step_def)
  moreover have "last (trace k1) = Diagnose 0 ''cannot skip to specified offset''"
    using r by (auto simp: dd_diagnose_def emit_def split: prod.splits)
  ultimately show ?thesis
    using o unfolding d option.case r prod.case by (auto simp: same_io_def nat_add_distrib nat_int_add)
qed

lemma skip_false_alarm_witness:
  "case skip_input (ctx0 () 0 (dd_init_default_config\<lparr>blocksize := 2, skip_bytes := 1\<rparr>), file_to_file [1, 2, 3]) of
     None \<Rightarrow> False
   | Some (ctx', k') \<Rightarrow> in_off k' = 1 \<and> last (trace k') = Diagnose 0 ''cannot skip to specified offset''"
proof -
  let ?c = "ctx0 () 0 (dd_init_default_config\<lparr>blocksize := 2, skip_bytes := 1\<rparr>)" and ?k = "file_to_file [1, 2, 3]"
  have f: "skip_records (cfg ?c) = 0" "skip_bytes (cfg ?c) = 1" "bsize ?c = 2" "input_offset ?c = 0"
      "status_level (cfg ?c) \<noteq> STATUS_NONE" "in_seek ?k" "in_off ?k = 0" "in_intmax 1"
    by (simp_all add: ctx0_def dd_init_default_config_def file_to_file_def in_intmax_def INTMAX_MAX_def INTMAX_MIN_def)
  have "case skip_input (?c, ?k) of
      None \<Rightarrow> False
    | Some (ctx', k') \<Rightarrow>
        in_off k' = in_off ?k + nat (skip_records (cfg ?c) * bsize ?c + skip_bytes (cfg ?c)) \<and>
        out_data k' = out_data ?k \<and> last (trace k') = Diagnose 0 ''cannot skip to specified offset''"
    by (rule skip_false_alarm) (simp_all add: f)
  then show ?thesis by (auto simp: f split: option.splits)
qed

end
