(* ===== verification/UringContract.thy ===== *)
theory UringContract
  imports UringDriver
begin

text \<open>
  The single-ring pipeline of \<open>src/src/io_uring.c\<close> keeps the contract of the drivers: although a read and a
  write are in flight at a time and their completions are found in any order and number, the source arrives at
  the target byte for byte. The requests are taken to be answered the way regular files and devices do: a write
  is carried out in full or fails, and no completion says \<open>EINTR\<close> or \<open>EAGAIN\<close>.
\<close>

section \<open>The kernel as the ring sees it\<close>

text \<open>The descriptors at the positions the next requests carry.\<close>

definition uring_kern :: "uring_ring \<Rightarrow> kern \<Rightarrow> kern" where
  "uring_kern st k = k\<lparr>in_off := (if ur_in_seekable st then ur_in_pos st else in_off k),
                       out_off := (if ur_out_seekable st then ur_out_pos st else out_off k)\<rparr>"

text \<open>
  \<open>pend\<close>: the bytes of the write in flight. \<open>held\<close>: bytes that have been read and wait for their write.
  \<open>uring_eff\<close>: the kernel with the one carried out and the other not yet taken.
\<close>

definition pend :: "uring_ring \<Rightarrow> byte list" where
  "pend st = (if write_in_flight st then write_req st else [])"

definition held :: "uring_ring \<Rightarrow> byte list" where
  "held st = (if pipeline_primed st \<and> \<not> read_in_flight st \<and> \<not> read_eof st
              then take (us_length (ur_slots st ! read_slot st)) (us_buf (ur_slots st ! read_slot st)) else [])"

definition ring_eff :: "uring_ring \<Rightarrow> kern \<Rightarrow> kern" where
  "ring_eff st k = (put_output (pend st) (uring_kern st k))\<lparr>in_off := in_off (uring_kern st k) - length (held st)\<rparr>"

definition whole_ans :: "nat \<Rightarrow> ans \<Rightarrow> bool" where
  "whole_ans n a \<longleftrightarrow> (case a of Xfer m \<Rightarrow> n \<le> m | Fail e \<Rightarrow> e \<noteq> EINTR \<and> e \<noteq> EAGAIN)"

lemma ring_eff_props:
  "avail (ring_eff st k) = drop (in_off (uring_kern st k) - length (held st)) (in_data k)"
  "view (ring_eff st k) = view (uring_kern st k) @ pend st"
  "beyond (ring_eff st k) = drop (length (pend st)) (beyond (uring_kern st k))"
  "out_fl (ring_eff st k) = out_fl k" "out_seek (ring_eff st k) = out_seek k" "out_type (ring_eff st k) = out_type k"
  "in_seek (ring_eff st k) = in_seek k" "in_type (ring_eff st k) = in_type k" "out_data (ring_eff st k) = out_data (put_output (pend st) (uring_kern st k))"
proof -
  have u: "in_data (uring_kern st k) = in_data k" "out_fl (uring_kern st k) = out_fl k" "out_seek (uring_kern st k) = out_seek k"
    "out_type (uring_kern st k) = out_type k" "in_seek (uring_kern st k) = in_seek k" "in_type (uring_kern st k) = in_type k"
    by (simp_all add: uring_kern_def)
  let ?p = "put_output (pend st) (uring_kern st k)"
  have e: "extends (pend st) (uring_kern st k) ?p" using puts_put_output putsD(1) by blast
  have i: "out_pos (ring_eff st k) = out_pos ?p" by (simp add: ring_eff_def out_pos_def)
  show "avail (ring_eff st k) = drop (in_off (uring_kern st k) - length (held st)) (in_data k)"
    by (simp add: ring_eff_def avail_def put_output_def u)
  show "view (ring_eff st k) = view (uring_kern st k) @ pend st"
    using extendsD(1) [OF e] by (simp add: view_def i) (simp add: ring_eff_def)
  show "beyond (ring_eff st k) = drop (length (pend st)) (beyond (uring_kern st k))"
    using extendsD(2) [OF e] by (simp add: beyond_def i) (simp add: ring_eff_def)
  show "out_data (ring_eff st k) = out_data ?p" by (simp add: ring_eff_def)
qed (simp_all add: ring_eff_def put_output_def uring_kern_def)

lemma uring_read_cases:
  assumes "uring_read st k = (r, k')"
  obtains (data) bs where "r = Inr bs"
      "consumes bs (uring_kern st k) (uring_kern (st\<lparr>ur_in_pos := (if ur_in_seekable st then ur_in_pos st + length bs else ur_in_pos st)\<rparr>) k')"
      "length bs \<le> rd_len st" "bs = [] \<longrightarrow> rd_len st = 0 \<or> avail (uring_kern st k) = []" "plat k' = plat k"
      "set (rd_ans k') \<subseteq> set (rd_ans k)" "wr_ans k' = wr_ans k" "out_fl k' = out_fl k" "in_data k' = in_data k"
      "out_data k' = out_data k"
  | (error) e where "r = Inl e" "Fail e \<in> set (rd_ans k)"
proof -
  let ?u = "if ur_in_seekable st then k\<lparr>in_off := ur_in_pos st\<rparr> else k"
  obtain q where q: "sys_read0 (rd_len st) ?u = (r, q)" and k': "k' = (if ur_in_seekable st then q\<lparr>in_off := in_off k\<rparr> else q)"
    using assms by (auto simp: uring_read_def pread_def split: if_splits prod.splits)
  have av: "avail (uring_kern st k) = avail ?u" "rd_ans ?u = rd_ans k" "in_off (uring_kern st k) = in_off ?u"
    by (auto simp: uring_kern_def avail_def)
  have rd: "set (rd_ans q) \<subseteq> set (rd_ans k)" using sys_read0_rd_ans [OF q] av(2) by simp
  show thesis
    using q
  proof (cases rule: sys_read0_cases)
    case (data bs as)
    have "consumes bs (uring_kern st k) (uring_kern (st\<lparr>ur_in_pos := (if ur_in_seekable st then ur_in_pos st + length bs else ur_in_pos st)\<rparr>) k')"
      using data(2) by (auto simp: consumes_def uring_kern_def avail_def k' data(6))
    then show thesis
      by (rule that(1) [OF data(1)]) (use data(3,4) rd in \<open>auto simp: av k' data(6)\<close>)
  next
    case (error e as)
    then show thesis using that(2) [OF error(1)] by (simp add: av)
  qed
qed

lemma uring_write_cases:
  assumes "uring_write st k = (r, k')" "ur_out_seekable st \<longrightarrow> \<not> any_set (out_fl k) O_APPEND"
    "\<forall>a \<in> set (wr_ans k). whole_ans n a" "length (write_req st) \<le> n"
  obtains (data) "r = Inr (length (write_req st))"
      "extends (write_req st) (uring_kern st k)
         (uring_kern (st\<lparr>ur_out_pos := (if ur_out_seekable st then ur_out_pos st + length (write_req st) else ur_out_pos st)\<rparr>) k')"
      "plat k' = plat k" "set (wr_ans k') \<subseteq> set (wr_ans k)" "rd_ans k' = rd_ans k" "in_data k' = in_data k" "in_off k' = in_off k"
      "out_data k' = out_data (put_output (write_req st) (uring_kern st k))" "out_fl k' = out_fl k"
  | (error) e where "r = Inl e" "Fail e \<in> set (wr_ans k)" "e \<noteq> EINTR" "e \<noteq> EAGAIN" "k' = k\<lparr>wr_ans := tl (wr_ans k), errno := e\<rparr>"
proof -
  let ?bs = "write_req st" and ?u = "if ur_out_seekable st then k\<lparr>out_off := ur_out_pos st\<rparr> else k"
  obtain q where q: "sys_write ?bs ?u = (r, q)" and k': "k' = (if ur_out_seekable st then q\<lparr>out_off := out_off k\<rparr> else q)"
    using assms(1) by (auto simp: uring_write_def pwrite_def split: if_splits prod.splits)
  show thesis
  proof (cases "\<exists>e as. wr_ans k = Fail e # as")
    case True
    then obtain e as where a: "wr_ans k = Fail e # as" by blast
    then have "r = Inl e" "q = ?u\<lparr>wr_ans := as, errno := e\<rparr>" using q by (simp_all add: sys_write_def split: if_splits)
    then show thesis using that(2) [of e] assms(3) a by (auto simp: whole_ans_def k')
  next
    case False
    define as where "as = (case wr_ans k of [] \<Rightarrow> [] | a # as \<Rightarrow> as)"
    have t: "take m ?bs = ?bs" if "wr_ans k = Xfer m # ms" for m ms
      using assms(3,4) that by (simp add: whole_ans_def)
    have q': "r = Inr (length ?bs) \<and> q = put_output ?bs (?u\<lparr>wr_ans := as\<rparr>)"
    proof (cases "wr_ans k")
      case Nil
      have "?u\<lparr>wr_ans := []\<rparr> = ?u" using Nil by (cases k) auto
      moreover have "as = []" by (simp add: as_def Nil)
      ultimately have u: "?u\<lparr>wr_ans := as\<rparr> = ?u" by (simp only:)
      have "r = Inr (length ?bs) \<and> q = put_output ?bs ?u" using q Nil by (auto simp: sys_write_def split: if_splits)
      then show ?thesis unfolding u .
    next
      case (Cons a ms)
      then show ?thesis using q False t by (cases a) (simp_all add: sys_write_def as_def split: if_splits)
    qed
    have as: "set as \<subseteq> set (wr_ans k)" by (cases "wr_ans k") (auto simp: as_def)
    have ex: "extends ?bs (uring_kern st k) (put_output ?bs (uring_kern st k))" using puts_put_output putsD(1) by blast
    have "extends [] (put_output ?bs (uring_kern st k))
      (uring_kern (st\<lparr>ur_out_pos := (if ur_out_seekable st then ur_out_pos st + length ?bs else ur_out_pos st)\<rparr>) k')"
      using q' assms(2) by (cases "?bs = []") (auto intro!: extends_cong simp: k' put_output_def uring_kern_def out_pos_def input_same_def)
    from extends_trans [OF ex this] show thesis
      using q' as by (intro that(1)) (auto simp: k' put_output_def uring_kern_def out_pos_def)
  qed
qed

section \<open>The invariant\<close>

definition uring_inv :: "uring_ring \<Rightarrow> 'h st \<Rightarrow> bool" where
  "uring_inv st w \<longleftrightarrow>
     (case w of (ctx, k) \<Rightarrow>
        length (ur_slots st) = URING_NUM_BUFFERS \<and> read_slot st < URING_NUM_BUFFERS \<and> write_slot st < URING_NUM_BUFFERS \<and>
        0 < bsize ctx \<and> (\<forall>s \<in> set (ur_slots st). bsize ctx \<le> int (length (us_buf s))) \<and>
        (\<forall>a \<in> set (rd_ans k). whole_ans 0 a) \<and> (\<forall>a \<in> set (wr_ans k). whole_ans (bs_nat ctx) a) \<and>
        (ur_out_seekable st \<longrightarrow> \<not> any_set (out_fl k) O_APPEND) \<and>
        (\<not> pipeline_primed st \<longrightarrow> \<not> read_in_flight st \<and> \<not> write_in_flight st \<and> \<not> read_eof st \<and> w_bytes (stats ctx) = 0) \<and>
        (read_in_flight st \<longrightarrow> 0 < rd_len st \<and> int (rd_len st) \<le> bsize ctx \<and> \<not> read_eof st) \<and>
        (write_in_flight st \<longrightarrow> 0 < wr_len st \<and> int (wr_len st) \<le> bsize ctx \<and> (\<not> read_eof st \<longrightarrow> read_slot st \<noteq> write_slot st)) \<and>
        (pipeline_primed st \<and> \<not> read_in_flight st \<and> \<not> read_eof st \<longrightarrow>
           0 < us_length (ur_slots st ! read_slot st) \<and> int (us_length (ur_slots st ! read_slot st)) \<le> bsize ctx) \<and>
        length (held st) \<le> in_off (uring_kern st k) \<and> avail (ring_eff st k) = held st @ avail (uring_kern st k) \<and>
        (0 \<le> bytes_to_copy (cfg ctx) \<longrightarrow>
           w_bytes (stats ctx) + int (length (pend st) + length (held st) + (if read_in_flight st then rd_len st else 0))
             \<le> bytes_to_copy (cfg ctx)) \<and>
        (read_eof st \<longrightarrow> us_length (ur_slots st ! read_slot st) = 0 \<and> avail (uring_kern st k) = [] \<or>
           0 \<le> bytes_to_copy (cfg ctx) \<and> bytes_to_copy (cfg ctx) \<le> w_bytes (stats ctx) + int (length (pend st))))"

lemma uring_invD:
  assumes "uring_inv st (ctx, k)"
  shows "length (ur_slots st) = URING_NUM_BUFFERS" "read_slot st < URING_NUM_BUFFERS" "write_slot st < URING_NUM_BUFFERS"
    "0 < bsize ctx" "\<And>s. s \<in> set (ur_slots st) \<Longrightarrow> bsize ctx \<le> int (length (us_buf s))"
    "\<forall>a \<in> set (rd_ans k). whole_ans 0 a" "\<forall>a \<in> set (wr_ans k). whole_ans (bs_nat ctx) a"
    "ur_out_seekable st \<longrightarrow> \<not> any_set (out_fl k) O_APPEND"
    "\<not> pipeline_primed st \<Longrightarrow> \<not> read_in_flight st \<and> \<not> write_in_flight st \<and> \<not> read_eof st \<and> w_bytes (stats ctx) = 0"
    "read_in_flight st \<Longrightarrow> 0 < rd_len st \<and> int (rd_len st) \<le> bsize ctx \<and> \<not> read_eof st"
    "write_in_flight st \<Longrightarrow> 0 < wr_len st \<and> int (wr_len st) \<le> bsize ctx \<and> (\<not> read_eof st \<longrightarrow> read_slot st \<noteq> write_slot st)"
    "pipeline_primed st \<Longrightarrow> \<not> read_in_flight st \<Longrightarrow> \<not> read_eof st \<Longrightarrow>
       0 < us_length (ur_slots st ! read_slot st) \<and> int (us_length (ur_slots st ! read_slot st)) \<le> bsize ctx"
    "length (held st) \<le> in_off (uring_kern st k)" "avail (ring_eff st k) = held st @ avail (uring_kern st k)"
    "0 \<le> bytes_to_copy (cfg ctx) \<Longrightarrow>
       w_bytes (stats ctx) + int (length (pend st) + length (held st) + (if read_in_flight st then rd_len st else 0))
         \<le> bytes_to_copy (cfg ctx)"
    "read_eof st \<Longrightarrow> us_length (ur_slots st ! read_slot st) = 0 \<and> avail (uring_kern st k) = [] \<or>
       0 \<le> bytes_to_copy (cfg ctx) \<and> bytes_to_copy (cfg ctx) \<le> w_bytes (stats ctx) + int (length (pend st))"
  using assms unfolding uring_inv_def prod.case by blast+

lemma slot_room:
  assumes "uring_inv st (ctx, k)" "i < URING_NUM_BUFFERS" "int n \<le> bsize ctx"
  shows "n \<le> length (us_buf (ur_slots st ! i))"
  using uring_invD(5) [OF assms(1), of "ur_slots st ! i"] uring_invD(1) [OF assms(1)] assms(2,3) by simp

lemma length_pend: "uring_inv st (ctx, k) \<Longrightarrow> length (pend st) = (if write_in_flight st then wr_len st else 0)"
  using slot_room [of st ctx k "write_slot st" "wr_len st"] uring_invD(3,11) [of st ctx k] by (auto simp: pend_def write_req_def)

text \<open>\<open>harvested\<close>: completions were found; what is in flight or held is all that changed places.\<close>

definition harvested :: "uring_ring \<Rightarrow> 'h st \<Rightarrow> uring_ring \<Rightarrow> 'h st \<Rightarrow> bool" where
  "harvested st w st' w' \<longleftrightarrow> uring_inv st' w' \<and> moves [] (ring_eff st (snd w)) (ring_eff st' (snd w')) \<and>
     w_bytes (stats (fst w')) + int (length (pend st')) = w_bytes (stats (fst w)) + int (length (pend st)) \<and>
     (\<exists>s. fst w' = (fst w)\<lparr>stats := s\<rparr>) \<and> plat (snd w') = plat (snd w) \<and> set (wr_ans (snd w')) \<subseteq> set (wr_ans (snd w)) \<and>
     pipeline_primed st' = pipeline_primed st"

lemma moves_ring_eff:
  assumes "avail (ring_eff st k) = avail (ring_eff st' k')" "view (uring_kern st k) @ pend st = view (uring_kern st' k') @ pend st'"
    "drop (length (pend st)) (beyond (uring_kern st k)) = drop (length (pend st')) (beyond (uring_kern st' k'))"
    "out_fl k' = out_fl k" "out_seek k' = out_seek k" "out_type k' = out_type k" "in_seek k' = in_seek k" "in_type k' = in_type k"
  shows "moves [] (ring_eff st k) (ring_eff st' k')"
  using assms by (simp add: moves_def ring_eff_props)

lemma uring_write_done_harvested:
  assumes inv: "uring_inv st w" and wf: "write_in_flight st" and d: "uring_write_done st w = (cont, st', w')" and c: "cont"
  shows "harvested st w st' w'"
proof -
  obtain ctx k where w: "w = (ctx, k)" by fastforce
  note i = uring_invD [OF inv [unfolded w]]
  obtain r k' where u: "uring_write st k = (r, k')" by fastforce
  have p: "pend st = write_req st" "length (write_req st) \<le> bs_nat ctx"
    using wf i(11) by (auto simp: pend_def write_req_def)
  show ?thesis
    using u i(8,7) p(2)
  proof (cases rule: uring_write_cases)
    case (error e)
    then show ?thesis using d c by (simp add: uring_write_done_def w u)
  next
    case data
    note e = extendsD [OF data(2)]
    have st': "st' = st\<lparr>write_in_flight := False, ur_out_pos := (if ur_out_seekable st then ur_out_pos st + length (write_req st) else ur_out_pos st)\<rparr>"
      using d by (simp add: uring_write_done_def w u data(1))
    obtain s where w': "w' = (ctx\<lparr>stats := s\<rparr>, k')" and s: "w_bytes s = w_bytes (stats ctx) + int (length (write_req st))"
      using d by (auto simp: uring_write_done_def w u data(1))
    have uk: "uring_kern st' k' = uring_kern (st\<lparr>ur_out_pos := (if ur_out_seekable st then ur_out_pos st + length (write_req st) else ur_out_pos st)\<rparr>) k'"
      by (simp add: st' uring_kern_def)
    have h: "held st' = held st" "pend st' = []" by (simp_all add: st' held_def pend_def)
    have io: "in_off (uring_kern st' k') = in_off (uring_kern st k)" "avail (uring_kern st' k') = avail (uring_kern st k)"
      using data(6,7) by (simp_all add: st' uring_kern_def avail_def)
    have av: "avail (ring_eff st' k') = avail (ring_eff st k)" by (simp add: ring_eff_props h io data(6))
    have fr: "out_fl k' = out_fl k" "out_seek k' = out_seek k" "out_type k' = out_type k" "in_seek k' = in_seek k" "in_type k' = in_type k"
      using e(3-6) by (simp_all add: uring_kern_def input_same_def)
    have "uring_inv st' w'"
      using i data(4,5) av io h fr s p(1) unfolding w' uring_inv_def prod.case st' by (auto simp: uring_kern_def pend_def held_def)
    moreover have "moves [] (ring_eff st k) (ring_eff st' k')"
      by (rule moves_ring_eff) (use av fr e(1,2) uk h p(1) in simp_all)
    moreover have "\<exists>t. fst w' = ctx\<lparr>stats := t\<rparr>" "pipeline_primed st' = pipeline_primed st" by (auto simp: w' st')
    ultimately show ?thesis using data(3,4) s p(1) h(2) by (simp add: harvested_def w) (simp add: w')
  qed
qed

lemma uring_read_done_harvested:
  assumes inv: "uring_inv st w" and rf: "read_in_flight st"
  shows "\<exists>cont st' w'. uring_read_done st w = Some (cont, st', w') \<and> (cont \<longrightarrow> harvested st w st' w')"
proof -
  obtain ctx k where w: "w = (ctx, k)" by fastforce
  note i = uring_invD [OF inv [unfolded w]]
  let ?slot = "ur_slots st ! read_slot st"
  obtain r k' where u: "uring_read st k = (r, k')" by fastforce
  have rd: "0 < rd_len st" "int (rd_len st) \<le> bsize ctx" "\<not> read_eof st" using i(10) rf by simp_all
  have room: "rd_len st \<le> length (us_buf ?slot)" by (rule slot_room [OF inv [unfolded w] i(2) rd(2)])
  have def: "uring_read_done st w = (case uring_read st k of
       (Inl e, k) \<Rightarrow>
         if e = EINTR \<or> e = EAGAIN then Some (True, st\<lparr>read_in_flight := False\<rparr>, ctx, k)
         else Some (False, st\<lparr>read_in_flight := False\<rparr>, dd_diagnose e ''io_uring: read error'' (ctx, k))
     | (Inr bs, k) \<Rightarrow>
         if bs = []
         then Some (True, st\<lparr>read_in_flight := False, read_eof := True, ur_slots := (ur_slots st)[read_slot st := ?slot\<lparr>us_length := 0\<rparr>]\<rparr>, ctx, k)
         else Some (True,
           st\<lparr>read_in_flight := False,
              ur_slots := (ur_slots st)[read_slot st := ?slot\<lparr>us_buf := blit (us_buf ?slot) 0 bs, us_length := length bs\<rparr>],
              ur_in_pos := (if ur_in_seekable st then ur_in_pos st + length bs else ur_in_pos st)\<rparr>,
           ctx\<lparr>stats := (stats ctx)\<lparr>
             r_full := (if 0 < bsize ctx \<and> int (length bs) = bsize ctx then r_full (stats ctx) + 1 else r_full (stats ctx)),
             r_partial := (if 0 < bsize ctx \<and> int (length bs) = bsize ctx then r_partial (stats ctx)
                           else r_partial (stats ctx) + 1)\<rparr>\<rparr>, k))"
    unfolding uring_read_done_def Let_def w prod.case using room by simp
  show ?thesis
    using u
  proof (cases rule: uring_read_cases)
    case (error e)
    then have "e \<noteq> EINTR \<and> e \<noteq> EAGAIN" using i(6) by (auto simp: whole_ans_def)
    then show ?thesis unfolding def u error(1) by auto
  next
    case (data bs)
    let ?sl = "(ur_slots st)[read_slot st := ?slot\<lparr>us_buf := (if bs = [] then us_buf ?slot else blit (us_buf ?slot) 0 bs), us_length := length bs\<rparr>]"
    define st' where "st' = st\<lparr>read_in_flight := False, read_eof := (bs = []), ur_slots := ?sl,
        ur_in_pos := (if ur_in_seekable st then ur_in_pos st + length bs else ur_in_pos st)\<rparr>"
    obtain s where d: "uring_read_done st w = Some (True, st', ctx\<lparr>stats := s\<rparr>, k')" and s: "w_bytes s = w_bytes (stats ctx)"
    proof (cases "bs = []")
      case True
      have "st' = st\<lparr>read_in_flight := False, read_eof := True, ur_slots := (ur_slots st)[read_slot st := ?slot\<lparr>us_length := 0\<rparr>]\<rparr>"
        by (simp add: st'_def True)
      then show thesis using that [of "stats ctx"] by (simp add: def u data(1) True)
    next
      case False
      have e: "st' = st\<lparr>read_in_flight := False, ur_slots := ?sl,
          ur_in_pos := (if ur_in_seekable st then ur_in_pos st + length bs else ur_in_pos st)\<rparr>"
        using rd(3) False by (cases st) (simp add: st'_def)
      let ?s = "(stats ctx)\<lparr>
          r_full := (if 0 < bsize ctx \<and> int (length bs) = bsize ctx then r_full (stats ctx) + 1 else r_full (stats ctx)),
          r_partial := (if 0 < bsize ctx \<and> int (length bs) = bsize ctx then r_partial (stats ctx) else r_partial (stats ctx) + 1)\<rparr>"
      from e show thesis using False by (intro that [of ?s]) (simp_all add: def u data(1))
    qed
    have uk: "uring_kern st' k' = uring_kern (st\<lparr>ur_in_pos := (if ur_in_seekable st then ur_in_pos st + length bs else ur_in_pos st)\<rparr>) k'"
      by (simp add: st'_def uring_kern_def)
    note c = data(2) [folded uk] and cd = consumesD [OF data(2) [folded uk]]
    have len: "length bs \<le> length (us_buf ?slot)" using data(3) room by simp
    have primed: "pipeline_primed st" using i(9) rf by blast
    have slot': "ur_slots st' ! read_slot st' = ?slot\<lparr>us_buf := (if bs = [] then us_buf ?slot else blit (us_buf ?slot) 0 bs), us_length := length bs\<rparr>"
      using i(1,2) by (simp add: st'_def)
    have h: "held st = []" "held st' = bs"
      using rf primed slot' by (auto simp: held_def st'_def)
    have wr: "ur_slots st' ! write_slot st = ur_slots st ! write_slot st" if "write_in_flight st"
      using i(11) that rd(3) by (simp add: st'_def)
    have p: "pend st' = pend st" using wr by (simp add: pend_def write_req_def) (simp add: st'_def)
    have pos: "in_off (uring_kern st' k') = in_off (uring_kern st k) + length bs" using c by (simp add: consumes_def)
    have av: "avail (ring_eff st' k') = avail (ring_eff st k)" by (simp add: ring_eff_props h pos data(9))
    have av0: "avail (ring_eff st k) = bs @ avail (uring_kern st' k')" using i(14) cd(1) h by simp
    have fr: "out_fl k' = out_fl k" "out_seek k' = out_seek k" "out_type k' = out_type k" "in_seek k' = in_seek k" "in_type k' = in_type k"
      using cd(4,6,7,9,10) by (simp_all add: uring_kern_def)
    have bl: "\<forall>s \<in> set ?sl. bsize ctx \<le> int (length (us_buf s))"
      using i(1,2,5) i(5) [of ?slot] len by (auto dest!: set_update_subset_insert [THEN subsetD])
    have "uring_inv st' (ctx\<lparr>stats := s\<rparr>, k')"
      unfolding uring_inv_def prod.case
    proof (intro conjI impI)
      show "\<forall>x \<in> set (ur_slots st'). bsize (ctx\<lparr>stats := s\<rparr>) \<le> int (length (us_buf x))" using bl by (simp add: st'_def)
      show "0 < us_length (ur_slots st' ! read_slot st')" "int (us_length (ur_slots st' ! read_slot st')) \<le> bsize (ctx\<lparr>stats := s\<rparr>)"
        if "pipeline_primed st' \<and> \<not> read_in_flight st' \<and> \<not> read_eof st'"
        using that data(3) rd(2) by (auto simp: slot') (simp add: st'_def)
      show "us_length (ur_slots st' ! read_slot st') = 0 \<and> avail (uring_kern st' k') = [] \<or>
        0 \<le> bytes_to_copy (cfg (ctx\<lparr>stats := s\<rparr>)) \<and>
        bytes_to_copy (cfg (ctx\<lparr>stats := s\<rparr>)) \<le> w_bytes (stats (ctx\<lparr>stats := s\<rparr>)) + int (length (pend st'))"
        if "read_eof st'"
      proof -
        have "bs = []" using that by (simp add: st'_def)
        then have "avail (uring_kern st' k') = []" using data(4) rd(1) cd(1) by simp
        then show ?thesis using \<open>bs = []\<close> by (simp add: slot')
      qed
      show "length (held st') \<le> in_off (uring_kern st' k')" by (simp add: h pos)
      show "avail (ring_eff st' k') = held st' @ avail (uring_kern st' k')" by (simp add: av av0 h)
      show "w_bytes (stats (ctx\<lparr>stats := s\<rparr>)) + int (length (pend st') + length (held st') + (if read_in_flight st' then rd_len st' else 0))
          \<le> bytes_to_copy (cfg (ctx\<lparr>stats := s\<rparr>))" if "0 \<le> bytes_to_copy (cfg (ctx\<lparr>stats := s\<rparr>))"
        using i(15) that data(3) rf by (simp add: s p h) (simp add: st'_def)
      show "\<forall>a \<in> set (rd_ans k'). whole_ans 0 a" using i(6) data(6) by blast
      show "\<not> pipeline_primed st' \<Longrightarrow> w_bytes (stats (ctx\<lparr>stats := s\<rparr>)) = 0" using primed by (simp add: st'_def)
    qed (use i(1-4,7,8,11) rd(3) primed fr(1) data(7) in \<open>auto simp: st'_def\<close>)
    moreover have "moves [] (ring_eff st k) (ring_eff st' k')"
      by (rule moves_ring_eff) (use av p cd(2,3) fr in simp_all)
    moreover have "\<exists>t. ctx\<lparr>stats := s\<rparr> = ctx\<lparr>stats := t\<rparr>" by blast
    moreover have "pipeline_primed st' = pipeline_primed st" by (simp add: st'_def)
    ultimately have "harvested st w st' (ctx\<lparr>stats := s\<rparr>, k')"
      using data(5,7) s p by (simp add: w harvested_def)
    then show ?thesis using d by blast
  qed
qed

lemma harvested_refl: "uring_inv st w \<Longrightarrow> harvested st w st w"
  by (auto simp: harvested_def intro: exI [of _ "stats (fst w)"])

lemma harvested_trans: "harvested st w st1 w1 \<Longrightarrow> harvested st1 w1 st2 w2 \<Longrightarrow> harvested st w st2 w2"
  by (auto simp: harvested_def dest: moves_trans)

lemma uring_complete_harvested:
  assumes "uring_inv st w" "\<forall>t \<in> set ts. (if t = TAG_WRITE then write_in_flight st else read_in_flight st)" "distinct ts"
  shows "\<exists>cont st' w'. uring_complete ts st w = Some (cont, st', w') \<and> (cont \<longrightarrow> harvested st w st' w')"
  using assms
proof (induction ts arbitrary: st w)
  case Nil
  then show ?case using harvested_refl [OF Nil(1)] by auto
next
  case (Cons t ts)
  have "\<exists>cont st1 w1. (if t = TAG_WRITE then Some (uring_write_done st w) else uring_read_done st w) = Some (cont, st1, w1) \<and>
     (cont \<longrightarrow> harvested st w st1 w1)"
  proof (cases t)
    case TAG_READ
    then show ?thesis using uring_read_done_harvested [OF Cons.prems(1)] Cons.prems(2) by simp
  next
    case TAG_WRITE
    then show ?thesis using uring_write_done_harvested [OF Cons.prems(1)] Cons.prems(2)
      by (cases "uring_write_done st w") auto
  qed
  then obtain cont st1 w1 where d: "(if t = TAG_WRITE then Some (uring_write_done st w) else uring_read_done st w) = Some (cont, st1, w1)"
      "cont \<longrightarrow> harvested st w st1 w1" by blast
  show ?case
  proof (cases cont)
    case True
    then have h: "harvested st w st1 w1" using d(2) by simp
    have fl: "if t = TAG_WRITE then read_in_flight st1 = read_in_flight st else write_in_flight st1 = write_in_flight st"
      using d(1) uring_done_flags by (metis option.inject)
    have "\<forall>t \<in> set ts. if t = TAG_WRITE then write_in_flight st1 else read_in_flight st1"
    proof
      fix u assume u: "u \<in> set ts"
      then have "u \<noteq> t" using Cons.prems(3) by auto
      then show "if u = TAG_WRITE then write_in_flight st1 else read_in_flight st1"
        using Cons.prems(2) u fl by (cases u; cases t) auto
    qed
    moreover have "uring_inv st1 w1" using h by (simp add: harvested_def)
    ultimately obtain c2 st2 w2 where r: "uring_complete ts st1 w1 = Some (c2, st2, w2)" "c2 \<longrightarrow> harvested st1 w1 st2 w2"
      using Cons.IH [of st1 w1] Cons.prems(3) by auto
    have "c2 \<longrightarrow> harvested st w st2 w2" using r(2) harvested_trans [OF h] by blast
    moreover have "uring_complete (t # ts) st w = Some (c2, st2, w2)" using d(1) r(1) True by simp
    ultimately show ?thesis by blast
  next
    case False
    then show ?thesis using d(1) by auto
  qed
qed

lemma next_reap_plat: "next_reap k = (c, k') \<Longrightarrow> same_io k k' \<and> plat k' = plat k\<lparr>reaps := tl (reaps (plat k))\<rparr>"
  by (cases "reaps (plat k)") (auto simp: next_reap_def same_io_def)

text \<open>A completion queue that is looked at changes nothing but the answers to come.\<close>

lemma uring_inv_same_io:
  assumes "same_io k k'"
  shows "uring_inv st (ctx, k') = uring_inv st (ctx, k)" "moves [] (ring_eff st k) (ring_eff st k')"
proof -
  note s = same_ioD [OF assms]
  have u: "avail (uring_kern st k') = avail (uring_kern st k)" "in_off (uring_kern st k') = in_off (uring_kern st k)"
      "view (uring_kern st k') = view (uring_kern st k)" "beyond (uring_kern st k') = beyond (uring_kern st k)"
    using s by (auto simp: uring_kern_def avail_def view_def beyond_def out_pos_def)
  have a: "avail (ring_eff st k') = avail (ring_eff st k)" using s u by (simp add: ring_eff_props)
  show "uring_inv st (ctx, k') = uring_inv st (ctx, k)"
    unfolding uring_inv_def prod.case u a s ..
  show "moves [] (ring_eff st k) (ring_eff st k')" by (rule moves_ring_eff) (use s u a in simp_all)
qed

text \<open>What the loop around the completions leaves: everything settled, or some of it and a wait interrupted.\<close>

definition reaped :: "harvest \<Rightarrow> uring_ring \<Rightarrow> 'h st \<Rightarrow> uring_ring \<Rightarrow> 'h st \<Rightarrow> bool" where
  "reaped h st w st' w' \<longleftrightarrow> uring_inv st' w' \<and> moves [] (ring_eff st (snd w)) (ring_eff st' (snd w')) \<and>
     w_bytes (stats (fst w')) + int (length (pend st')) = w_bytes (stats (fst w)) + int (length (pend st)) \<and>
     (\<exists>s. fst w' = (fst w)\<lparr>stats := s\<rparr>) \<and> set (wr_ans (snd w')) \<subseteq> set (wr_ans (snd w)) \<and>
     pipeline_primed st' = pipeline_primed st \<and>
     (\<exists>n. plat (snd w') = (plat (snd w))\<lparr>reaps := drop n (reaps (plat (snd w)))\<rparr>) \<and>
     (h = Settled \<longrightarrow> \<not> read_in_flight st' \<and> \<not> write_in_flight st') \<and>
     (h = Yielded \<longrightarrow> length (reaps (plat (snd w'))) < length (reaps (plat (snd w))))"

lemma reaped_after:
  assumes h: "harvested st w st1 w1" and r: "reaped h st1 w1 st2 w2"
  shows "reaped h st w st2 w2"
proof -
  obtain s t where "fst w1 = (fst w)\<lparr>stats := s\<rparr>" "fst w2 = (fst w1)\<lparr>stats := t\<rparr>"
    using h r unfolding harvested_def reaped_def by blast
  then have c: "\<exists>t. fst w2 = (fst w)\<lparr>stats := t\<rparr>" by auto
  have p: "plat (snd w1) = plat (snd w)" using h by (simp add: harvested_def)
  have m: "moves [] (ring_eff st (snd w)) (ring_eff st2 (snd w2))"
    using h r moves_trans [of "[]" "ring_eff st (snd w)" "ring_eff st1 (snd w1)" "[]"] by (simp add: harvested_def reaped_def)
  have "set (wr_ans (snd w2)) \<subseteq> set (wr_ans (snd w))" using h r unfolding harvested_def reaped_def by blast
  moreover have "pipeline_primed st2 = pipeline_primed st" using h r by (simp add: harvested_def reaped_def)
  moreover have "w_bytes (stats (fst w2)) + int (length (pend st2)) = w_bytes (stats (fst w)) + int (length (pend st))"
    using h r by (simp add: harvested_def reaped_def)
  moreover have "uring_inv st2 w2" "h = Settled \<longrightarrow> \<not> read_in_flight st2 \<and> \<not> write_in_flight st2"
      "\<exists>n. plat (snd w2) = (plat (snd w))\<lparr>reaps := drop n (reaps (plat (snd w)))\<rparr>"
      "h = Yielded \<longrightarrow> length (reaps (plat (snd w2))) < length (reaps (plat (snd w)))"
    using r unfolding reaped_def p by blast+
  ultimately show ?thesis using m c unfolding reaped_def by blast
qed

lemma reaped_look:
  assumes r: "reaped h st (ctx, k1) st' w'" and m: "moves [] (ring_eff st k) (ring_eff st k1)"
    and f: "wr_ans k1 = wr_ans k" "plat k1 = (plat k)\<lparr>reaps := drop 1 (reaps (plat k))\<rparr>"
  shows "reaped h st (ctx, k) st' w'"
proof -
  obtain n where "plat (snd w') = (plat k1)\<lparr>reaps := drop n (reaps (plat k1))\<rparr>" using r by (auto simp: reaped_def)
  then have "plat (snd w') = (plat k)\<lparr>reaps := drop (n + 1) (reaps (plat k))\<rparr>" using f(2) by (simp add: add.commute)
  then have "\<exists>n. plat (snd w') = (plat k)\<lparr>reaps := drop n (reaps (plat k))\<rparr>" by blast
  moreover have "moves [] (ring_eff st k) (ring_eff st' (snd w'))"
    using r moves_trans [OF m, of "[]"] by (simp add: reaped_def)
  moreover have "h = Yielded \<longrightarrow> length (reaps (plat (snd w'))) < length (reaps (plat k))"
    using r f(2) by (auto simp: reaped_def)
  moreover have "uring_inv st' w'" "w_bytes (stats (fst w')) + int (length (pend st')) = w_bytes (stats ctx) + int (length (pend st))"
      "\<exists>s. fst w' = ctx\<lparr>stats := s\<rparr>" "set (wr_ans (snd w')) \<subseteq> set (wr_ans k)" "pipeline_primed st' = pipeline_primed st"
      "h = Settled \<longrightarrow> \<not> read_in_flight st' \<and> \<not> write_in_flight st'"
    using r unfolding reaped_def fst_conv snd_conv f(1) by simp_all
  ultimately show ?thesis unfolding reaped_def fst_conv snd_conv by blast
qed

lemma uring_harvest_reaped:
  "uring_inv st w \<Longrightarrow> \<exists>h st' w'. uring_harvest st w = Some (h, st', w') \<and> (h \<noteq> Failed \<longrightarrow> reaped h st w st' w')"
proof (induction st w rule: uring_harvest.induct)
  case (1 st w)
  obtain ctx k where w: "w = (ctx, k)" by fastforce
  obtain c k1 where r: "next_reap k = (c, k1)" by fastforce
  note p = next_reap_plat [OF r]
  have i1: "uring_inv st (ctx, k1)" using "1.prems" uring_inv_same_io(1) [of k k1 st ctx] p by (simp add: w)
  show ?case
  proof (cases "\<not> read_in_flight st \<and> \<not> write_in_flight st")
    case True
    then have "uring_harvest st w = Some (Settled, st, w)" by (simp add: uring_harvest.simps)
    moreover have "\<exists>s. fst w = (fst w)\<lparr>stats := s\<rparr>" "\<exists>n. plat (snd w) = (plat (snd w))\<lparr>reaps := drop n (reaps (plat (snd w)))\<rparr>"
      by (rule exI [of _ "stats (fst w)"], simp, rule exI [of _ 0], simp)
    ultimately show ?thesis using "1.prems" True by (auto simp: reaped_def)
  next
    case fl: False
    have first: "moves [] (ring_eff st k) (ring_eff st k1)" "wr_ans k1 = wr_ans k"
        "plat k1 = (plat k)\<lparr>reaps := drop 1 (reaps (plat k))\<rparr>"
      using uring_inv_same_io(2) [of k k1] p same_ioD(6) [of k k1] by (auto simp: drop_Suc)
    consider "wait_errno c = EINTR" | "wait_errno c \<noteq> 0" "wait_errno c \<noteq> EINTR" | "wait_errno c = 0" by blast
    then show ?thesis
    proof cases
      case 1
      then have "c \<noteq> ReapAll" by auto
      then have "length (reaps (plat k1)) < length (reaps (plat k))" by (rule next_reap_answers [OF r])
      moreover have "\<exists>s. ctx = ctx\<lparr>stats := s\<rparr>" by (rule exI [of _ "stats ctx"]) simp
      ultimately have "reaped Yielded st w st (ctx, k1)" using i1 first by (auto simp: reaped_def w)
      moreover have "uring_harvest st w = Some (Yielded, st, ctx, k1)" using 1 fl r by (simp add: uring_harvest.simps w)
      ultimately show ?thesis by blast
    next
      case 2
      then show ?thesis using fl r by (auto simp: uring_harvest.simps w)
    next
      case 3
      have "\<forall>t \<in> set (reap_tags c st). if t = TAG_WRITE then write_in_flight st else read_in_flight st" "distinct (reap_tags c st)"
        by (auto simp: reap_tags_def)
      from uring_complete_harvested [OF i1 this]
      obtain cont st1 w1 where d: "uring_complete (reap_tags c st) st (ctx, k1) = Some (cont, st1, w1)"
          "cont \<longrightarrow> harvested st (ctx, k1) st1 w1" by blast
      show ?thesis
      proof (cases cont)
        case True
        then have h: "harvested st (ctx, k1) st1 w1" using d by simp
        then have "uring_inv st1 w1" by (simp add: harvested_def)
        from "1.IH" [OF fl w [symmetric] r [symmetric] _ _ d(1) refl refl True this] 3
        obtain h' st' w' where hv: "uring_harvest st1 w1 = Some (h', st', w')" "h' \<noteq> Failed \<longrightarrow> reaped h' st1 w1 st' w'" by auto
        have "uring_harvest st w = Some (h', st', w')" using hv 3 fl r d(1) True by (subst uring_harvest.simps) (auto simp: w)
        moreover have "reaped h' st w st' w'" if "h' \<noteq> Failed"
          unfolding w by (rule reaped_look [OF reaped_after [OF h] first]) (use hv(2) that in simp)
        ultimately show ?thesis by blast
      next
        case False
        then show ?thesis using 3 fl r d(1) by (subst uring_harvest.simps) (auto simp: w)
      qed
    qed
  qed
qed

section \<open>One step\<close>

definition ring_stop :: "uring_ring \<Rightarrow> 'h st \<Rightarrow> bool" where
  "ring_stop st w \<longleftrightarrow> \<not> write_in_flight st \<and>
     (avail (ring_eff st (snd w)) = [] \<or> 0 \<le> bytes_to_copy (cfg (fst w)) \<and> bytes_to_copy (cfg (fst w)) \<le> w_bytes (stats (fst w)))"

definition ring_left :: "uring_ring \<Rightarrow> 'h st \<Rightarrow> nat" where
  "ring_left st w = length (avail (ring_eff st (snd w))) + length (reaps (plat (snd w)))"

text \<open>The bytes written, those in flight included.\<close>

definition ring_moved :: "uring_ring \<Rightarrow> 'h st \<Rightarrow> int" where
  "ring_moved st w = w_bytes (stats (fst w)) + int (length (pend st))"

definition ring_good :: "'h hash_api \<Rightarrow> uring_ring \<Rightarrow> 'h st \<Rightarrow> (uring_ring, 'h) step_out option \<Rightarrow> bool" where
  "ring_good H st w out \<longleftrightarrow> (\<exists>r. out = Some r \<and> \<not> fallback r \<and> (rc r = EXIT_SUCCESS \<longrightarrow>
     uring_inv (dstate r) (world r) \<and> set (wr_ans (snd (world r))) \<subseteq> set (wr_ans (snd w)) \<and>
     set (reaps (plat (snd (world r)))) \<subseteq> set (reaps (plat (snd w))) \<and>
     (\<exists>bs s. moves bs (ring_eff st (snd w)) (ring_eff (dstate r) (snd (world r))) \<and>
       ring_moved (dstate r) (world r) = ring_moved st w + int (length bs) \<and>
       fst (world r) = (hash_feed H bs (fst w))\<lparr>stats := s\<rparr>) \<and>
     (if eof r then ring_stop (dstate r) (world r) else ring_left (dstate r) (world r) < ring_left st w)))"

text \<open>From a settled ring the held bytes go to a write, and the next read is asked for.\<close>

lemma read_size:
  assumes "get_next_read_size c bs n = m" "0 < bs" "0 < m"
  shows "m \<le> bs" "0 \<le> bytes_to_copy c \<Longrightarrow> n + m \<le> bytes_to_copy c"
  using assms by (auto simp: get_next_read_size_def Let_def split: if_splits)

lemma read_size_0: "0 < bs \<Longrightarrow> get_next_read_size c bs n \<le> 0 \<Longrightarrow> 0 \<le> bytes_to_copy c \<and> bytes_to_copy c \<le> n"
  by (auto simp: get_next_read_size_def Let_def split: if_splits)

lemma uring_pump_good:
  assumes inv: "uring_inv st (ctx, k)" and fl: "\<not> read_in_flight st" "\<not> write_in_flight st" and pr: "pipeline_primed st"
  shows "ring_good H st (ctx, k) (uring_pump H st (ctx, k))"
proof -
  note i = uring_invD [OF inv]
  let ?slot = "ur_slots st ! read_slot st" and ?max = "bytes_to_copy (cfg ctx) - w_bytes (stats ctx)"
  have p: "pend st = []" using fl by (simp add: pend_def)
  show ?thesis
  proof (cases "read_eof st \<or> 0 \<le> bytes_to_copy (cfg ctx) \<and> ?max \<le> 0")
    case True
    have stop: "ring_stop st (ctx, k)"
    proof (cases "read_eof st \<and> us_length ?slot = 0 \<and> avail (uring_kern st k) = []")
      case True
      then have "avail (ring_eff st k) = []" using i(14) by (simp add: held_def)
      then show ?thesis using fl by (simp add: ring_stop_def)
    next
      case False
      then show ?thesis using True i(16) p fl by (auto simp: ring_stop_def)
    qed
    have "uring_pump H st (ctx, k) = done_eof st (ctx, k)"
      using True i(16) p by (auto simp: uring_pump_def Let_def)
    moreover have "\<exists>s. ctx = (hash_feed H [] ctx)\<lparr>stats := s\<rparr>" by (rule exI [of _ "stats ctx"]) (simp add: hash_feed_def)
    ultimately show ?thesis using inv stop by (auto simp: ring_good_def done_eof_def intro!: exI [of _ "[]"])
  next
    case False
    then have eof: "\<not> read_eof st" and lim: "0 \<le> bytes_to_copy (cfg ctx) \<Longrightarrow> 0 < ?max" by auto
    let ?n = "us_length ?slot"
    have n: "0 < ?n" "int ?n \<le> bsize ctx" using i(12) [OF pr fl(1) eof] by simp_all
    have room: "?n \<le> length (us_buf ?slot)" by (rule slot_room [OF inv i(2) n(2)])
    have h: "held st = take ?n (us_buf ?slot)" using pr fl eof by (simp add: held_def)
    have lh: "length (held st) = ?n" using room by (simp add: h)
    have lim2: "0 \<le> bytes_to_copy (cfg ctx) \<Longrightarrow> w_bytes (stats ctx) + int ?n \<le> bytes_to_copy (cfg ctx)"
      using i(15) lh p fl by simp
    define ctx1 where "ctx1 = hash_feed H (held st) ctx"
    define st1 where "st1 = uring_read_ahead ?n ctx1 (st\<lparr>write_in_flight := True, write_slot := read_slot st, wr_len := ?n\<rparr>)"
    obtain e k1 where ne: "next_err k = (e, k1)" by fastforce
    have cf: "cfg ctx1 = cfg ctx" "stats ctx1 = stats ctx" by (simp_all add: ctx1_def hash_feed_frame)
    have def: "uring_pump H st (ctx, k) = (if e \<noteq> 0 \<and> e \<noteq> EINTR
        then done_fail st1 (dd_diagnose e ''io_uring: pipelined submission failed'' (ctx1, k1)) else done_ok st1 (ctx1, k1))"
      using eof lim lim2 n(1) by (auto simp: uring_pump_def Let_def h [symmetric] st1_def ctx1_def ne)
    show ?thesis
    proof (cases "e \<noteq> 0 \<and> e \<noteq> EINTR")
      case True
      then show ?thesis by (simp add: def ring_good_def done_fail_def)
    next
      case ok: False
      define m where "m = get_next_read_size (cfg ctx) (bsize ctx) (w_bytes (stats ctx) + int ?n)"
      have st1: "st1 = (if 0 < m
          then st\<lparr>write_in_flight := True, write_slot := read_slot st, wr_len := ?n, read_in_flight := True, rd_len := nat m,
                  read_slot := (read_slot st + 1) mod URING_NUM_BUFFERS\<rparr>
          else st\<lparr>write_in_flight := True, write_slot := read_slot st, wr_len := ?n, read_eof := True\<rparr>)"
        using eof by (simp add: st1_def uring_read_ahead_def m_def cf)
      have uk: "uring_kern st1 k1 = uring_kern st k1" by (simp add: st1 uring_kern_def)
      have pe: "pend st1 = held st" by (simp add: st1 pend_def write_req_def h)
      have he: "held st1 = []" by (simp add: st1 held_def)
      note io = same_ioD [OF next_err_frame [OF ne]]
      have uk2: "avail (uring_kern st k1) = avail (uring_kern st k)" "view (uring_kern st k1) = view (uring_kern st k)"
        "beyond (uring_kern st k1) = beyond (uring_kern st k)" "in_off (uring_kern st k1) = in_off (uring_kern st k)"
        using io by (auto simp: uring_kern_def avail_def view_def beyond_def out_pos_def)
      have av: "avail (ring_eff st1 k1) = avail (uring_kern st k)"
        by (simp add: ring_eff_props he uk uk2 io) (simp add: avail_def uring_kern_def)
      have mv: "moves (held st) (ring_eff st k) (ring_eff st1 k1)"
        using i(14) io by (simp add: moves_def ring_eff_props(2-) av p pe uk uk2)
      have sl: "(read_slot st + 1) mod URING_NUM_BUFFERS \<noteq> read_slot st" "(read_slot st + 1) mod URING_NUM_BUFFERS < URING_NUM_BUFFERS"
        using i(2) by (auto simp: URING_NUM_BUFFERS_def mod_if)
      have m0: "\<not> 0 < m \<Longrightarrow> 0 \<le> bytes_to_copy (cfg ctx) \<and> bytes_to_copy (cfg ctx) \<le> w_bytes (stats ctx) + int ?n"
        using read_size_0 [OF i(4), of "cfg ctx" "w_bytes (stats ctx) + int ?n"] by (simp add: m_def)
      have m1: "0 < m \<Longrightarrow> m \<le> bsize ctx" "0 < m \<Longrightarrow> 0 \<le> bytes_to_copy (cfg ctx) \<Longrightarrow> w_bytes (stats ctx) + int ?n + m \<le> bytes_to_copy (cfg ctx)"
        using read_size [OF m_def [symmetric] i(4)] by auto
      have f: "ur_slots st1 = ur_slots st" "write_slot st1 = read_slot st" "wr_len st1 = ?n" "write_in_flight st1" "pipeline_primed st1"
          "ur_out_seekable st1 = ur_out_seekable st"
        using pr by (simp_all add: st1)
      have rs: "read_slot st1 < URING_NUM_BUFFERS" using sl(2) i(2) by (simp add: st1)
      have rf: "read_in_flight st1 = (0 < m)" "read_eof st1 = (\<not> 0 < m)" using fl(1) eof by (simp_all add: st1)
      have rl: "0 < m \<Longrightarrow> rd_len st1 = nat m" "0 < m \<Longrightarrow> read_slot st1 \<noteq> read_slot st" using sl(1) by (simp_all add: st1)
      have "uring_inv st1 (ctx1, k1)"
        unfolding uring_inv_def prod.case cf he pe lh av uk uk2 f io rf
      proof (intro conjI impI)
        show "0 < rd_len st1" "int (rd_len st1) \<le> bsize ctx" if "0 < m" using that rl(1) m1(1) by simp_all
        show "w_bytes (stats ctx) + int (?n + length [] + (if 0 < m then rd_len st1 else 0)) \<le> bytes_to_copy (cfg ctx)"
          if "0 \<le> bytes_to_copy (cfg ctx)"
          using that lim2 m1(2) rl(1) by (auto simp: add.assoc)
        show "\<forall>s \<in> set (ur_slots st). bsize ctx \<le> int (length (us_buf s))" using i(5) by blast
        show "us_length (ur_slots st ! read_slot st1) = 0 \<and> avail (uring_kern st k) = [] \<or>
            0 \<le> bytes_to_copy (cfg ctx) \<and> bytes_to_copy (cfg ctx) \<le> w_bytes (stats ctx) + int ?n" if "\<not> 0 < m"
          using m0 [OF that] by simp
      qed (use i(1,2,4,6,7,8) n rs rl(2) f(4,5) in simp_all)
      moreover have "ring_moved st1 (ctx1, k1) = ring_moved st (ctx, k) + int (length (held st))"
        by (simp add: ring_moved_def pe p cf)
      moreover have "reaps (plat k1) = reaps (plat k)" using ne by (auto simp: next_err_def split: list.splits)
      moreover from this have "ring_left st1 (ctx1, k1) < ring_left st (ctx, k)"
        using i(14) n(1) lh by (simp add: ring_left_def av)
      moreover have "\<exists>s. ctx1 = (hash_feed H (held st) ctx)\<lparr>stats := s\<rparr>"
        by (rule exI [of _ "stats ctx1"]) (simp add: ctx1_def)
      ultimately show ?thesis using mv io unfolding def if_not_P [OF ok] by (auto simp: ring_good_def done_ok_def)
    qed
  qed
qed

lemma ring_step_good:
  assumes inv: "uring_inv st w"
  shows "ring_good H st w (uring_ring_step H st w)"
proof -
  obtain ctx k where w: "w = (ctx, k)" by fastforce
  note i = uring_invD [OF inv [unfolded w]]
  have same: "\<exists>s. c = (hash_feed H [] c)\<lparr>stats := s\<rparr>" for c :: "'a dd_context"
    by (rule exI [of _ "stats c"]) (simp add: hash_feed_def)
  let ?rest = "\<lambda>st w. (case uring_harvest st w of
       None \<Rightarrow> None
     | Some (h, st, w) \<Rightarrow> if h = Yielded then done_ok st w else if h = Failed then done_fail st w else uring_pump H st w)"
  have rest: "ring_good H st1 w1 (?rest st1 w1)" if v: "uring_inv st1 w1" "pipeline_primed st1" for st1 :: uring_ring and w1 :: "'a st"
  proof -
    obtain h st2 w2 where hv: "uring_harvest st1 w1 = Some (h, st2, w2)" "h \<noteq> Failed \<longrightarrow> reaped h st1 w1 st2 w2"
      using uring_harvest_reaped [OF v(1)] by blast
    show ?thesis
    proof (cases "h = Failed")
      case True
      then show ?thesis using hv(1) by (simp add: ring_good_def done_fail_def)
    next
      case False
      then have r: "reaped h st1 w1 st2 w2" using hv(2) by simp
      obtain n where p: "plat (snd w2) = (plat (snd w1))\<lparr>reaps := drop n (reaps (plat (snd w1)))\<rparr>" using r by (auto simp: reaped_def)
      then have rp: "set (reaps (plat (snd w2))) \<subseteq> set (reaps (plat (snd w1)))" "length (reaps (plat (snd w2))) \<le> length (reaps (plat (snd w1)))"
        by (simp_all add: set_drop_subset)
      obtain s where s: "fst w2 = (fst w1)\<lparr>stats := s\<rparr>" using r by (auto simp: reaped_def)
      have m: "moves [] (ring_eff st1 (snd w1)) (ring_eff st2 (snd w2))" and mv: "ring_moved st2 w2 = ring_moved st1 w1"
        and wa: "set (wr_ans (snd w2)) \<subseteq> set (wr_ans (snd w1))" and i2: "uring_inv st2 w2" and pr: "pipeline_primed st2"
        using r v(2) by (simp_all add: reaped_def ring_moved_def)
      have av: "avail (ring_eff st2 (snd w2)) = avail (ring_eff st1 (snd w1))" using movesD(1) [OF m] by simp
      show ?thesis
      proof (cases h)
        case Yielded
        then have "length (reaps (plat (snd w2))) < length (reaps (plat (snd w1)))" using r by (simp add: reaped_def)
        then have "ring_left st2 w2 < ring_left st1 w1" by (simp add: ring_left_def av)
        moreover have "fst w2 = (hash_feed H [] (fst w1))\<lparr>stats := s\<rparr>" by (simp add: s hash_feed_def)
        ultimately show ?thesis
          using hv(1) Yielded m mv wa rp(1) i2 by (auto simp: ring_good_def done_ok_def intro!: exI [of _ "[]"])
      next
        case Settled
        then have fl: "\<not> read_in_flight st2" "\<not> write_in_flight st2" using r by (simp_all add: reaped_def)
        have "ring_good H st2 w2 (uring_pump H st2 w2)"
          using uring_pump_good [OF _ fl pr, of "fst w2" "snd w2"] i2 by simp
        then obtain q where q: "uring_pump H st2 w2 = Some q" "\<not> fallback q" "rc q = EXIT_SUCCESS \<longrightarrow>
            uring_inv (dstate q) (world q) \<and> set (wr_ans (snd (world q))) \<subseteq> set (wr_ans (snd w2)) \<and>
            set (reaps (plat (snd (world q)))) \<subseteq> set (reaps (plat (snd w2))) \<and>
            (\<exists>bs s. moves bs (ring_eff st2 (snd w2)) (ring_eff (dstate q) (snd (world q))) \<and>
              ring_moved (dstate q) (world q) = ring_moved st2 w2 + int (length bs) \<and>
              fst (world q) = (hash_feed H bs (fst w2))\<lparr>stats := s\<rparr>) \<and>
            (if eof q then ring_stop (dstate q) (world q) else ring_left (dstate q) (world q) < ring_left st2 w2)"
          unfolding ring_good_def by blast
        have "?rest st1 w1 = Some q" using hv(1) Settled q(1) by simp
        moreover have "rc q = EXIT_SUCCESS \<longrightarrow> uring_inv (dstate q) (world q) \<and> set (wr_ans (snd (world q))) \<subseteq> set (wr_ans (snd w1)) \<and>
            set (reaps (plat (snd (world q)))) \<subseteq> set (reaps (plat (snd w1))) \<and>
            (\<exists>bs s. moves bs (ring_eff st1 (snd w1)) (ring_eff (dstate q) (snd (world q))) \<and>
              ring_moved (dstate q) (world q) = ring_moved st1 w1 + int (length bs) \<and>
              fst (world q) = (hash_feed H bs (fst w1))\<lparr>stats := s\<rparr>) \<and>
            (if eof q then ring_stop (dstate q) (world q) else ring_left (dstate q) (world q) < ring_left st1 w1)"
        proof
          assume "rc q = EXIT_SUCCESS"
          then obtain bs t where b: "moves bs (ring_eff st2 (snd w2)) (ring_eff (dstate q) (snd (world q)))"
              "ring_moved (dstate q) (world q) = ring_moved st2 w2 + int (length bs)"
              "fst (world q) = (hash_feed H bs (fst w2))\<lparr>stats := t\<rparr>" and rest: "uring_inv (dstate q) (world q)"
              "set (wr_ans (snd (world q))) \<subseteq> set (wr_ans (snd w2))" "set (reaps (plat (snd (world q)))) \<subseteq> set (reaps (plat (snd w2)))"
              "if eof q then ring_stop (dstate q) (world q) else ring_left (dstate q) (world q) < ring_left st2 w2"
            using q(3) by blast
          have "moves bs (ring_eff st1 (snd w1)) (ring_eff (dstate q) (snd (world q)))" using moves_trans [OF m b(1)] by simp
          moreover have "fst (world q) = (hash_feed H bs (fst w1))\<lparr>stats := t\<rparr>" by (simp add: b(3) s hash_feed_def)
          moreover have "ring_left st2 w2 \<le> ring_left st1 w1" using rp(2) by (simp add: ring_left_def av)
          ultimately show "uring_inv (dstate q) (world q) \<and> set (wr_ans (snd (world q))) \<subseteq> set (wr_ans (snd w1)) \<and>
            set (reaps (plat (snd (world q)))) \<subseteq> set (reaps (plat (snd w1))) \<and>
            (\<exists>bs s. moves bs (ring_eff st1 (snd w1)) (ring_eff (dstate q) (snd (world q))) \<and>
              ring_moved (dstate q) (world q) = ring_moved st1 w1 + int (length bs) \<and>
              fst (world q) = (hash_feed H bs (fst w1))\<lparr>stats := s\<rparr>) \<and>
            (if eof q then ring_stop (dstate q) (world q) else ring_left (dstate q) (world q) < ring_left st1 w1)"
            using rest b(2) mv wa rp(1) by (auto split: if_splits)
        qed
        ultimately show ?thesis using q(2) unfolding ring_good_def by blast
      qed (use False in simp)
    qed
  qed
  show ?thesis
  proof (cases "pipeline_primed st")
    case True
    then show ?thesis using rest [OF inv True] by (simp add: uring_ring_step_def)
  next
    case False
    note np = i(9) [OF False]
    have pe: "pend st = []" "held st = []" using np False by (simp_all add: pend_def held_def)
    let ?m = "get_next_read_size (cfg ctx) (bsize ctx) 0"
    have mn: "0 \<le> ?m" using i(4) by (auto simp: get_next_read_size_def Let_def)
    show ?thesis
    proof (cases "?m = 0")
      case True
      then have "0 \<le> bytes_to_copy (cfg ctx) \<and> bytes_to_copy (cfg ctx) \<le> 0" using read_size_0 [OF i(4), of "cfg ctx" 0] by simp
      then have "ring_stop st w" using np by (simp add: ring_stop_def w)
      then show ?thesis using inv same [of ctx] True False
        by (auto simp: w uring_ring_step_def uring_prime_def ring_good_def done_eof_def intro!: exI [of _ "[]"])
    next
      case m0: False
      define st1 where "st1 = st\<lparr>read_in_flight := True, rd_len := nat ?m, read_slot := 0, pipeline_primed := True\<rparr>"
      obtain e k1 where ne: "next_err k = (e, k1)" by fastforce
      show ?thesis
      proof (cases "e \<noteq> 0 \<and> e \<noteq> EINTR")
        case True
        then show ?thesis using False m0 ne by (simp add: w uring_ring_step_def uring_prime_def ring_good_def done_fail_def)
      next
        case ok: False
        have st: "uring_ring_step H st w = ?rest st1 (ctx, k1)"
          using False m0 ne ok by (auto simp: w uring_ring_step_def uring_prime_def Let_def st1_def)
        have io: "same_io k k1" by (rule next_err_frame [OF ne])
        note ioD = same_ioD [OF io]
        have pe1: "pend st1 = []" "held st1 = []" using np by (simp_all add: st1_def pend_def held_def)
        have uk: "uring_kern st1 k1 = uring_kern st k1" by (simp add: st1_def uring_kern_def)
        have uk2: "avail (uring_kern st k1) = avail (uring_kern st k)" "view (uring_kern st k1) = view (uring_kern st k)"
          "beyond (uring_kern st k1) = beyond (uring_kern st k)" "in_off (uring_kern st k1) = in_off (uring_kern st k)"
          using ioD by (auto simp: uring_kern_def avail_def view_def beyond_def out_pos_def)
        have av: "avail (ring_eff st1 k1) = avail (uring_kern st k)"
          by (simp add: ring_eff_props pe1 uk uk2 ioD) (simp add: avail_def uring_kern_def)
        have av0: "avail (ring_eff st k) = avail (uring_kern st k)" using i(14) pe by simp
        have inv1: "uring_inv st1 (ctx, k1)"
          unfolding uring_inv_def prod.case pe1 av uk uk2
        proof (intro conjI impI)
          show "w_bytes (stats ctx) + int (length [] + length [] + (if read_in_flight st1 then rd_len st1 else 0)) \<le> bytes_to_copy (cfg ctx)"
            if "0 \<le> bytes_to_copy (cfg ctx)"
            using that np mn m0 read_size(2) [OF refl i(4), of "cfg ctx" 0] by (simp add: st1_def)
          show "0 < rd_len st1" "int (rd_len st1) \<le> bsize ctx"
            using mn m0 read_size(1) [OF refl i(4), of "cfg ctx" 0] by (simp_all add: st1_def)
          show "\<forall>a \<in> set (rd_ans k1). whole_ans 0 a" "\<forall>a \<in> set (wr_ans k1). whole_ans (bs_nat ctx) a" using i(6,7) ioD by simp_all
        qed (use i(1-5,8) np ioD in \<open>auto simp: st1_def URING_NUM_BUFFERS_def\<close>)
        have g: "ring_good H st1 (ctx, k1) (?rest st1 (ctx, k1))" by (rule rest [OF inv1]) (simp add: st1_def)
        have m: "moves [] (ring_eff st k) (ring_eff st1 k1)"
          using ioD by (intro moves_ring_eff) (simp_all add: av av0 pe pe1 uk uk2)
        have rp: "reaps (plat k1) = reaps (plat k)" using ne by (auto simp: next_err_def split: list.splits)
        have l: "ring_left st1 (ctx, k1) = ring_left st w" "ring_moved st1 (ctx, k1) = ring_moved st w"
          by (simp_all add: w ring_left_def ring_moved_def av av0 rp pe pe1)
        have tr: "moves bs (ring_eff st1 k1) x \<Longrightarrow> moves bs (ring_eff st k) x" for bs x
          using moves_trans [OF m] by force
        show ?thesis
          using g tr unfolding st ring_good_def l fst_conv snd_conv ioD rp unfolding w fst_conv snd_conv by blast
      qed
    qed
  qed
qed

text \<open>The driver: its single ring keeps the contract; the sharded mode is not in it.\<close>

fun uring_ready :: "uring_driver_state \<Rightarrow> 'h st \<Rightarrow> bool" where
  "uring_ready (Ring st) w = uring_inv st w"
| "uring_ready (Sharded sh) w = False"

fun uring_stop :: "uring_driver_state \<Rightarrow> 'h st \<Rightarrow> bool" where
  "uring_stop (Ring st) w = ring_stop st w"
| "uring_stop (Sharded sh) w = False"

fun uring_eff :: "uring_driver_state \<Rightarrow> 'h st \<Rightarrow> kern" where
  "uring_eff (Ring st) w = ring_eff st (snd w)"
| "uring_eff (Sharded sh) w = snd w"

fun uring_left :: "uring_driver_state \<Rightarrow> 'h st \<Rightarrow> nat" where
  "uring_left (Ring st) w = ring_left st w"
| "uring_left (Sharded sh) w = 0"

fun uring_moved :: "uring_driver_state \<Rightarrow> 'h st \<Rightarrow> int" where
  "uring_moved (Ring st) w = ring_moved st w"
| "uring_moved (Sharded sh) w = w_bytes (stats (fst w))"

lemma uring_step_good:
  assumes "uring_ready d w"
  obtains st st' r where "d = Ring st" "uring_inv st w" "uring_driver_step H d w = Some r" "\<not> fallback r"
    "rc r = EXIT_SUCCESS \<Longrightarrow> dstate r = Ring st'"
    "rc r = EXIT_SUCCESS \<Longrightarrow> uring_inv st' (world r) \<and> set (wr_ans (snd (world r))) \<subseteq> set (wr_ans (snd w)) \<and>
     set (reaps (plat (snd (world r)))) \<subseteq> set (reaps (plat (snd w))) \<and>
     (\<exists>bs s. moves bs (ring_eff st (snd w)) (ring_eff st' (snd (world r))) \<and>
       ring_moved st' (world r) = ring_moved st w + int (length bs) \<and>
       fst (world r) = (hash_feed H bs (fst w))\<lparr>stats := s\<rparr>) \<and>
     (if eof r then ring_stop st' (world r) else ring_left st' (world r) < ring_left st w)"
proof (cases d)
  case (Ring st)
  then have "uring_inv st w" using assms by simp
  from ring_step_good [OF this, of H] obtain q where q: "uring_ring_step H st w = Some q" "\<not> fallback q"
    "rc q = EXIT_SUCCESS \<longrightarrow>
     uring_inv (dstate q) (world q) \<and> set (wr_ans (snd (world q))) \<subseteq> set (wr_ans (snd w)) \<and>
     set (reaps (plat (snd (world q)))) \<subseteq> set (reaps (plat (snd w))) \<and>
     (\<exists>bs s. moves bs (ring_eff st (snd w)) (ring_eff (dstate q) (snd (world q))) \<and>
       ring_moved (dstate q) (world q) = ring_moved st w + int (length bs) \<and>
       fst (world q) = (hash_feed H bs (fst w))\<lparr>stats := s\<rparr>) \<and>
     (if eof q then ring_stop (dstate q) (world q) else ring_left (dstate q) (world q) < ring_left st w)"
    unfolding ring_good_def by blast
  show thesis
    by (rule that [OF Ring \<open>uring_inv st w\<close>, of "map_dstate Ring q" "dstate q"])
      (use q in \<open>simp_all add: uring_driver_step_def map_dstate_def Ring\<close>)
qed (use assms in simp)

interpretation uring: io_driver "uring_driver_step H" uring_ready uring_stop uring_eff uring_left uring_moved
  for H :: "'h hash_api"
proof (unfold_locales, goal_cases)
  case (1 d w)
  then show ?case by (rule uring_step_good [where H = H]) simp
next
  case (2 d w r)
  from 2(1) show ?case
  proof (rule uring_step_good [where H = H])
    fix st st' q assume d: "d = Ring st" and q: "uring_driver_step H d w = Some q" "rc q = EXIT_SUCCESS \<Longrightarrow> dstate q = Ring st'"
      "rc q = EXIT_SUCCESS \<Longrightarrow> uring_inv st' (world q) \<and> set (wr_ans (snd (world q))) \<subseteq> set (wr_ans (snd w)) \<and>
     set (reaps (plat (snd (world q)))) \<subseteq> set (reaps (plat (snd w))) \<and>
     (\<exists>bs s. moves bs (ring_eff st (snd w)) (ring_eff st' (snd (world q))) \<and>
       ring_moved st' (world q) = ring_moved st w + int (length bs) \<and>
       fst (world q) = (hash_feed H bs (fst w))\<lparr>stats := s\<rparr>) \<and>
     (if eof q then ring_stop st' (world q) else ring_left st' (world q) < ring_left st w)"
    have "q = r" using q(1) 2(2) by simp
    then show ?thesis using q(2,3) 2(3) d by auto
  qed
next
  case (3 d w r)
  from 3(1) show ?case
  proof (rule uring_step_good [where H = H])
    fix st st' q assume d: "d = Ring st" and q: "uring_driver_step H d w = Some q" "rc q = EXIT_SUCCESS \<Longrightarrow> dstate q = Ring st'"
      "rc q = EXIT_SUCCESS \<Longrightarrow> uring_inv st' (world q) \<and> set (wr_ans (snd (world q))) \<subseteq> set (wr_ans (snd w)) \<and>
     set (reaps (plat (snd (world q)))) \<subseteq> set (reaps (plat (snd w))) \<and>
     (\<exists>bs s. moves bs (ring_eff st (snd w)) (ring_eff st' (snd (world q))) \<and>
       ring_moved st' (world q) = ring_moved st w + int (length bs) \<and>
       fst (world q) = (hash_feed H bs (fst w))\<lparr>stats := s\<rparr>) \<and>
     (if eof q then ring_stop st' (world q) else ring_left st' (world q) < ring_left st w)"
    have "q = r" using q(1) 3(2) by simp
    then show ?thesis using q(2,3) 3(3,5) d by auto
  qed
next
  case (4 d w r)
  from 4(1) show ?case by (rule uring_step_good [where H = H]) (use 4(2,3) in simp)
qed

section \<open>From init to the end\<close>

lemma uring_ring_init_ready:
  assumes i: "uring_driver_init (ctx, k) = (Some d, w)" and q: "\<not> 1 < threads (cfg ctx)" "w_bytes (stats ctx) = 0" "0 < bsize ctx"
    and a: "\<forall>a \<in> set (rd_ans k). whole_ans 0 a" "\<forall>a \<in> set (wr_ans k). whole_ans (bs_nat ctx) a"
    and app: "any_set (out_fl k) O_APPEND \<longrightarrow> any_set (output_flags (cfg ctx)) O_APPEND"
  obtains st where "d = Ring st" "uring_inv st w" "fst w = ctx" "same_io k (snd w)" "uring_kern st (snd w) = snd w"
    "pend st = []" "held st = []" "reaps (plat (snd w)) = reaps (plat k)"
proof -
  obtain e1 k1 where e1: "next_err k = (e1, k1)" by fastforce
  obtain e2 k2 where e2: "next_err k1 = (e2, k2)" by fastforce
  have io: "same_io k k2" using next_err_frame [OF e1] next_err_frame [OF e2] same_io_trans by blast
  note ioD = same_ioD [OF io]
  define seek where "seek = (out_seek k \<and> \<not> any_set (output_flags (cfg ctx)) O_APPEND)"
  have "uring_ring_init (if in_seek k then Some (int (in_off k)) else None) (if out_seek k then Some (int (out_off k)) else None) seek (ctx, k) = (Some d, w)"
    using i q(1) by (simp add: uring_driver_init_def sys_lseek_def seek_def split: if_splits)
  then have w: "w = (ctx, k2)" and d: "d = Ring
      \<lparr>ur_slots = replicate URING_NUM_BUFFERS \<lparr>us_buf = alignalloc (uring_slot_size (cfg ctx)) k2, us_length = 0\<rparr>,
       ur_in_pos = (if in_seek k then in_off k else 0), ur_out_pos = (if seek then out_off k else 0),
       ur_in_seekable = in_seek k, ur_out_seekable = seek, read_slot = 0, write_slot = 0,
       read_in_flight = False, write_in_flight = False, read_eof = False, pipeline_primed = False,
       buffers_registered = (e2 = 0), rd_len = 0, wr_len = 0\<rparr>" (is "d = Ring ?st")
    by (auto simp: uring_ring_init_def e1 e2 seek_def split: if_splits)
  have uk: "uring_kern ?st k2 = k2" using ioD by (cases k2) (simp add: uring_kern_def seek_def)
  have pe: "pend ?st = []" "held ?st = []" by (simp_all add: pend_def held_def)
  have av: "avail (ring_eff ?st k2) = avail k2" by (simp add: ring_eff_props pe uk) (simp add: avail_def)
  have sz: "bsize ctx \<le> int (uring_slot_size (cfg ctx))" using q(3) by (simp add: uring_slot_size_def)
  have "uring_inv ?st (ctx, k2)"
    unfolding uring_inv_def prod.case pe av uk
    using q a app ioD sz by (auto simp: URING_NUM_BUFFERS_def seek_def)
  moreover have "reaps (plat k2) = reaps (plat k)" using e1 e2 by (auto simp: next_err_def split: list.splits)
  ultimately show thesis using that [OF d] io uk pe by (simp add: w)
qed



end
