(* ===== verification/CopyCorrect.thy ===== *)
theory CopyCorrect
  imports CopyLoop UringContract
begin

text \<open>
  The copy as a whole: the drivers behind one interface keep one contract, and \<open>dd_copy\<close> with it moves the
  input to the target, digests it and ends, whichever driver was chosen and whenever it falls back.
\<close>

section \<open>What reports and signals leave alone\<close>

text \<open>\<open>calm w w'\<close>: only the bookkeeping of the reports differs, and signals have been taken note of.\<close>

definition calm :: "'h st \<Rightarrow> 'h st \<Rightarrow> bool" where
  "calm w w' \<longleftrightarrow> quiet_step w w' \<and> (\<exists>s. plat (snd w') = plat (snd w)\<lparr>sigs := s\<rparr>)"

lemma calm_refl [simp]: "calm w w"
  by (auto simp: calm_def intro: exI [of _ "sigs (plat (snd w))"])

lemma calm_trans: "calm a b \<Longrightarrow> calm b c \<Longrightarrow> calm a c"
  by (auto simp: calm_def intro: quiet_step_trans)

lemma calm_same_plat: "quiet_step w w' \<Longrightarrow> plat (snd w') = plat (snd w) \<Longrightarrow> calm w w'"
  by (auto simp: calm_def intro: exI [of _ "sigs (plat (snd w))"])

lemma plat_emit [simp]: "plat (emit e k) = plat k"
  by (simp add: emit_def)

lemma plat_reports:
  "plat (snd (clear_progress w)) = plat (snd w)" "plat (snd (dd_print_stats w)) = plat (snd w)"
  "plat (snd (dd_check_progress w)) = plat (snd w)" "plat (snd (dd_diagnose e m w)) = plat (snd w)"
proof -
  have c: "plat (snd (clear_progress w)) = plat (snd w)" for w :: "'a st"
    by (auto simp: clear_progress_def split: prod.split)
  have g: "plat (snd (gethrxtime k)) = plat k" for k by (simp add: gethrxtime_def split: list.split)
  show "plat (snd (clear_progress w)) = plat (snd w)" by (rule c)
  show "plat (snd (dd_diagnose e m w)) = plat (snd w)" using c [of w] by (simp add: dd_diagnose_def split_def)
  show "plat (snd (dd_print_stats w)) = plat (snd w)"
    using c [of w] g by (simp add: dd_print_stats_def split_def Let_def)
  show "plat (snd (dd_check_progress w)) = plat (snd w)"
    using g by (simp add: dd_check_progress_def split_def Let_def)
qed

lemma calm_print: "calm w (dd_print_stats w)"
  by (rule calm_same_plat [OF quiet_dd_print_stats plat_reports(2)])

lemma calm_prints: "calm w ((dd_print_stats ^^ n) w)"
  by (induction n) (auto intro: calm_trans calm_print)

lemma calm_check_progress: "calm w (dd_check_progress w)"
  by (rule calm_same_plat [OF quiet_dd_check_progress plat_reports(3)])

lemma process_signals_cases:
  obtains (ret) w' where "dd_process_signals w = Ret () w'" "calm w w'"
  | (ends) "(\<exists>e w'. dd_process_signals w = Exits e w') \<or> (\<exists>s w'. dd_process_signals w = Killed s w')"
proof -
  obtain ctx k where w: "w = (ctx, k)" by fastforce
  obtain n i k' where s: "next_sigs k = ((n, i), k')" by (metis prod.exhaust)
  show thesis
  proof (cases "i = 0")
    case True
    have "k' = k \<or> (\<exists>ss. k' = k\<lparr>plat := (plat k)\<lparr>sigs := ss\<rparr>\<rparr>)"
      using s by (auto simp: next_sigs_def split: list.splits)
    then have "calm (ctx, k) (ctx, k')"
      by (elim disjE) (simp, auto simp: calm_def quiet_step_def same_io_def)
    then have "calm w ((dd_print_stats ^^ n) (ctx, k'))" unfolding w by (rule calm_trans [OF _ calm_prints])
    then show thesis using ret True by (simp add: dd_process_signals_def w s)
  next
    case False
    have "\<exists>w'. close_streams (ctx, k') = Ret () w' \<or> (\<exists>e. close_streams (ctx, k') = Exits e w')"
      by (simp add: close_streams_def split: prod.split)
    then show thesis using False ends by (auto simp: dd_process_signals_def w s)
  qed
qed

lemma calmD:
  assumes "calm (ctx, k) (ctx', k')"
  shows "same_data ctx ctx'" "same_io k k'" "cfr_ans (plat k') = cfr_ans (plat k)" "pipe_capacity (plat k') = pipe_capacity (plat k)"
    "spl_in_ans (plat k') = spl_in_ans (plat k)"
  using assms by (auto simp: calm_def quiet_step_def)

lemma calm_w_bytes: "calm w w' \<Longrightarrow> w_bytes (stats (fst w')) = w_bytes (stats (fst w))"
  by (cases w; cases w') (auto dest!: calmD(1) same_dataD(18))

lemma calm_carried: "calm w w' \<Longrightarrow> carried H [] w w'"
proof -
  assume c: "calm w w'"
  obtain ctx k ctx' k' where w: "w = (ctx, k)" "w' = (ctx', k')" by fastforce
  note d = calmD [OF c [unfolded w]]
  show ?thesis
    unfolding w by (rule carried_Nil) (use d in \<open>auto simp: digest_def dest: same_dataD same_ioD\<close>)
qed

section \<open>One contract for all drivers\<close>

text \<open>
  The contract of \<open>io_driver\<close> with what the loop does around the step: the reports and signals disturb no
  driver, and a step that succeeds hands exactly what it moved to the hashers.
\<close>

locale copy_driver = io_driver step ready stop eff left moved
  for step :: "'s \<Rightarrow> 'h st \<Rightarrow> ('s, 'h) step_out option" and ready and stop and eff :: "'s \<Rightarrow> 'h st \<Rightarrow> kern" and left and moved +
  fixes H :: "'h hash_api"
  assumes ready_calm: "ready d w \<Longrightarrow> calm w w' \<Longrightarrow> ready d w'"
    and stop_calm: "stop d w \<Longrightarrow> calm w w' \<Longrightarrow> stop d w'"
    and eff_calm: "calm w w' \<Longrightarrow> moves [] (eff d w) (eff d w')"
    and left_calm: "calm w w' \<Longrightarrow> left d w' = left d w"
    and moved_calm: "calm w w' \<Longrightarrow> moved d w' = moved d w"
    and step_carried: "ready d w \<Longrightarrow> step d w = Some r \<Longrightarrow> rc r = EXIT_SUCCESS \<Longrightarrow> \<not> fallback r \<Longrightarrow>
      moves bs (eff d w) (eff (dstate r) (world r)) \<Longrightarrow> carried H bs w (world r)"
begin

text \<open>A round of the loop: signals, then a step, then the progress report.\<close>

lemma round:
  assumes "ready d w" "calm w w1" "step d w1 = Some r" "rc r = EXIT_SUCCESS" "\<not> fallback r" "calm (world r) w2"
  shows "\<exists>bs. moves bs (eff d w) (eff (dstate r) w2) \<and> moved (dstate r) w2 = moved d w + int (length bs) \<and>
    (hash_stream H \<longrightarrow> carried H bs w w2) \<and> ready (dstate r) w2 \<and> (eof r \<longrightarrow> stop (dstate r) w2) \<and>
    (\<not> eof r \<longrightarrow> left (dstate r) w2 < left d w)"
proof -
  note rdy = ready_calm [OF assms(1,2)]
  obtain bs where bs: "moves bs (eff d w1) (eff (dstate r) (world r))" "ready (dstate r) (world r)"
      "moved (dstate r) (world r) = moved d w1 + int (length bs)" "eof r \<longrightarrow> stop (dstate r) (world r)"
    using step_moves [OF rdy assms(3-5)] by blast
  have m: "moves bs (eff d w) (eff (dstate r) w2)"
    using moves_trans [OF eff_calm [OF assms(2)] moves_trans [OF bs(1) eff_calm [OF assms(6)]]] by simp
  have wb: "moved (dstate r) w2 = moved d w + int (length bs)"
    using bs(3) moved_calm [OF assms(2)] moved_calm [OF assms(6)] by simp
  have c: "hash_stream H \<Longrightarrow> carried H bs w w2"
    using carried_trans [OF _ calm_carried [OF assms(2)] carried_trans [OF _ step_carried [OF rdy assms(3-5) bs(1)] calm_carried [OF assms(6)]]]
    by simp
  have "\<not> eof r \<Longrightarrow> left (dstate r) w2 < left d w"
    using step_progress [OF rdy assms(3-5)] left_calm [OF assms(2), of d] left_calm [OF assms(6), of "dstate r"] by simp
  then show ?thesis
    using m wb c bs(4) ready_calm [OF bs(2) assms(6)] stop_calm [OF _ assms(6)] by blast
qed

end

lemma moves_unique: "moves bs k k' \<Longrightarrow> moves cs k k' \<Longrightarrow> bs = cs"
  by (simp add: moves_def)

text \<open>The synchronous driver can take over from a zero-copy driver: no buffer has been allocated, nothing is hashed.\<close>

definition takeover :: "'h st \<Rightarrow> bool" where
  "takeover w \<longleftrightarrow> ibuf (fst w) = None \<and> obuf (fst w) = ONull \<and> oc (fst w) = 0 \<and> plain_copy (cfg (fst w)) \<and>
     \<not> conv (cfg (fst w)) (C_AUTOTUNE OR C_SPARSE OR C_SHA256 OR C_BLAKE3 OR C_BLKS) \<and>
     0 < bsize (fst w) \<and> 0 \<le> max_bytes (cfg (fst w)) \<and> max_bytes (cfg (fst w)) \<le> bsize (fst w)"

text \<open>
  \<open>limit_for c l\<close>: \<open>l\<close> stands for the limits asked for by \<open>c\<close>, negative for none; \<open>any_for c d\<close>: so does the
  limit the driver keeps. \<open>enough c s\<close>: the byte limit has been reached, or as many records as asked for, or
  autotuning has rescaled a limit.
\<close>

definition limit_for :: "dd_config \<Rightarrow> int \<Rightarrow> bool" where
  "limit_for c l \<longleftrightarrow> (if 0 \<le> bytes_to_copy c then l = bytes_to_copy c else l < 0 \<or> rescaled c \<or> max_records c \<le> l)"

definition enough :: "dd_config \<Rightarrow> dd_stats \<Rightarrow> bool" where
  "enough c s \<longleftrightarrow> rescaled c \<or> 0 \<le> bytes_to_copy c \<and> bytes_to_copy c \<le> w_bytes s \<or>
     max_records c \<le> r_partial s + r_full s \<or> max_records c \<le> w_bytes s"

lemma enough_request: "request c' = request c \<Longrightarrow> enough c' = enough c"
  using requestD [of c' c] by (cases "rescaled c") (simp_all add: enough_def fun_eq_iff)

fun any_for :: "dd_config \<Rightarrow> driver_state \<Rightarrow> bool" where
  "any_for c (SyncSt s) \<longleftrightarrow> limit_for c (total_byte_limit (at s))"
| "any_for c (AsyncSt p) \<longleftrightarrow> r_records_limit p = max_records c"
| "any_for c (ReflinkSt s) \<longleftrightarrow> limit_for c (rl_total_byte_limit s)"
| "any_for c (SpliceSt s) \<longleftrightarrow> limit_for c (sp_total_byte_limit s)"
| "any_for c (UringSt s) \<longleftrightarrow> True"

text \<open>Writes do not fail, and waiting for a completion fails by a signal at most.\<close>

definition calm_ring :: "kern \<Rightarrow> bool" where
  "calm_ring k \<longleftrightarrow> (\<forall>a \<in> set (wr_ans k). \<exists>m. a = Xfer m) \<and> (\<forall>c \<in> set (reaps (plat k)). wait_errno c = 0 \<or> wait_errno c = EINTR)"

fun any_ready :: "driver_state \<Rightarrow> 'h st \<Rightarrow> bool" where
  "any_ready (SyncSt s) w \<longleftrightarrow> sync_ready s w \<and> any_for (cfg (fst w)) (SyncSt s)"
| "any_ready (AsyncSt p) w \<longleftrightarrow> async_ready p w \<and> oc (fst w) = 0 \<and> any_for (cfg (fst w)) (AsyncSt p)"
| "any_ready (ReflinkSt s) w \<longleftrightarrow> reflink_ready s w \<and> takeover w \<and> any_for (cfg (fst w)) (ReflinkSt s)"
| "any_ready (SpliceSt s) w \<longleftrightarrow> splice_ready s w \<and> takeover w \<and> any_for (cfg (fst w)) (SpliceSt s)"
| "any_ready (UringSt s) w \<longleftrightarrow> uring_ready s w \<and> oc (fst w) = 0 \<and> calm_ring (snd w) \<and> \<not> conv (cfg (fst w)) C_SPARSE"

fun any_stop :: "driver_state \<Rightarrow> 'h st \<Rightarrow> bool" where
  "any_stop (SyncSt s) w \<longleftrightarrow> sync_stop s w"
| "any_stop (AsyncSt p) w \<longleftrightarrow> async_stop p w"
| "any_stop (ReflinkSt s) w \<longleftrightarrow> reflink_stop s w"
| "any_stop (SpliceSt s) w \<longleftrightarrow> splice_stop s w"
| "any_stop (UringSt s) w \<longleftrightarrow> uring_stop s w"

fun any_eff :: "driver_state \<Rightarrow> 'h st \<Rightarrow> kern" where
  "any_eff (AsyncSt p) w = async_eff p (snd w)"
| "any_eff (SpliceSt s) w = splice_eff s w"
| "any_eff (UringSt s) w = uring_eff s w"
| "any_eff _ w = snd w"

fun any_left :: "driver_state \<Rightarrow> 'h st \<Rightarrow> nat" where
  "any_left (AsyncSt p) w = async_left p w"
| "any_left (ReflinkSt s) w = reflink_left s w"
| "any_left (SpliceSt s) w = splice_left s w"
| "any_left (UringSt s) w = uring_left s w"
| "any_left _ w = length (avail (snd w))"

fun any_moved :: "driver_state \<Rightarrow> 'h st \<Rightarrow> int" where
  "any_moved (UringSt s) w = uring_moved s w"
| "any_moved _ w = w_bytes (stats (fst w))"

lemma takeover_stats: "takeover (ctx, k) \<Longrightarrow> takeover (ctx\<lparr>stats := s\<rparr>, k')"
  by (simp add: takeover_def)

lemma zero_copy_step_ctx:
  "reflink_driver_step s (ctx, k) = Some r \<Longrightarrow> rc r = EXIT_SUCCESS \<Longrightarrow> \<exists>t k'. world r = (ctx\<lparr>stats := t\<rparr>, k')"
  "splice_driver_step p (ctx, k) = Some q \<Longrightarrow> rc q = EXIT_SUCCESS \<Longrightarrow> \<exists>t k'. world q = (ctx\<lparr>stats := t\<rparr>, k')"
  "reflink_driver_step s (ctx, k) = Some r \<Longrightarrow> fallback r \<Longrightarrow> fst (world r) = ctx \<and> w_bytes (stats ctx) = 0 \<and> rc r = EXIT_SUCCESS \<and> \<not> eof r"
  "splice_driver_step p (ctx, k) = Some q \<Longrightarrow> fallback q \<Longrightarrow> fst (world q) = ctx \<and> w_bytes (stats ctx) = 0 \<and> rc q = EXIT_SUCCESS \<and> \<not> eof q"
proof -
  have same: "\<exists>t. ctx = ctx\<lparr>stats := t\<rparr>" by (rule exI [of _ "stats ctx"]) simp
  show "reflink_driver_step s (ctx, k) = Some r \<Longrightarrow> rc r = EXIT_SUCCESS \<Longrightarrow> \<exists>t k'. world r = (ctx\<lparr>stats := t\<rparr>, k')"
    by (auto simp: reflink_driver_step_def done_defs Let_def same split: sum.splits prod.splits if_splits)
  show "splice_driver_step p (ctx, k) = Some q \<Longrightarrow> rc q = EXIT_SUCCESS \<Longrightarrow> \<exists>t k'. world q = (ctx\<lparr>stats := t\<rparr>, k')"
    by (auto simp: splice_driver_step_def splice_double_def splice_single_def done_defs Let_def same
        split: sum.splits prod.splits if_splits option.splits)
  show "reflink_driver_step s (ctx, k) = Some r \<Longrightarrow> fallback r \<Longrightarrow> fst (world r) = ctx \<and> w_bytes (stats ctx) = 0 \<and> rc r = EXIT_SUCCESS \<and> \<not> eof r"
    by (auto simp: reflink_driver_step_def done_defs Let_def split: sum.splits prod.splits if_splits)
  have g: "fst (world q) = ctx \<and> w_bytes (stats ctx) = 0 \<and> rc q = EXIT_SUCCESS \<and> \<not> eof q"
    if "(if e = EINTR then done_ok p (ctx, k') else if splice_no_support e ctx then done_fallback p (ctx, k')
         else done_fail p w') = Some q" "fallback q" for e k' w'
    using that by (auto simp: splice_no_support_def done_defs split: if_splits)
  have d: "fst (world q) = ctx \<and> w_bytes (stats ctx) = 0 \<and> rc q = EXIT_SUCCESS \<and> \<not> eof q"
    if s: "splice_double n p (ctx, k) = Some q" and fb: "fallback q" for n
  proof -
    define m where "m = min n (case pipe_capacity (plat k) of None \<Rightarrow> 0 | Some c \<Rightarrow> c)"
    obtain r ip k1 where x: "sys_splice_in (poff_in p) m k = (r, ip, k1)" by (cases "sys_splice_in (poff_in p) m k")
    show ?thesis
    proof (cases r)
      case (Inl e)
      then show ?thesis using g [OF _ fb] s unfolding splice_double_def prod.case m_def [symmetric] x by simp
    next
      case (Inr bs)
      then show ?thesis
        using fb s unfolding splice_double_def prod.case m_def [symmetric] x by (auto simp: done_defs split: if_splits option.splits prod.splits)
    qed
  qed
  have t: "fst (world q) = ctx \<and> w_bytes (stats ctx) = 0 \<and> rc q = EXIT_SUCCESS \<and> \<not> eof q"
    if s: "splice_single n p (ctx, k) = Some q" and fb: "fallback q" for n
  proof -
    obtain r ip k1 where x: "(if any_set (out_fl k) O_APPEND then (Inl EINVAL, poff_in p, k\<lparr>errno := EINVAL\<rparr>)
        else sys_splice_in (poff_in p) n k) = (r, ip, k1)" by (metis prod.exhaust)
    show ?thesis
    proof (cases r)
      case (Inl e)
      then show ?thesis using g [OF _ fb] s unfolding splice_single_def prod.case x by simp
    next
      case (Inr bs)
      then show ?thesis
        using fb s unfolding splice_single_def prod.case x by (auto simp: done_defs split: if_splits prod.splits)
    qed
  qed
  show "splice_driver_step p (ctx, k) = Some q \<Longrightarrow> fallback q \<Longrightarrow> fst (world q) = ctx \<and> w_bytes (stats ctx) = 0 \<and> rc q = EXIT_SUCCESS \<and> \<not> eof q"
    unfolding splice_driver_step_def Let_def using d t by (auto simp: done_eof_def split: if_splits)
qed

lemma zero_copy_carried: "takeover (ctx, k) \<Longrightarrow> carried H bs (ctx, k) (ctx\<lparr>stats := t\<rparr>, k')"
  by (auto simp: takeover_def carried_def hole_ok_def digest_def hash_feed_def conv_def any_set_or_right)

text \<open>Enough for \<open>flush\<close> and \<open>cleanup\<close> to go well, also after a step that failed.\<close>

fun ends_ok :: "driver_state \<Rightarrow> 'h st \<Rightarrow> bool" where
  "ends_ok (SyncSt s) w \<longleftrightarrow> saved_byte s < 0"
| "ends_ok (AsyncSt p) w \<longleftrightarrow> (\<exists>wb. async_inv (cfg (fst w)) (iread_fnc (fst w)) wb p (snd w)) \<and> oc (fst w) = 0"
| "ends_ok _ w \<longleftrightarrow> True"

definition any_good :: "'h hash_api \<Rightarrow> driver_state \<Rightarrow> 'h st \<Rightarrow> (driver_state, 'h) step_out \<Rightarrow> bool" where
  "any_good H d w r \<longleftrightarrow> (\<not> fallback r \<longrightarrow> ends_ok (dstate r) (world r)) \<and>
     (rc r = EXIT_SUCCESS \<and> \<not> fallback r \<longrightarrow> any_ready (dstate r) (world r) \<and>
       (\<exists>bs. moves bs (any_eff d w) (any_eff (dstate r) (world r)) \<and>
         any_moved (dstate r) (world r) = any_moved d w + int (length bs) \<and> carried H bs w (world r) \<and>
         (eof r \<longrightarrow> any_stop (dstate r) (world r))) \<and>
       (\<not> eof r \<longrightarrow> any_left (dstate r) (world r) < any_left d w)) \<and>
     (fallback r \<longrightarrow> moves [] (any_eff d w) (snd (world r)) \<and> fst (world r) = fst w \<and> takeover (world r) \<and>
       w_bytes (stats (fst w)) = 0 \<and> \<not> eof r \<and> driver_cleanup (dstate r) (world r) = Some (world r) \<and>
       (case d of ReflinkSt s \<Rightarrow> True | SpliceSt s \<Rightarrow> True | _ \<Rightarrow> False))"

lemmas map_dstate_simps = map_dstate_def step_out.simps

lemma limit_for_request: "request c' = request c \<Longrightarrow> limit_for c' = limit_for c"
  using requestD [of c' c] by (cases "rescaled c") (simp_all add: limit_for_def fun_eq_iff)

lemma any_good_sync:
  assumes "any_ready (SyncSt s) w"
  shows "\<exists>r. driver_step H (SyncSt s) w = Some r \<and> any_good H (SyncSt s) w r"
proof -
  have a: "sync_ready s w" using assms by simp
  obtain q where q: "sync_driver_step H s w = Some q" using sync.step_defined [OF a] by blast
  have g: "sync_good H w (Some q)" using sync_step_good [OF a, of H] q by simp
  have fr: "total_byte_limit (at (dstate q)) = total_byte_limit (at s)" by (rule sync_step_at [OF q])
  have "length (avail (snd (world q))) < length (avail (snd w))" if "rc q = EXIT_SUCCESS" "\<not> eof q"
    using sync.step_progress [OF a q that(1) _ that(2)] g by (simp add: sync_good_def)
  moreover have "any_for (cfg (fst (world q))) (SyncSt (dstate q))" if "rc q = EXIT_SUCCESS"
    using g that assms limit_for_request [of "cfg (fst (world q))" "cfg (fst w)"] by (auto simp: sync_good_def carried_def fr)
  ultimately have "any_good H (SyncSt s) w (map_dstate SyncSt q)"
    using g by (auto simp: any_good_def sync_good_def map_dstate_simps)
  then show ?thesis using q by (simp add: driver_step_def)
qed

lemma any_good_async:
  assumes "async_ready p w" "oc (fst w) = 0" "any_for (cfg (fst w)) (AsyncSt p)"
  shows "\<exists>r. driver_step H (AsyncSt p) w = Some r \<and> any_good H (AsyncSt p) w r"
proof -
  obtain q where q: "async_driver_step H p w = Some q" using async.step_defined [OF assms(1)] by blast
  have g: "async_good H p w (Some q)" using async_step_good [OF assms(1), of H] q by simp
  have "async_left (dstate q) (world q) < async_left p w" if "rc q = EXIT_SUCCESS" "\<not> eof q"
    using async.step_progress [OF assms(1) q that(1) _ that(2)] g by (simp add: async_good_def)
  moreover have "oc (fst (world q)) = 0" if "rc q = EXIT_SUCCESS"
    using g that assms(2) by (auto simp: async_good_def carried_def)
  ultimately have "any_good H (AsyncSt p) w (map_dstate AsyncSt q)"
    using g assms(2,3) by (auto simp: any_good_def async_good_def map_dstate_simps)
  then show ?thesis using q by (simp add: driver_step_def)
qed

lemma takeover_world: "takeover w \<Longrightarrow> fst w' = fst w \<Longrightarrow> takeover w'"
  by (simp add: takeover_def)

lemma reflink_step_limit: "reflink_driver_step s w = Some r \<Longrightarrow> dstate r = s"
  by (auto simp: reflink_driver_step_def done_defs Let_def split: sum.splits prod.splits if_splits)

lemma any_good_reflink:
  assumes "reflink_ready s w" "takeover w" "any_for (cfg (fst w)) (ReflinkSt s)"
  shows "\<exists>r. driver_step H (ReflinkSt s) w = Some r \<and> any_good H (ReflinkSt s) w r"
proof -
  obtain ctx k where w: "w = (ctx, k)" by fastforce
  obtain q where q: "reflink_driver_step s w = Some q" using reflink.step_defined [OF assms(1)] by blast
  have ok: "takeover (world q) \<and> carried H bs w (world q) \<and> any_for (cfg (fst (world q))) (ReflinkSt (dstate q))"
    if "rc q = EXIT_SUCCESS" for bs
    using zero_copy_step_ctx(1) [OF q [unfolded w] that] takeover_stats zero_copy_carried assms(2,3) reflink_step_limit [OF q]
    by (auto simp: w)
  have fb: "fst (world q) = fst w \<and> w_bytes (stats (fst w)) = 0 \<and> \<not> eof q" if "fallback q"
    using zero_copy_step_ctx(3) [OF q [unfolded w] that] by (simp add: w)
  have "any_good H (ReflinkSt s) w (map_dstate ReflinkSt q)"
    unfolding any_good_def
    using reflink.step_moves [OF assms(1) q] reflink.step_progress [OF assms(1) q] reflink.step_fallback [OF assms(1) q] ok fb
      takeover_world [OF assms(2), of "world q"]
    by (auto simp: map_dstate_simps driver_cleanup_def)
  then show ?thesis using q by (simp add: driver_step_def)
qed

lemma any_good_splice:
  assumes "splice_ready s w" "takeover w" "any_for (cfg (fst w)) (SpliceSt s)"
  shows "\<exists>r. driver_step H (SpliceSt s) w = Some r \<and> any_good H (SpliceSt s) w r"
proof -
  obtain ctx k where w: "w = (ctx, k)" by fastforce
  obtain q where q: "splice_driver_step s w = Some q" using splice.step_defined [OF assms(1)] by blast
  have "sp_total_byte_limit (dstate q) = sp_total_byte_limit s"
    using splice_step_good [OF assms(1)] q by (simp add: splice_good_def)
  then have ok: "takeover (world q) \<and> carried H bs w (world q) \<and> any_for (cfg (fst (world q))) (SpliceSt (dstate q))"
    if "rc q = EXIT_SUCCESS" for bs
    using zero_copy_step_ctx(2) [OF q [unfolded w] that] takeover_stats zero_copy_carried assms(2,3) by (auto simp: w)
  have fb: "fst (world q) = fst w \<and> w_bytes (stats (fst w)) = 0 \<and> \<not> eof q" if "fallback q"
    using zero_copy_step_ctx(4) [OF q [unfolded w] that] by (simp add: w)
  have "any_good H (SpliceSt s) w (map_dstate SpliceSt q)"
    unfolding any_good_def
    using splice.step_moves [OF assms(1) q] splice.step_progress [OF assms(1) q] splice.step_fallback [OF assms(1) q] ok fb
      takeover_world [OF assms(2), of "world q"]
    by (auto simp: map_dstate_simps driver_cleanup_def)
  then show ?thesis using q by (simp add: driver_step_def)
qed

lemma any_good_uring:
  assumes "any_ready (UringSt s) w"
  shows "\<exists>r. driver_step H (UringSt s) w = Some r \<and> any_good H (UringSt s) w r"
proof -
  have rd: "uring_ready s w" "oc (fst w) = 0" "calm_ring (snd w)" "\<not> conv (cfg (fst w)) C_SPARSE" using assms by simp_all
  show ?thesis
  proof (rule uring_step_good [OF rd(1), where H = H])
    fix st st' q
    assume d: "s = Ring st" "uring_driver_step H s w = Some q" "\<not> fallback q" "rc q = EXIT_SUCCESS \<Longrightarrow> dstate q = Ring st'"
      and ok: "rc q = EXIT_SUCCESS \<Longrightarrow> uring_inv st' (world q) \<and> set (wr_ans (snd (world q))) \<subseteq> set (wr_ans (snd w)) \<and>
         set (reaps (plat (snd (world q)))) \<subseteq> set (reaps (plat (snd w))) \<and>
         (\<exists>bs s. moves bs (ring_eff st (snd w)) (ring_eff st' (snd (world q))) \<and>
           ring_moved st' (world q) = ring_moved st w + int (length bs) \<and>
           fst (world q) = (hash_feed H bs (fst w))\<lparr>stats := s\<rparr>) \<and>
         (if eof q then ring_stop st' (world q) else ring_left st' (world q) < ring_left st w)"
    have "any_good H (UringSt s) w (map_dstate UringSt q)"
    proof (cases "rc q = EXIT_SUCCESS")
      case True
      obtain bs t where b: "moves bs (ring_eff st (snd w)) (ring_eff st' (snd (world q)))"
          "ring_moved st' (world q) = ring_moved st w + int (length bs)" "fst (world q) = (hash_feed H bs (fst w))\<lparr>stats := t\<rparr>"
        using ok [OF True] by blast
      have c: "carried H bs w (world q)"
        using rd(4) b(3)
        by (simp add: carried_def hash_feed_frame hole_ok_def digest_upd)
      have "calm_ring (snd (world q))" using rd(3) ok [OF True] unfolding calm_ring_def by blast
      moreover have "oc (fst (world q)) = 0" "\<not> conv (cfg (fst (world q))) C_SPARSE"
        using rd(2,4) by (simp_all add: b(3) hash_feed_frame)
      ultimately show ?thesis
        using b(1,2) c ok [OF True] d(3) d(4) [OF True] d(1) by (auto simp: any_good_def map_dstate_simps)
    qed (use d(3) in \<open>simp add: any_good_def map_dstate_simps\<close>)
    then show ?thesis using d(2) by (simp add: driver_step_def)
  qed
qed

lemma any_step_good: "any_ready d w \<Longrightarrow> \<exists>r. driver_step H d w = Some r \<and> any_good H d w r"
  using any_good_uring by (cases d) (simp_all add: any_good_sync any_good_async any_good_reflink any_good_splice)

lemma moves_eff_same_io:
  assumes "same_io k k'"
  shows "moves [] (k\<lparr>in_off := i, out_off := j\<rparr>) (k'\<lparr>in_off := i, out_off := j\<rparr>)"
  using assms by (simp add: same_io_def moves_def avail_def view_def beyond_def out_pos_def)

lemma uring_calm:
  assumes "calm w w'"
  shows "uring_ready u w \<Longrightarrow> uring_ready u w'" "uring_stop u w \<Longrightarrow> uring_stop u w'" "moves [] (uring_eff u w) (uring_eff u w')"
    "uring_left u w' = uring_left u w" "uring_moved u w' = uring_moved u w" "calm_ring (snd w) \<Longrightarrow> calm_ring (snd w')"
proof -
  obtain ctx k ctx' k' where w: "w = (ctx, k)" "w' = (ctx', k')" by fastforce
  note c = calmD [OF assms [unfolded w]]
  note s = same_dataD [OF c(1)] and io = same_ioD [OF c(2)]
  have rp: "reaps (plat k') = reaps (plat k)" using assms by (auto simp: calm_def w)
  have inv: "uring_inv st (ctx', k') = uring_inv st (ctx, k)" for st
  proof -
    have "uring_inv st (ctx', k) = uring_inv st (ctx, k)" using s by (simp add: uring_inv_def)
    then show ?thesis using uring_inv_same_io(1) [OF c(2), of st ctx'] by simp
  qed
  have m: "moves [] (ring_eff st k) (ring_eff st k')" for st by (rule uring_inv_same_io(2) [OF c(2)])
  have av: "avail (ring_eff st k') = avail (ring_eff st k)" for st using movesD(1) [OF m] by simp
  show "uring_ready u w \<Longrightarrow> uring_ready u w'" by (cases u) (simp_all add: w inv)
  show "uring_stop u w \<Longrightarrow> uring_stop u w'" using s by (cases u) (simp_all add: w ring_stop_def av)
  show "moves [] (uring_eff u w) (uring_eff u w')" using m moves_same_io [OF c(2)] by (cases u) (simp_all add: w)
  show "uring_left u w' = uring_left u w" by (cases u) (simp_all add: w ring_left_def av rp)
  show "uring_moved u w' = uring_moved u w" using s by (cases u) (simp_all add: w ring_moved_def)
  show "calm_ring (snd w) \<Longrightarrow> calm_ring (snd w')" using io rp by (simp add: w calm_ring_def)
qed

lemma any_calm:
  assumes "calm w w'"
  shows "any_ready d w \<Longrightarrow> any_ready d w'" "any_stop d w \<Longrightarrow> any_stop d w'"
    "moves [] (any_eff d w) (any_eff d w')" "any_left d w' = any_left d w" "any_moved d w' = any_moved d w"
proof -
  obtain ctx k ctx' k' where w: "w = (ctx, k)" "w' = (ctx', k')" by fastforce
  note c = calmD [OF assms [unfolded w]]
  note s = same_dataD [OF c(1)] and io = same_ioD [OF c(2)]
  have sp: "sparse_ok (cfg ctx) k \<Longrightarrow> sparse_ok (cfg ctx') k'"
    using sparse_ok_moves [OF _ moves_same_io [OF c(2)]] s by simp
  have as: "async_inv (cfg ctx) (iread_fnc ctx) wb p k \<Longrightarrow> async_inv (cfg ctx) (iread_fnc ctx) wb p k'" for wb p
    by (rule async_inv_kern) (use io in simp_all)
  have tk: "takeover w \<Longrightarrow> takeover w'" using s by (simp add: w takeover_def)
  have ef: "splice_eff p w' = k'\<lparr>in_off := off_of (poff_in p) (in_off k), out_off := off_of (poff_out p) (out_off k)\<rparr>"
      "splice_eff p w = k\<lparr>in_off := off_of (poff_in p) (in_off k), out_off := off_of (poff_out p) (out_off k)\<rparr>" for p
    using io by (simp_all add: w splice_eff_def effk_def)
  have av: "avail (splice_eff p w') = avail (splice_eff p w)" for p
    using io by (simp add: ef avail_def)
  note ur = uring_calm [OF assms]
  show "any_ready d w \<Longrightarrow> any_ready d w'"
    using s io sp as tk c(3-5) ur(1,6) by (cases d) (auto simp: w sync_ready_def tuning_ok_def ibuf_bytes_def async_ready_def reflink_ready_def splice_ready_def)
  show "any_stop d w \<Longrightarrow> any_stop d w'"
    using s io ur(2) by (cases d) (auto simp: w sync_stop_def async_stop_def limits_hit_def reflink_stop_def splice_stop_def av [unfolded w])
  have ae: "async_eff p k = k\<lparr>in_off := in_off k - length (queued p), out_off := out_off k\<rparr>"
      "async_eff p k' = k'\<lparr>in_off := in_off k - length (queued p), out_off := out_off k\<rparr>" for p
    using io by (simp_all add: async_eff_def)
  have ma: "moves [] (async_eff p k) (async_eff p k')" for p unfolding ae by (rule moves_eff_same_io [OF c(2)])
  have ms: "moves [] (splice_eff p w) (splice_eff p w')" for p unfolding ef by (rule moves_eff_same_io [OF c(2)])
  show "moves [] (any_eff d w) (any_eff d w')"
    using moves_same_io [OF c(2)] ma ms ur(3) by (cases d) (simp_all add: w)
  have "avail (async_eff p k') = avail (async_eff p k)" for p using io by (simp add: ae avail_def)
  then show "any_left d w' = any_left d w"
    using io c(3-5) ur(4) by (cases d) (simp_all add: w async_left_def reflink_left_def splice_left_def av [unfolded w])
  show "any_moved d w' = any_moved d w" using s ur(5) by (cases d) (simp_all add: w)
qed

interpretation any: copy_driver "driver_step H" any_ready any_stop any_eff any_left any_moved H
  for H :: "'h hash_api"
proof (unfold_locales, goal_cases)
  case (1 d w)
  then show ?case using any_step_good [OF 1, of H] by auto
next
  case (2 d w r)
  then have "any_good H d w r" using any_step_good [OF 2(1), of H] by simp
  then show ?case using 2(3,4) unfolding any_good_def by blast
next
  case (3 d w r)
  then have "any_good H d w r" using any_step_good [OF 3(1), of H] by simp
  then show ?case using 3(3-5) unfolding any_good_def by blast
next
  case (4 d w r)
  then have "any_good H d w r" using any_step_good [OF 4(1), of H] by simp
  then show ?case using 4(3) unfolding any_good_def by (cases d) auto
next
  case (10 d w r bs)
  then have "any_good H d w r" using any_step_good [OF 10(1), of H] by simp
  then obtain cs where "moves cs (any_eff d w) (any_eff (dstate r) (world r))" "carried H cs w (world r)"
    using 10(3,4) unfolding any_good_def by blast
  then show ?case using moves_unique [OF 10(5)] by blast
qed (rule any_calm, assumption+)+

section \<open>The loop\<close>

text \<open>How many rounds there can be: a zero-copy driver may still hand over to the synchronous one.\<close>

definition loop_left :: "driver_state \<Rightarrow> 'h st \<Rightarrow> nat" where
  "loop_left d w = any_left d w +
     (case d of ReflinkSt s \<Rightarrow> length (avail (any_eff d w)) + 1 | SpliceSt s \<Rightarrow> length (avail (any_eff d w)) + 1 | _ \<Rightarrow> 0)"

text \<open>What the loop leaves behind when it ends with success.\<close>

definition loop_done :: "'h hash_api \<Rightarrow> driver_state \<Rightarrow> 'h st \<Rightarrow> driver_state \<Rightarrow> 'h st \<Rightarrow> bool" where
  "loop_done H d w d' w' \<longleftrightarrow> any_ready d' w' \<and> (any_stop d' w' \<or> limit_reached (fst w')) \<and>
     (\<exists>bs. moves bs (any_eff d w) (any_eff d' w') \<and> carried H bs w w' \<and>
       any_moved d' w' = any_moved d w + int (length bs))"

text \<open>The loop is neither without fuel nor outside a buffer, and what it leaves can be flushed and cleaned up.\<close>

fun loop_ok :: "'h hash_api \<Rightarrow> driver_state \<Rightarrow> 'h st \<Rightarrow> (int \<times> driver_state, 'h) run \<Rightarrow> bool" where
  "loop_ok H d w (Ret (status, d') w') \<longleftrightarrow> (status = EXIT_SUCCESS \<longrightarrow> loop_done H d w d' w') \<and> ends_ok d' w'"
| "loop_ok H d w (Exits e w') \<longleftrightarrow> True"
| "loop_ok H d w (Killed s w') \<longleftrightarrow> True"
| "loop_ok H d w Undefd \<longleftrightarrow> False"
| "loop_ok H d w NoFuel \<longleftrightarrow> False"

lemma loop_ok_after:
  assumes "hash_stream H" "moves bs (any_eff d w) (any_eff d1 w1)" "carried H bs w w1"
    "any_moved d1 w1 = any_moved d w + int (length bs)" "loop_ok H d1 w1 res"
  shows "loop_ok H d w res"
proof (cases res)
  case (Ret a w')
  obtain status d' where a: "a = (status, d')" by fastforce
  show ?thesis
  proof (cases "status = EXIT_SUCCESS")
    case True
    then have "loop_done H d1 w1 d' w'" and e: "ends_ok d' w'" using assms(5) Ret a by simp_all
    then obtain cs where cs: "any_ready d' w'" "any_stop d' w' \<or> limit_reached (fst w')"
        "moves cs (any_eff d1 w1) (any_eff d' w')" "carried H cs w1 w'"
        "any_moved d' w' = any_moved d1 w1 + int (length cs)" unfolding loop_done_def by blast
    have "any_moved d' w' = any_moved d w + int (length (bs @ cs))" using assms(4) cs(5) by simp
    then have "loop_done H d w d' w'"
      unfolding loop_done_def using cs(1,2) moves_trans [OF assms(2) cs(3)] carried_trans [OF assms(1,3) cs(4)] by blast
    then show ?thesis using Ret a e by simp
  qed (use Ret a assms(5) in simp)
qed (use assms(5) in auto)

lemma limit_for_sync: "0 < blocksize c \<Longrightarrow> 0 \<le> max_bytes c \<Longrightarrow> limit_for c (sync_limit c)"
proof -
  assume a: "0 < blocksize c" "0 \<le> max_bytes c"
  have "max_records c * 1 \<le> max_records c * blocksize c" if "0 \<le> max_records c" by (rule mult_left_mono) (use a that in simp_all)
  then show ?thesis using a by (cases "0 \<le> max_records c") (auto simp: limit_for_def sync_limit_def)
qed

lemma limit_for_zero_copy:
  assumes "0 < blocksize c" "0 \<le> max_bytes c" "max_records c \<le> INTMAX_MAX"
  shows "limit_for c (zero_copy_limit c)"
proof -
  have m: "max_records c * 1 \<le> max_records c * blocksize c" if "0 \<le> max_records c"
    by (rule mult_left_mono) (use assms that in simp_all)
  let ?t = "max_records c * blocksize c + max_bytes c"
  have t: "max_records c \<le> ?t \<or> ?t < 0" using m assms(2) by (cases "0 \<le> max_records c") auto
  have "zero_copy_limit c = (if 0 \<le> bytes_to_copy c then bytes_to_copy c
      else if max_records c \<noteq> INTMAX_MAX \<or> max_bytes c \<noteq> 0
      then (if in_intmax (max_records c * blocksize c) \<and> in_intmax ?t then ?t else INTMAX_MAX) else - 1)"
    by (cases "in_intmax (max_records c * blocksize c)"; cases "in_intmax ?t")
      (simp_all add: zero_copy_limit_def ckd_mul_def ckd_add_def)
  then show ?thesis using t assms(3) by (auto simp: limit_for_def)
qed

text \<open>A driver that stops, or a limit that ends the loop: nothing is left, or it is enough.\<close>

lemma any_stop_enough:
  assumes "any_ready d w" "any_stop d w \<or> limit_reached (fst w)"
  shows "avail (any_eff d w) = [] \<or> enough (cfg (fst w)) (stats (fst w))"
proof (cases "limit_reached (fst w)")
  case True
  then show ?thesis by (auto simp: limit_reached_def enough_def split: if_splits)
next
  case False
  then have s: "any_stop d w" using assms(2) by simp
  show ?thesis
  proof (cases d)
    case (AsyncSt p)
    then have i: "async_inv (cfg (fst w)) (iread_fnc (fst w)) (w_bytes (stats (fst w))) p (snd w)"
        "queued p = []" "limits_hit (cfg (fst w)) p (snd w)" "r_records_limit p = max_records (cfg (fst w))"
      using assms(1) s by (simp_all add: async_ready_def async_stop_def)
    then have "avail (async_eff p (snd w)) = avail (snd w)" "total_bytes_read p = w_bytes (stats (fst w))"
        "r_records_done p \<le> total_bytes_read p" by (simp_all add: async_inv_def)
    then show ?thesis using i(3,4) AsyncSt by (auto simp: limits_hit_def reader_limit_hit_def enough_def split: if_splits)
  next
    case (UringSt u)
    then show ?thesis using assms(1) s by (cases u) (auto simp: ring_stop_def enough_def)
  qed (use assms(1) s in \<open>auto simp: sync_stop_def reflink_stop_def splice_stop_def enough_def limit_for_def split: if_splits\<close>)
qed

text \<open>A driver hands over: the synchronous one starts where the source and the target stand.\<close>

lemma takeover_sync:
  assumes "takeover w" "w_bytes (stats (fst w)) = 0" "sync_driver_init w = (s, w')"
  shows "any_ready (SyncSt s) w' \<and> snd w' = snd w \<and> stats (fst w') = stats (fst w) \<and> carried H [] w w'"
proof -
  obtain ctx k where w: "w = (ctx, k)" by fastforce
  have "fresh_plain w"
    using assms(1,2) by (auto simp: takeover_def fresh_plain_def sparse_ok_def conv_def any_set_or_right)
  note i = sync_init_ready [OF this [unfolded w] assms(3) [unfolded w]]
  have "\<not> conv (cfg ctx) C_AUTOTUNE" using assms(1) by (auto simp: takeover_def w conv_def any_set_or_right)
  from i(4) [OF this] i(1,3,5,6) show ?thesis
    using assms(1) by (simp add: w takeover_def limit_for_sync)
qed

lemma any_ready_ends: "any_ready d w \<Longrightarrow> ends_ok d w"
  by (cases d) (auto simp: sync_ready_def async_ready_def)

lemma copy_loop_ok:
  assumes H: "hash_stream H"
  shows "any_ready d w \<Longrightarrow> loop_left d w < n \<Longrightarrow> loop_ok H d w (copy_loop n H d w)"
proof (induction n arbitrary: d w)
  case (Suc n)
  show ?case
  proof (cases rule: process_signals_cases [of w])
    case ends
    then show ?thesis by auto
  next
    case (ret w1)
    note rdy = any_calm(1) [OF ret(2) Suc.prems(1)]
    have mv: "moves [] (any_eff d w) (any_eff d w1)" and left: "any_left d w1 = any_left d w" and mvd: "any_moved d w1 = any_moved d w"
      using any_calm(3,4,5) [OF ret(2)] by blast+
    have av: "avail (any_eff d w1) = avail (any_eff d w)" using movesD(1) [OF mv] by simp
    show ?thesis
    proof (cases "limit_reached (fst w1)")
      case True
      then show ?thesis
        using ret rdy mv calm_carried [OF ret(2)] mvd any_ready_ends [OF rdy]
        by (auto simp: loop_done_def intro!: exI [of _ "[]"])
    next
      case nl: False
      obtain r where r: "driver_step H d w1 = Some r" and g: "any_good H d w1 r" using any_step_good [OF rdy] by blast
      show ?thesis
      proof (cases "fallback r")
        case True
        obtain s w2 where i: "sync_driver_init (world r) = (s, w2)" by (cases "sync_driver_init (world r)")
        have f: "moves [] (any_eff d w1) (snd (world r))" "fst (world r) = fst w1" "takeover (world r)" "\<not> eof r"
            "w_bytes (stats (fst w1)) = 0" "driver_cleanup (dstate r) (world r) = Some (world r)"
            "case d of ReflinkSt s \<Rightarrow> True | SpliceSt s \<Rightarrow> True | _ \<Rightarrow> False"
          using g True unfolding any_good_def by blast+
        have y: "any_ready (SyncSt s) w2" "snd w2 = snd (world r)" "stats (fst w2) = stats (fst (world r))" "carried H [] (world r) w2"
          using takeover_sync [OF f(3) _ i, of H] f(2,5) by simp_all
        have out: "copy_loop (Suc n) H d w = copy_loop n H (SyncSt s) w2" using ret nl r True f(4,6) i by simp
        have "avail (any_eff d w1) = avail (snd w2)" using movesD(1) [OF f(1)] y(2) by simp
        then have "loop_left (SyncSt s) w2 < n"
          using Suc.prems(2) f(7) av by (cases d) (simp_all add: loop_left_def)
        then have IH: "loop_ok H (SyncSt s) w2 (copy_loop n H (SyncSt s) w2)" using Suc.IH [OF y(1)] by simp
        have m: "moves [] (any_eff d w) (any_eff (SyncSt s) w2)" using moves_trans [OF mv f(1)] y(2) by simp
        have "carried H [] w1 (world r)"
        proof -
          obtain k1 k2 where e: "w1 = (fst w1, k1)" "world r = (fst w1, k2)" using f(2) by (metis prod.collapse)
          have "\<not> conv (cfg (fst w1)) C_SPARSE" using f(2,3) by (auto simp: takeover_def conv_def any_set_or_right)
          then show ?thesis by (subst e(1), subst e(2)) (simp add: carried_def hole_ok_def)
        qed
        then have "carried H [] w w2"
          using carried_trans [OF H calm_carried [OF ret(2)] carried_trans [OF H _ y(4)]] by simp
        then show ?thesis
          unfolding out using loop_ok_after [OF H m _ _ IH] y(3) f(2,7) calm_w_bytes [OF ret(2)] by (cases d) simp_all
      next
        case nf: False
        show ?thesis
        proof (cases "rc r = EXIT_SUCCESS")
          case False
          then show ?thesis using ret nl r nf g by (simp add: any_good_def)
        next
          case True
          let ?w = "dd_check_progress (world r)"
          obtain bs where bs: "moves bs (any_eff d w) (any_eff (dstate r) ?w)" "carried H bs w ?w"
              "any_moved (dstate r) ?w = any_moved d w + int (length bs)" "any_ready (dstate r) ?w"
              "eof r \<longrightarrow> any_stop (dstate r) ?w" "\<not> eof r \<longrightarrow> any_left (dstate r) ?w < any_left d w"
            using any.round [OF Suc.prems(1) ret(2) r True nf calm_check_progress] H by blast
          show ?thesis
          proof (cases "eof r")
            case True
            have "ends_ok (dstate r) ?w" by (rule any_ready_ends [OF bs(4)])
            then show ?thesis using True ret nl r nf \<open>rc r = EXIT_SUCCESS\<close> bs by (auto simp: Let_def loop_done_def)
          next
            case False
            have same: "(case dstate r of ReflinkSt s \<Rightarrow> True | SpliceSt s \<Rightarrow> True | _ \<Rightarrow> False) =
                (case d of ReflinkSt s \<Rightarrow> True | SpliceSt s \<Rightarrow> True | _ \<Rightarrow> False)"
              using r by (cases d) (auto simp: driver_step_def map_dstate_def)
            have "length (avail (any_eff (dstate r) ?w)) \<le> length (avail (any_eff d w))" using movesD(1) [OF bs(1)] by simp
            then have "loop_left (dstate r) ?w < loop_left d w"
              using bs(6) False same by (cases d; cases "dstate r") (simp_all add: loop_left_def)
            then have "loop_ok H (dstate r) ?w (copy_loop n H (dstate r) ?w)"
              using Suc.IH [OF bs(4)] Suc.prems(2) by simp
            from loop_ok_after [OF H bs(1,2,3) this] show ?thesis
              using ret nl r nf False \<open>rc r = EXIT_SUCCESS\<close> by (simp add: Let_def)
          qed
        qed
      qed
    qed
  qed
qed simp

section \<open>Before and after the loop\<close>

text \<open>The first \<open>n\<close> bytes of the target, a hole reading as zeros; and what it means that \<open>bs\<close> was put into it.\<close>

definition content :: "nat \<Rightarrow> kern \<Rightarrow> byte list" where
  "content n k = take n (out_data k) @ replicate (n - length (out_data k)) 0"

definition delivered :: "byte list \<Rightarrow> kern \<Rightarrow> kern \<Rightarrow> bool" where
  "delivered bs k k' \<longleftrightarrow> content (out_pos k + length bs) k' = content (out_pos k) k @ bs \<and>
     drop (out_pos k + length bs) (out_data k') = drop (out_pos k + length bs) (out_data k)"

lemma view_content: "view k = content (out_pos k) k"
  by (simp add: view_def content_def)

lemma moves_delivered:
  assumes "moves bs k e" "out_data e = out_data k'"
  shows "delivered bs k k'"
proof -
  have v: "view e = view k @ bs" and b: "beyond e = drop (length bs) (beyond k)" using movesD [OF assms(1)] by simp_all
  have p: "out_pos e = out_pos k + length bs" using arg_cong [OF v, of length] by simp
  show ?thesis
    using v b by (simp add: delivered_def view_content p content_def assms(2) beyond_def add.commute)
qed

lemma content_last_zero:
  assumes "length f \<le> p" "0 < p" "last (take p f @ replicate (p - length f) 0) = (0 :: byte)"
  shows "write_at f (p - 1) [0] = take p f @ replicate (p - length f) 0"
proof (cases "length f = p")
  case True
  then have "f \<noteq> []" "last f = 0" using assms by auto
  then have "butlast f @ [0] = f" by (metis append_butlast_last_id)
  then show ?thesis using True assms(2) by (simp add: write_at_def butlast_conv_take)
next
  case False
  then have "p - length f = Suc (p - 1 - length f)" "length f \<le> p - 1" using assms by simp_all
  then show ?thesis using assms(1) by (simp add: write_at_def replicate_append_same)
qed

lemma finish_sparse_content:
  assumes "hole_ok (ctx, k)" "sparse_ok (cfg ctx) k" "finish_sparse (ctx, k) = (ctx', k')"
  shows "content (out_pos k) k' = view k \<and> drop (out_pos k) (out_data k') = beyond k \<and>
    digest ctx' = digest ctx \<and> cfg ctx' = cfg ctx \<and> stats ctx' = stats ctx"
proof (cases "final_op_was_seek ctx")
  case False
  then show ?thesis using assms(3) by (auto simp: finish_sparse_def view_content beyond_def)
next
  case True
  let ?p = "out_off k" and ?f = "out_data k"
  have h: "view k \<noteq> []" "last (view k) = 0" "beyond k = []" "\<not> any_set (out_fl k) O_APPEND"
    using assms(1,2) True by (auto simp: hole_ok_def sparse_ok_def)
  have p: "out_pos k = ?p" using h(4) by (simp add: out_pos_def)
  have v: "view k = take ?p ?f @ replicate (?p - length ?f) 0" by (simp add: view_def p)
  have pos: "0 < ?p" using h(1) length_view [of k] p by (metis length_greater_0_conv)
  have len: "length ?f \<le> ?p" using h(3) by (simp add: beyond_def p)
  have ctx': "ctx' = ctx\<lparr>final_op_was_seek := False\<rparr>" using assms(3) True by (simp add: finish_sparse_def)
  have same: "?f = out_data k' \<Longrightarrow> ?thesis"
    by (simp add: ctx' view_content content_def p beyond_def digest_def)
  have view: "out_data k' = view k \<Longrightarrow> ?thesis"
    using length_view [of k] h(3) by (simp add: ctx' content_def p digest_def)
  obtain e k1 where n: "next_err k = (e, k1)" by fastforce
  have k1: "out_data k1 = ?f" "out_off k1 = ?p" "out_fl k1 = out_fl k" "out_seek k1 = out_seek k"
    using same_ioD [OF next_err_frame [OF n]] by simp_all
  consider "out_type k \<noteq> Some S_IFREG \<or> \<not> out_seek k" | "out_type k = Some S_IFREG" "out_seek k" by blast
  then show ?thesis
  proof cases
    case 1
    then show ?thesis using assms(3) True by (intro same) (auto simp: finish_sparse_def sys_lseek_def)
  next
    case 2
    have l: "sys_lseek STDOUT_FILENO 0 k = (Some (int ?p), k)" using 2(2) by (simp add: sys_lseek_def)
    show ?thesis
    proof (cases "e = 0")
      case True
      then have "k' = set_length ?p k1" using assms(3) \<open>final_op_was_seek ctx\<close> 2 l n pos by (simp add: finish_sparse_def)
      then show ?thesis by (intro view) (simp add: set_length_def k1 v)
    next
      case False
      define k2 where "k2 = k1\<lparr>out_off := ?p - 1\<rparr>"
      have l2: "sys_lseek STDOUT_FILENO (- 1) k1 = (Some (int ?p - 1), k2)"
        using pos 2(2) by (simp add: sys_lseek_def k1 k2_def nat_diff_distrib)
      have k': "k' = snd (sys_write [0] k2)"
        using assms(3) \<open>final_op_was_seek ctx\<close> 2 l n pos False l2 by (simp add: finish_sparse_def)
      have w: "write_at ?f (?p - 1) [0] = view k"
        unfolding v by (rule content_last_zero [OF len pos]) (use h(2) v in simp)
      have o2: "out_pos k2 = ?p - 1" "out_data k2 = ?f" using h(4) k1 by (simp_all add: k2_def out_pos_def)
      have op: "out_pos (k2\<lparr>wr_ans := as\<rparr>) = ?p - 1" for as using o2 by (auto simp: out_pos_def split: if_splits)
      have "out_data k' = ?f \<or> out_data k' = write_at ?f (?p - 1) [0]"
        using o2 op by (auto simp: k' sys_write_def put_output_def take_Cons' split: list.splits ans.splits)
      then show ?thesis using same view w by auto
    qed
  qed
qed

text \<open>A request to copy verbatim, at its start, with no buffer allocated yet.\<close>

definition copy_request :: "'h st \<Rightarrow> bool" where
  "copy_request w \<longleftrightarrow> fresh_plain w \<and> hole_ok w \<and> max_records (cfg (fst w)) \<le> INTMAX_MAX \<and> \<not> (max_records (cfg (fst w)) = 0 \<and> max_bytes (cfg (fst w)) = 0)"

text \<open>
  What each driver asks of the platform: the thread can be created, and no read fails half way through a
  block; \<open>copy_file_range\<close> does not report 0 with data left; the internal pipe can hold something; a request of
  the single ring is not carried out in part or put off, its writes do not fail (the code does not look at the
  result of the last one), and there are no holes to keep. A digest needs a driver that sees the data, and the block
  size is tuned by the synchronous driver.
\<close>

definition driver_ok :: "driver \<Rightarrow> 'h st \<Rightarrow> bool" where
  "driver_ok d w \<longleftrightarrow>
     (d \<noteq> sync_io_driver \<longrightarrow> \<not> conv (cfg (fst w)) C_AUTOTUNE) \<and>
     (case d of
        sync_io_driver \<Rightarrow> True
      | async_io_driver \<Rightarrow> err_ans (plat (snd w)) = [] \<and> read_clean (iread_fnc (fst w)) (snd w)
      | reflink_io_driver \<Rightarrow> Xfer 0 \<notin> set (cfr_ans (plat (snd w))) \<and> \<not> conv (cfg (fst w)) (C_BLAKE3 OR C_BLKS)
      | splice_io_driver \<Rightarrow> pipe_capacity (plat (snd w)) \<noteq> Some 0 \<and> \<not> any_set (out_fl (snd w)) O_APPEND \<and>
          \<not> conv (cfg (fst w)) (C_BLAKE3 OR C_BLKS)
      | uring_io_driver \<Rightarrow> \<not> 1 < threads (cfg (fst w)) \<and> \<not> conv (cfg (fst w)) C_SPARSE \<and> calm_ring (snd w) \<and>
          (\<forall>a \<in> set (rd_ans (snd w)). whole_ans 0 a) \<and> (\<forall>a \<in> set (wr_ans (snd w)). whole_ans (bs_nat (fst w)) a) \<and>
          (any_set (out_fl (snd w)) O_APPEND \<longrightarrow> any_set (output_flags (cfg (fst w))) O_APPEND))"

definition fuel :: "kern \<Rightarrow> nat" where
  "fuel k = 2 * length (avail k) + length (cfr_ans (plat k)) + length (spl_in_ans (plat k)) + length (reaps (plat k)) + 1"

definition started :: "'h hash_api \<Rightarrow> 'h st \<Rightarrow> driver_state \<Rightarrow> 'h st \<Rightarrow> bool" where
  "started H w d w' \<longleftrightarrow> any_ready d w' \<and> moves [] (snd w) (any_eff d w') \<and> any_moved d w' = 0 \<and>
     carried H [] w w' \<and> loop_left d w' \<le> fuel (snd w)"

lemma started_sync:
  assumes "copy_request w" "sync_driver_init w = (s, w')"
  shows "started H w (SyncSt s) w'"
proof -
  obtain ctx k where w: "w = (ctx, k)" by fastforce
  have f: "fresh_plain (ctx, k)" using assms(1) by (simp add: copy_request_def w)
  note i = sync_init_ready [OF f assms(2) [unfolded w]]
  have "limit_for (cfg ctx) (sync_limit (cfg ctx))" using f by (simp add: fresh_plain_def limit_for_sync)
  moreover have "request (cfg (fst w')) = request (cfg ctx)" using i(6) by (simp add: carried_def)
  ultimately have "limit_for (cfg (fst w')) (sync_limit (cfg ctx))" using limit_for_request by metis
  then have "any_ready (SyncSt s) w'" using i(1,5) by simp
  moreover have "any_moved (SyncSt s) w' = 0" using f i(3) by (simp add: fresh_plain_def)
  moreover have "loop_left (SyncSt s) w' \<le> fuel k" using same_ioD(1) [OF i(2)] by (simp add: loop_left_def fuel_def)
  moreover have "moves [] k (any_eff (SyncSt s) w')" using moves_same_io [OF i(2)] by simp
  ultimately show ?thesis unfolding started_def w snd_conv using i(6) by blast
qed

lemma started_async:
  assumes "copy_request (ctx, k)" "driver_ok async_io_driver (ctx, k)" "async_driver_init (ctx, k) = InitOk p w'"
  shows "started H (ctx, k) (AsyncSt p) w'"
proof -
  have q: "w_bytes (stats ctx) = 0" "0 < bsize ctx" "0 \<le> max_bytes (cfg ctx)" "max_bytes (cfg ctx) \<le> bsize ctx"
    "sparse_ok (cfg ctx) k" "read_clean (iread_fnc ctx) k" "oc ctx = 0"
    using assms(1,2) by (auto simp: copy_request_def fresh_plain_def driver_ok_def)
  note r = async_init_ready [OF assms(3) q(1-6)]
  have c: "digest (fst w') = digest ctx" "oc (fst w') = oc ctx" "final_op_was_seek (fst w') = final_op_was_seek ctx"
    using assms(3) by (auto simp: async_driver_init_def dd_alloc_obuf_def digest_def Let_def split: option.splits prod.splits if_splits)
  have io: "same_io k (snd w')" using r by simp
  have ef: "async_eff p (snd w') = snd w'" using r by (simp add: async_eff_def)
  have "carried H [] (ctx, k) (fst w', snd w')"
    by (rule carried_Nil) (use c r same_ioD [OF io] in simp_all)
  then show ?thesis
    using r c q(7) moves_same_io [OF io] same_ioD(1) [OF io] by (simp add: started_def ef loop_left_def async_left_def fuel_def)
qed

lemma zero_copy_takeover:
  assumes "copy_request (ctx, k)" "\<not> zero_copy_refuses ctx" "\<not> conv (cfg ctx) (C_BLAKE3 OR C_BLKS)" "\<not> conv (cfg ctx) C_AUTOTUNE"
  shows "takeover (ctx, k)"
  using assms by (auto simp: copy_request_def fresh_plain_def takeover_def zero_copy_refuses_def conv_def any_set_or_right)

lemma started_reflink:
  assumes "copy_request (ctx, k)" "driver_ok reflink_io_driver (ctx, k)" "reflink_driver_init (ctx, k) = Some d"
  shows "started H (ctx, k) (ReflinkSt d) (ctx, k)"
proof -
  have "takeover (ctx, k)"
    by (rule zero_copy_takeover [OF assms(1)]) (use assms(2,3) in \<open>auto simp: driver_ok_def reflink_driver_init_def split: if_splits\<close>)
  moreover have "limit_for (cfg ctx) (rl_total_byte_limit d)"
    using assms(1,3) by (auto simp: reflink_driver_init_def copy_request_def fresh_plain_def limit_for_zero_copy split: if_splits)
  moreover have "reflink_ready d (ctx, k)"
    using assms by (auto simp: driver_ok_def reflink_driver_init_def reflink_ready_def copy_request_def fresh_plain_def split: if_splits)
  moreover have "carried H [] (ctx, k) (ctx, k)" by (rule carried_Nil) simp_all
  ultimately show ?thesis
    using assms(1) by (simp add: started_def loop_left_def reflink_left_def fuel_def copy_request_def fresh_plain_def)
qed

lemma started_splice:
  assumes "copy_request (ctx, k)" "driver_ok splice_io_driver (ctx, k)" "splice_driver_init (ctx, k) = Some d"
  shows "started H (ctx, k) (SpliceSt d) (ctx, k)"
proof -
  have nz: "\<not> zero_copy_refuses ctx" using assms(3) by (auto simp: splice_driver_init_def Let_def split: if_splits)
  have "takeover (ctx, k)"
    by (rule zero_copy_takeover [OF assms(1) nz]) (use assms(2) in \<open>simp_all add: driver_ok_def\<close>)
  moreover have pos: "off_of (poff_in d) (in_off k) = in_off k" "off_of (poff_out d) (out_off k) = out_off k"
    using assms(3) by (auto simp: splice_driver_init_def poff_in_def poff_out_def sys_lseek_def Let_def split: if_splits)
  moreover have eff: "splice_eff d (ctx, k) = k" using pos by (cases k) (simp add: splice_eff_def effk_def)
  moreover have "limit_for (cfg ctx) (sp_total_byte_limit d)"
  proof -
    have "sp_total_byte_limit d = zero_copy_limit (cfg ctx)"
      using assms(3) by (auto simp: splice_driver_init_def Let_def split: if_splits)
    then show ?thesis using assms(1) by (simp add: copy_request_def fresh_plain_def limit_for_zero_copy)
  qed
  moreover have "splice_ready d (ctx, k)"
  proof -
    have "0 < bsize ctx" "w_bytes (stats ctx) = 0" "0 \<le> max_bytes (cfg ctx)" "max_bytes (cfg ctx) \<le> bsize ctx"
      "pipe_capacity (plat k) \<noteq> Some 0" "\<not> any_set (out_fl k) O_APPEND"
      using assms(1,2) by (simp_all add: copy_request_def fresh_plain_def driver_ok_def)
    then show ?thesis
      using assms(3) pos by (auto simp: splice_driver_init_def splice_ready_def Let_def split: if_splits)
  qed
  moreover have "carried H [] (ctx, k) (ctx, k)" by (rule carried_Nil) simp_all
  ultimately show ?thesis
    using assms(1) by (simp add: started_def loop_left_def splice_left_def fuel_def copy_request_def fresh_plain_def)
qed

lemma started_uring:
  assumes "copy_request (ctx, k)" "driver_ok uring_io_driver (ctx, k)" "uring_driver_init (ctx, k) = (Some d, w')"
  shows "started H (ctx, k) (UringSt d) w'"
proof -
  have q: "\<not> 1 < threads (cfg ctx)" "w_bytes (stats ctx) = 0" "0 < bsize ctx" "oc ctx = 0" "\<not> conv (cfg ctx) C_SPARSE" "calm_ring k"
    "\<forall>a \<in> set (rd_ans k). whole_ans 0 a" "\<forall>a \<in> set (wr_ans k). whole_ans (bs_nat ctx) a"
    "any_set (out_fl k) O_APPEND \<longrightarrow> any_set (output_flags (cfg ctx)) O_APPEND"
    using assms(1,2) by (simp_all add: copy_request_def fresh_plain_def driver_ok_def)
  obtain st where st: "d = Ring st" "uring_inv st w'" "fst w' = ctx" "same_io k (snd w')" "uring_kern st (snd w') = snd w'"
      "pend st = []" "held st = []" "reaps (plat (snd w')) = reaps (plat k)"
    by (rule uring_ring_init_ready [OF assms(3) q(1-3,7-9)])
  obtain k' where w': "w' = (ctx, k')" using st(3) by (cases w') simp
  note io = same_ioD [OF st(4)]
  have eff: "ring_eff st k' = k'" using st(5-7) by (cases k') (simp add: ring_eff_def w' put_output_def)
  have "calm_ring k'" using q(6) io(6) st(8) by (simp add: calm_ring_def w')
  then have "any_ready (UringSt d) w'" using st(1,2) q(4,5) by (simp add: w')
  moreover have "carried H [] (ctx, k) (ctx, k')" by (rule carried_Nil) (use io in \<open>simp_all add: w'\<close>)
  moreover have "moves [] k k'" using moves_same_io [OF st(4)] by (simp add: w')
  ultimately show ?thesis
    using st(1,6,8) io(1) q(2) by (simp add: started_def w' eff ring_moved_def ring_left_def loop_left_def fuel_def)
qed

text \<open>A ring that cannot be had says so, and the synchronous driver starts from the same place.\<close>

lemma uring_init_fails:
  assumes "uring_driver_init (ctx, k) = (None, w')" "\<not> 1 < threads (cfg ctx)"
  shows "quiet_step (ctx, k) w' \<and> fuel (snd w') = fuel k"
proof -
  obtain e k1 where e: "next_err k = (e, k1)" by fastforce
  have io: "same_io k k1" by (rule next_err_frame [OF e])
  have p: "cfr_ans (plat k1) = cfr_ans (plat k)" "spl_in_ans (plat k1) = spl_in_ans (plat k)" "reaps (plat k1) = reaps (plat k)"
    using e by (auto simp: next_err_def split: list.splits)
  have d: "quiet_step (ctx, k) (dd_diagnose i m (ctx, k1)) \<and> plat (snd (dd_diagnose i m (ctx, k1))) = plat k1" for i m
  proof
    have "quiet_step (ctx, k) (ctx, k1)" using io by (simp add: quiet_step_def)
    from quiet_step_trans [OF this quiet_dd_diagnose] show "quiet_step (ctx, k) (dd_diagnose i m (ctx, k1))" .
  qed (simp add: dd_diagnose_def clear_progress_def emit_def)
  have "\<exists>i m. w' = dd_diagnose i m (ctx, k1)"
    using assms by (auto simp: uring_driver_init_def Let_def uring_ring_init_def e split: if_splits prod.splits)
  then obtain i m where w': "w' = dd_diagnose i m (ctx, k1)" by blast
  have "avail (snd w') = avail k" using d [of i m] by (simp add: w' quiet_step_def same_ioD)
  then show ?thesis using d [of i m] p by (simp add: w' fuel_def)
qed

lemma quiet_copy_request:
  assumes "quiet_step w w'" "copy_request w"
  shows "copy_request w'"
proof -
  obtain ctx k ctx' k' where w: "w = (ctx, k)" "w' = (ctx', k')" by fastforce
  have q: "same_data ctx ctx'" "same_io k k'" using assms(1) by (simp_all add: quiet_step_def w)
  note s = same_dataD [OF q(1)] and io = same_ioD [OF q(2)]
  have "view k' = view k" "beyond k' = beyond k" "solid k' = solid k" using io by (simp_all add: view_def beyond_def solid_def)
  moreover from this have "hole_ok (ctx', k') = hole_ok (ctx, k)" using s by (simp add: hole_ok_def)
  ultimately show ?thesis
    using assms(2) s io by (simp add: w copy_request_def fresh_plain_def sparse_ok_def)
qed

lemma quiet_started:
  assumes "hash_stream H" "quiet_step w w1" "fuel (snd w1) = fuel (snd w)" "started H w1 d w'"
  shows "started H w d w'"
proof -
  obtain ctx k c1 k1 where w: "w = (ctx, k)" "w1 = (c1, k1)" by fastforce
  have q: "same_data ctx c1" "same_io k k1" using assms(2) by (simp_all add: quiet_step_def w)
  have c: "carried H [] (ctx, k) (c1, k1)"
    by (rule carried_Nil) (use same_dataD [OF q(1)] same_ioD [OF q(2)] in \<open>simp_all add: digest_def\<close>)
  show ?thesis
    using assms(3,4) moves_trans [OF moves_same_io [OF q(2)]] carried_trans [OF assms(1) c]
    by (fastforce simp: started_def w)
qed

lemma init_driver_ok:
  assumes "copy_request w" "driver_ok (dd_select_io_driver w) w" and H: "hash_stream H"
  shows "case init_driver w of Ret d w' \<Rightarrow> started H w d w' | Exits e w' \<Rightarrow> e = EXIT_FAILURE | _ \<Rightarrow> False"
proof -
  obtain ctx k where w: "w = (ctx, k)" by fastforce
  obtain s w1 where i: "sync_driver_init w = (s, w1)" by (cases "sync_driver_init w")
  note sy = started_sync [OF assms(1) i, of H]
  show ?thesis
  proof (cases "dd_select_io_driver w")
    case sync_io_driver
    then show ?thesis using sy i by (simp add: init_driver_def driver_init_def)
  next
    case async_io_driver
    have "\<exists>p w'. async_driver_init w = InitOk p w' \<or> async_driver_init w = InitDies w'"
      using assms(2) async_io_driver
      by (auto simp: w driver_ok_def async_driver_init_def next_err_def Let_def split: option.splits)
    then show ?thesis
      using async_io_driver assms started_async [of ctx k _ _ H] by (auto simp: w init_driver_def driver_init_def)
  next
    case reflink_io_driver
    then show ?thesis
      using sy i assms started_reflink [of ctx k _ H]
      by (cases "reflink_driver_init w") (auto simp: w init_driver_def driver_init_def)
  next
    case splice_io_driver
    then show ?thesis
      using sy i assms started_splice [of ctx k _ H]
      by (cases "splice_driver_init w") (auto simp: w init_driver_def driver_init_def)
  next
    case uring_io_driver
    then have ok: "driver_ok uring_io_driver (ctx, k)" "\<not> 1 < threads (cfg ctx)" using assms(2) by (simp_all add: w driver_ok_def)
    obtain d w' where u: "uring_driver_init (ctx, k) = (d, w')" by (cases "uring_driver_init (ctx, k)")
    show ?thesis
    proof (cases d)
      case None
      note f = uring_init_fails [OF u [unfolded None] ok(2)]
      obtain s2 w2 where i2: "sync_driver_init w' = (s2, w2)" by (cases "sync_driver_init w'")
      have st: "started H w' (SyncSt s2) w2"
        by (rule started_sync [OF quiet_copy_request i2]) (use f assms(1) in \<open>simp_all add: w\<close>)
      have "started H w (SyncSt s2) w2" using quiet_started [OF H _ _ st] f by (simp add: w)
      then show ?thesis using uring_io_driver u None i2 by (simp add: w init_driver_def driver_init_def)
    next
      case (Some st)
      then show ?thesis
        using uring_io_driver started_uring [OF assms(1) [unfolded w] ok(1) u [unfolded Some], of H] u
        by (simp add: w init_driver_def driver_init_def)
    qed
  qed
qed

lemma any_finish_defined:
  assumes "ends_ok d w"
  shows "dd_finish H status d w \<noteq> Undefd \<and> dd_finish H status d w \<noteq> NoFuel"
proof -
  obtain ctx k where w: "w = (ctx, k)" by fastforce
  show ?thesis
  proof (cases d)
    case (SyncSt s)
    then have "\<exists>r w'. sync_driver_flush H s w = Some (r, w')"
      using assms by (auto simp: w sync_driver_flush_def Let_def split: prod.splits)
    then show ?thesis using SyncSt by (auto simp: dd_finish_def driver_flush_def driver_cleanup_def split: prod.splits)
  next
    case (AsyncSt p)
    then obtain wb where p: "async_inv (cfg ctx) (iread_fnc ctx) wb p k" "oc ctx = 0" using assms by (auto simp: w)
    from async_cleanup_inv [OF p(1)] obtain p' w' where "async_driver_cleanup p (ctx, k) = Some (p', w')" by blast
    then show ?thesis using AsyncSt p(2)
      by (auto simp: w dd_finish_def driver_flush_def driver_cleanup_def async_driver_flush_def split: prod.splits)
  next
    case (UringSt u)
    then show ?thesis by (cases u) (auto simp: dd_finish_def driver_flush_def driver_cleanup_def split: prod.splits)
  qed (auto simp: dd_finish_def driver_flush_def driver_cleanup_def split: prod.splits)
qed

text \<open>Flushing the ring carries out the write in flight; a read that comes first is dropped.\<close>

lemma uring_read_frame:
  "uring_read st k = (r, k') \<Longrightarrow> wr_ans k' = wr_ans k \<and> out_data k' = out_data k \<and> out_off k' = out_off k \<and> out_fl k' = out_fl k"
  by (auto simp: uring_read_def pread_def sys_read0_def take_input_def split: if_splits list.splits ans.splits)

lemma out_data_put_output:
  "out_data k' = out_data k \<Longrightarrow> out_off k' = out_off k \<Longrightarrow> out_fl k' = out_fl k \<Longrightarrow>
     out_data (put_output bs k') = out_data (put_output bs k)"
  by (simp add: put_output_def out_pos_def)

definition flushable :: "uring_ring \<Rightarrow> 'h st \<Rightarrow> bool" where
  "flushable st w \<longleftrightarrow> (write_in_flight st \<longrightarrow> write_req st \<noteq> [] \<and> length (write_req st) \<le> bs_nat (fst w)) \<and>
     (ur_out_seekable st \<longrightarrow> \<not> any_set (out_fl (snd w)) O_APPEND) \<and> calm_ring (snd w) \<and>
     (\<forall>a \<in> set (wr_ans (snd w)). whole_ans (bs_nat (fst w)) a)"

definition flushed :: "uring_ring \<Rightarrow> 'h st \<Rightarrow> 'h st \<Rightarrow> bool" where
  "flushed st w w' \<longleftrightarrow> (\<exists>s. fst w' = (fst w)\<lparr>stats := s\<rparr> \<and> w_bytes s = w_bytes (stats (fst w)) + int (length (pend st)) \<and>
       r_partial s = r_partial (stats (fst w)) \<and> r_full s = r_full (stats (fst w))) \<and>
     out_data (snd w') = out_data (put_output (pend st) (uring_kern st (snd w)))"

lemma uring_flush_flushed: "flushable st w \<Longrightarrow> uring_flush st w = (st', w') \<Longrightarrow> flushed st w w'"
proof (induction st w arbitrary: st' w' rule: uring_flush.induct)
  case (1 st w)
  obtain ctx k where w: "w = (ctx, k)" by fastforce
  have self: "\<exists>s. ctx = ctx\<lparr>stats := s\<rparr> \<and> w_bytes s = w_bytes (stats ctx) \<and> r_partial s = r_partial (stats ctx) \<and> r_full s = r_full (stats ctx)"
    by (rule exI [of _ "stats ctx"]) simp
  show ?case
  proof (cases "write_in_flight st")
    case False
    then have "w' = w" using "1.prems"(2) by (simp add: uring_flush.simps)
    then show ?thesis using False self by (simp add: flushed_def w pend_def put_output_def uring_kern_def)
  next
    case wf: True
    then have nwf: "\<not> \<not> write_in_flight st" by simp
    obtain c k1 where r: "next_reap k = (c, k1)" by fastforce
    note p = next_reap_plat [OF r]
    note io = same_ioD [OF conjunct1 [OF p]]
    have cc: "wait_errno c = 0 \<or> wait_errno c = EINTR"
      using "1.prems"(1) r by (auto simp: flushable_def calm_ring_def w next_reap_def split: list.splits)
    have "set (tl (reaps (plat k))) \<subseteq> set (reaps (plat k))" by (cases "reaps (plat k)") auto
    then have "calm_ring k1" using "1.prems"(1) io(6) p by (auto simp: flushable_def w calm_ring_def)
    then have f1: "flushable st (ctx, k1)" using "1.prems"(1) io by (simp add: flushable_def w)
    have look: "flushed st w u" if "flushed st (ctx, k1) u" for u
    proof -
      have "out_data (put_output (pend st) (uring_kern st k1)) = out_data (put_output (pend st) (uring_kern st k))"
        by (rule out_data_put_output) (use io in \<open>simp_all add: uring_kern_def\<close>)
      then show ?thesis using that by (simp add: flushed_def w)
    qed
    note def = "1.prems"(2) [unfolded w uring_flush.simps [of st "(ctx, k)"] if_not_P [OF nwf] prod.case r]
    show ?thesis
    proof (cases "wait_errno c = EINTR")
      case True
      then have "uring_flush st (ctx, k1) = (st', w')" using def by simp
      from "1.IH"(1) [OF nwf w [symmetric] r [symmetric] True f1 this] show ?thesis by (rule look)
    next
      case ne: False
      then have c0: "wait_errno c = 0" using cc by simp
      show ?thesis
      proof (cases "c = ReapRead \<and> read_in_flight st")
        case True
        let ?st = "st\<lparr>read_in_flight := False\<rparr>"
        obtain q k2 where rd: "uring_read st k1 = (q, k2)" by fastforce
        note rf = uring_read_frame [OF rd]
        have pl: "plat k2 = plat k1" by (rule uring_read_plat [OF rd])
        have fl: "uring_flush ?st (ctx, snd (uring_read st k1)) = (st', w')" using def ne c0 True by simp
        have f2: "flushable ?st (ctx, snd (uring_read st k1))"
          using f1 rf pl by (simp add: flushable_def calm_ring_def write_req_def rd)
        have "flushed ?st (ctx, snd (uring_read st k1)) w'"
          by (rule "1.IH"(2) [OF nwf w [symmetric] r [symmetric] ne _ True f2 fl]) (simp add: c0)
        moreover have "pend ?st = pend st" by (simp add: pend_def write_req_def)
        moreover have "out_data (put_output (pend st) (uring_kern ?st k2)) = out_data (put_output (pend st) (uring_kern st k1))"
          by (rule out_data_put_output) (use rf in \<open>simp_all add: uring_kern_def\<close>)
        ultimately have "flushed st (ctx, k1) w'" by (simp add: flushed_def rd)
        then show ?thesis by (rule look)
      next
        case False
        obtain a k2 where wr: "uring_write st k1 = (a, k2)" by fastforce
        have pd: "pend st = write_req st" "write_req st \<noteq> []" using wf f1 by (simp_all add: pend_def flushable_def)
        have pr: "ur_out_seekable st \<longrightarrow> \<not> any_set (out_fl k1) O_APPEND" "\<forall>a \<in> set (wr_ans k1). whole_ans (bs_nat ctx) a"
            "length (write_req st) \<le> bs_nat ctx"
          using f1 wf by (simp_all add: flushable_def)
        have "flushed st (ctx, k1) w'"
          using wr pr
        proof (cases rule: uring_write_cases)
          case data
          have "w' = snd (snd (uring_write_done st (ctx, k1)))"
            using def ne c0 False wr data(1) pd(2) by (auto split: prod.splits)
          then obtain t where w': "w' = (ctx\<lparr>stats := t\<rparr>, k2)" "w_bytes t = w_bytes (stats ctx) + int (length (write_req st))"
              "r_partial t = r_partial (stats ctx)" "r_full t = r_full (stats ctx)"
            by (auto simp: uring_write_done_def wr data(1))
          then show ?thesis using data(8) pd(1) by (auto simp: flushed_def)
        next
          case (error e)
          then show ?thesis using f1 by (auto simp: flushable_def calm_ring_def)
        qed
        then show ?thesis by (rule look)
      qed
    qed
  qed
qed

text \<open>What flush and cleanup leave: everything moved has been written and counted.\<close>

definition finished :: "driver_state \<Rightarrow> 'h st \<Rightarrow> 'h st \<Rightarrow> bool" where
  "finished d w w' \<longleftrightarrow> digest (fst w') = digest (fst w) \<and> cfg (fst w') = cfg (fst w) \<and>
     final_op_was_seek (fst w') = final_op_was_seek (fst w) \<and> w_bytes (stats (fst w')) = any_moved d w \<and>
     w_bytes (stats (fst w)) \<le> any_moved d w \<and>
     r_partial (stats (fst w')) = r_partial (stats (fst w)) \<and> r_full (stats (fst w')) = r_full (stats (fst w)) \<and>
     out_data (snd w') = out_data (any_eff d w) \<and>
     (conv (cfg (fst w)) C_SPARSE \<longrightarrow>
        out_data (snd w') = out_data (snd w) \<and> out_off (snd w') = out_off (snd w) \<and> out_fl (snd w') = out_fl (snd w))"

lemma finished_frame:
  assumes "reader_frame w w'" "out_data (any_eff d w) = out_data (snd w)" "any_moved d w = w_bytes (stats (fst w))"
  shows "finished d w w'"
  using assms by (simp add: finished_def reader_frame_def)

lemma any_finish:
  assumes "any_ready d w"
  obtains d1 w1 w2 where "driver_flush H d w = Some (d1, w1)" "driver_cleanup d1 w1 = Some w2" "finished d w w2"
proof (cases d)
  case (SyncSt s)
  obtain ctx k where "w = (ctx, k)" by fastforce
  then show thesis using that [of d w w] assms SyncSt
    by (simp add: driver_flush_def driver_cleanup_def sync_driver_flush_def sync_ready_def finished_def)
next
  case (AsyncSt p)
  then have "async_ready p w" "oc (fst w) = 0" using assms by simp_all
  from async_cleanup_ok [OF this(1)] obtain p' w' where c: "async_driver_cleanup p w = Some (p', w')" "reader_frame w w'" by blast
  have "finished d w w'" by (rule finished_frame [OF c(2)]) (simp_all add: AsyncSt async_eff_def)
  then show thesis using AsyncSt \<open>oc (fst w) = 0\<close> c(1)
    by (intro that [of d w w']) (cases w; simp add: driver_flush_def driver_cleanup_def async_driver_flush_def)+
next
  case (ReflinkSt s)
  then show thesis using that [of d w w] by (simp add: driver_flush_def driver_cleanup_def finished_def)
next
  case (SpliceSt s)
  then show thesis using that [of d w w] by (simp add: driver_flush_def driver_cleanup_def finished_def splice_eff_def effk_def)
next
  case (UringSt u)
  obtain st where u: "u = Ring st" using assms UringSt by (cases u) simp_all
  obtain ctx k where w: "w = (ctx, k)" by fastforce
  have i: "uring_inv st (ctx, k)" and cr: "calm_ring k" "\<not> conv (cfg ctx) C_SPARSE" using assms by (simp_all add: UringSt u w)
  obtain st' w1 where fl: "uring_flush st w = (st', w1)" by (cases "uring_flush st w")
  have "flushable st w"
    using i cr length_pend [OF i] uring_invD(7,8,11) [OF i] by (auto simp: flushable_def w pend_def)
  from uring_flush_flushed [OF this fl] have f: "flushed st w w1" .
  then have "finished d w w1"
    using cr(2) by (auto simp: finished_def flushed_def w UringSt u ring_moved_def ring_eff_props digest_upd)
  then show thesis
    using that [of "UringSt (Ring st')" w1 w1] fl by (simp add: driver_flush_def driver_cleanup_def UringSt u uring_driver_cleanup_def)
qed

lemma any_ready_sparse: "any_ready d w \<Longrightarrow> sparse_ok (cfg (fst w)) (snd w)"
  by (cases d) (auto simp: sync_ready_def async_ready_def takeover_def sparse_ok_def conv_def any_set_or_right)

text \<open>What the digest is to be: nothing was asked for, or the digest of \<open>bs\<close> by the algorithm asked for.\<close>

definition digest_of :: "'h hash_api \<Rightarrow> dd_config \<Rightarrow> byte list \<Rightarrow> 'h dd_context \<Rightarrow> bool" where
  "digest_of H c bs ctx \<longleftrightarrow>
     (if conv c C_SHA256 then (\<forall>h. EVP_new H = Some h \<longrightarrow> sha_computed ctx \<and> sha_digest ctx = EVP_final H (EVP_update H h bs))
      else if conv c C_BLAKE3 then sha_computed ctx \<and> sha_digest ctx = blake3_finalize H (blake3_update H (blake3_init H) bs)
      else if conv c C_BLKS then (\<forall>h. blks_new H = Some h \<longrightarrow> sha_computed ctx \<and> sha_digest ctx = blks_finalize H (blks_update H h bs))
      else True)"

lemma hash_begin_frame:
  "cfg (hash_begin H ctx) = cfg ctx" "stats (hash_begin H ctx) = stats ctx" "oc (hash_begin H ctx) = oc ctx"
  "ibuf (hash_begin H ctx) = ibuf ctx" "obuf (hash_begin H ctx) = obuf ctx" "iread_fnc (hash_begin H ctx) = iread_fnc ctx"
  "final_op_was_seek (hash_begin H ctx) = final_op_was_seek ctx"
  by (simp_all add: hash_begin_def)

lemma hash_end_digest:
  assumes "hash_stream H" "digest c' = digest (hash_feed H bs (hash_begin H ctx))"
    "conversions_mask (cfg c') = conversions_mask (cfg ctx)"
  shows "digest_of H (cfg ctx) bs (hash_end H c')"
  using assms
  by (cases "bs = []") (auto simp: digest_of_def hash_end_def hash_begin_def hash_feed_def digest_def conv_def hash_stream_def)

lemma hash_end_stats: "stats (hash_end H ctx) = stats ctx" "cfg (hash_end H ctx) = cfg ctx"
  by (simp_all add: hash_end_def split: option.split)

definition copied :: "'h hash_api \<Rightarrow> dd_config \<Rightarrow> kern \<Rightarrow> 'h st \<Rightarrow> bool" where
  "copied H c k w \<longleftrightarrow> (\<exists>bs rest. avail k = bs @ rest \<and> (rest = [] \<or> enough c (stats (fst w))) \<and> delivered bs k (snd w) \<and>
     request (cfg (fst w)) = request c \<and> w_bytes (stats (fst w)) = int (length bs) \<and> digest_of H c bs (fst w))"

lemma dd_finish_ok:
  assumes H: "hash_stream H" and st: "started H (hash_begin H ctx, k) d w" and dn: "loop_done H d w d' w'"
    and hole: "hole_ok (hash_begin H ctx, k)"
  shows "\<exists>w2. dd_finish H EXIT_SUCCESS d' w' = Ret EXIT_SUCCESS w2 \<and> copied H (cfg ctx) k w2"
proof -
  obtain bs where bs: "moves bs (any_eff d w) (any_eff d' w')" "carried H bs w w'" "any_ready d' w'"
      "any_moved d' w' = int (length bs)"
    using dn st unfolding loop_done_def started_def by auto
  have m: "moves bs k (any_eff d' w')" using moves_trans [OF _ bs(1), of "[]" k] st by (simp add: started_def)
  have c: "carried H bs (hash_begin H ctx, k) w'"
    using carried_trans [OF H _ bs(2), of "[]"] st by (simp add: started_def)
  obtain d1 w0 w1 where f: "driver_flush H d' w' = Some (d1, w0)" "driver_cleanup d1 w0 = Some w1" "finished d' w' w1"
    using any_finish [OF bs(3)] .
  obtain c1 k1 where w1: "w1 = (c1, k1)" by fastforce
  have ho: "hole_ok (c1, k1)" "sparse_ok (cfg c1) k1"
    using c hole any_ready_sparse [OF bs(3)] f(3)
    by (auto simp: carried_def hole_ok_def finished_def w1 view_def out_pos_def solid_def sparse_ok_def beyond_def)
  obtain c2 k2 where s: "finish_sparse (c1, k1) = (c2, k2)" by fastforce
  note fs = finish_sparse_content [OF ho s]
  have od: "out_data (any_eff d' w') = out_data k1" using f(3) by (simp add: finished_def w1)
  have "delivered bs k k1" by (rule moves_delivered [OF m od])
  have del: "delivered bs k k2"
  proof (cases "final_op_was_seek c1")
    case False
    then have "k2 = k1" using s by (simp add: finish_sparse_def)
    with \<open>delivered bs k k1\<close> show ?thesis by simp
  next
    case True
    then have sp: "conv (cfg (fst w')) C_SPARSE" using ho f(3) by (simp add: hole_ok_def finished_def w1)
    then have op: "out_pos k1 = out_pos (snd w')" using f(3) by (auto simp: finished_def w1 out_pos_def)
    have "any_eff d' w' = snd w' \<or> (\<exists>p. any_eff d' w' = async_eff p (snd w'))"
      using bs(3) sp by (cases d') (auto simp: takeover_def conv_def any_set_or_right)
    then have "out_pos (any_eff d' w') = out_pos (snd w')" by (auto simp: async_eff_def out_pos_def)
    then have "out_pos k1 = out_pos k + length bs"
      using arg_cong [OF movesD(2) [OF m], of length] op by simp
    then show ?thesis
      using \<open>delivered bs k k1\<close> fs by (simp add: delivered_def view_content beyond_def)
  qed
  have "digest c2 = digest (hash_feed H bs (hash_begin H ctx))" "conversions_mask (cfg c2) = conversions_mask (cfg ctx)"
    using c fs f(3) by (simp_all add: carried_def finished_def w1 hash_begin_frame request_def)
  then have "digest_of H (cfg ctx) bs (hash_end H c2)" by (rule hash_end_digest [OF H])
  moreover have "w_bytes (stats (hash_end H c2)) = int (length bs)"
    using bs(4) fs f(3) by (simp add: hash_end_stats finished_def w1)
  moreover have rq: "request (cfg (fst w')) = request (cfg ctx)" using c by (simp add: carried_def hash_begin_frame)
  moreover have "request (cfg (hash_end H c2)) = request (cfg ctx)"
    using rq fs f(3) by (simp add: hash_end_stats finished_def w1)
  moreover have "avail (any_eff d' w') = [] \<or> enough (cfg ctx) (stats (hash_end H c2))"
  proof -
    from rq have "enough (cfg (fst w')) (stats (fst w')) \<longrightarrow> enough (cfg ctx) (stats (hash_end H c2))"
      using fs f(3) enough_request [OF rq] by (auto simp: enough_def hash_end_stats finished_def w1)
    moreover have "any_stop d' w' \<or> limit_reached (fst w')" using dn by (simp add: loop_done_def)
    ultimately show ?thesis using any_stop_enough [OF bs(3)] by blast
  qed
  ultimately have "copied H (cfg ctx) k (hash_end H c2, k2)"
    unfolding copied_def fst_conv snd_conv using del movesD(1) [OF m] by (intro exI conjI)
  moreover have "dd_finish H EXIT_SUCCESS d' w' = Ret EXIT_SUCCESS (hash_end H c2, k2)"
    by (simp add: dd_finish_def f(1,2) w1 s)
  ultimately show ?thesis by blast
qed

lemma dd_copy_ok:
  assumes "hash_stream H" "skip_input w0 = Some w" "seek_output H w = Some (EXIT_SUCCESS, ctx, k)"
    and "copy_request (ctx, k)" "driver_ok (dd_select_io_driver (hash_begin H ctx, k)) (ctx, k)" "fuel k < n"
  shows "case dd_copy n H w0 of
           Ret status w' \<Rightarrow> status = EXIT_SUCCESS \<longrightarrow> copied H (cfg ctx) k w'
         | Exits e w' \<Rightarrow> True | Killed s w' \<Rightarrow> True | Undefd \<Rightarrow> False | NoFuel \<Rightarrow> False"
proof -
  let ?w = "(hash_begin H ctx, k)"
  have rq: "copy_request ?w" "driver_ok (dd_select_io_driver ?w) ?w" "hole_ok ?w"
    using assms(4,5) by (auto simp: copy_request_def fresh_plain_def hole_ok_def driver_ok_def hash_begin_frame split: driver.splits)
  have nz: "\<not> (max_records (cfg ctx) = 0 \<and> max_bytes (cfg ctx) = 0)" using assms(4) by (simp add: copy_request_def)
  note i = init_driver_ok [OF rq(1,2) assms(1)]
  have cp: "dd_copy n H w0 = run_bind (init_driver ?w) (\<lambda>d w. run_bind (copy_loop n H d w) (\<lambda>(status, d) w. dd_finish H status d w))"
    unfolding dd_copy_def assms(2,3) option.case prod.case if_not_P [OF nz] by simp
  show ?thesis
  proof (cases "init_driver ?w")
    case (Ret d w1)
    then have st: "started H ?w d w1" using i by simp
    then have "loop_ok H d w1 (copy_loop n H d w1)"
      by (intro copy_loop_ok [OF assms(1)]) (use assms(6) in \<open>auto simp: started_def\<close>)
    then show ?thesis
    proof (cases "copy_loop n H d w1")
      case (Ret a w2)
      obtain status d' where a: "a = (status, d')" by fastforce
      have out: "dd_copy n H w0 = dd_finish H status d' w2" by (simp add: cp \<open>init_driver ?w = Ret d w1\<close> Ret a)
      show ?thesis
      proof (cases "status = EXIT_SUCCESS")
        case True
        then have "loop_done H d w1 d' w2" using \<open>loop_ok H d w1 (copy_loop n H d w1)\<close> Ret a by simp
        from dd_finish_ok [OF assms(1) st this rq(3)] show ?thesis using True out by auto
      next
        case False
        have "ends_ok d' w2" using \<open>loop_ok H d w1 (copy_loop n H d w1)\<close> Ret a by simp
        from any_finish_defined [OF this, of H status] show ?thesis
          using False unfolding out by (auto simp: dd_finish_def split: option.splits prod.splits)
      qed
    qed (simp_all add: cp \<open>init_driver ?w = Ret d w1\<close>)
  qed (use i in \<open>simp_all add: cp\<close>)
qed

section \<open>Properties\<close>



end
