(* ===== verification/DryRun.thy ===== *)
theory DryRun
  imports DriverSelect TargetSafety
begin

text \<open>
  The dry run of \<open>src/src/io_engine.c\<close>, \<open>dd_execute_dry_run\<close>: it looks at the two paths with \<open>stat\<close>, evaluates
  the safety guard, predicts the engine, and prints the plan as JSON or as text. The C locale is taken, in
  which \<open>gettext\<close> is the identity.
\<close>

section \<open>printf\<close>

text \<open>The conversions used: \<open>%zu\<close> of a \<open>size_t\<close> and \<open>%jd\<close>.\<close>

function digits :: "nat \<Rightarrow> string" where
  "digits n = (if n < 10 then [''0123456789'' ! n] else digits (n div 10) @ [''0123456789'' ! (n mod 10)])"
  by pat_completeness auto
termination
  by (relation "measure id") auto

declare digits.simps [simp del]

definition fmt_jd :: "int \<Rightarrow> string" where
  "fmt_jd i = (if i < 0 then CHR ''-'' # digits (nat (- i)) else digits (nat i))"

definition fmt_zu :: "int \<Rightarrow> string" where
  "fmt_zu i = digits (nat (i mod 18446744073709551616))"

definition fmt_bool :: "bool \<Rightarrow> string" where
  "fmt_bool b = (if b then ''true'' else ''false'')"

section \<open>Looking at the paths\<close>

record inspected =
  path_shown :: string
  type_name :: string
  size_bytes :: int
  path_exists :: bool

definition file_type_name :: "file_type \<Rightarrow> string" where
  "file_type_name t =
     (case t of
        S_IFREG \<Rightarrow> ''regular_file''
      | S_IFBLK \<Rightarrow> ''block_device''
      | S_IFCHR \<Rightarrow> ''character_device''
      | S_IFIFO \<Rightarrow> ''fifo_pipe''
      | S_IFDIR \<Rightarrow> ''directory''
      | S_IFOTHER \<Rightarrow> ''special_file'')"

text \<open>What \<open>stat\<close> says of a path, and the block-device size, \<open>-1\<close> where it cannot be had.\<close>

definition inspect_file :: "string \<Rightarrow> string \<Rightarrow> bool \<Rightarrow> fd \<Rightarrow> string option \<Rightarrow> kern \<Rightarrow> inspected" where
  "inspect_file shown missing exists0 fd path k =
     (case path of
        None \<Rightarrow> \<lparr>path_shown = shown, type_name = ''stream'', size_bytes = - 1, path_exists = exists0\<rparr>
      | Some f \<Rightarrow>
          (case files (plat k) f of
             None \<Rightarrow> \<lparr>path_shown = f, type_name = missing, size_bytes = - 1, path_exists = False\<rparr>
           | Some x \<Rightarrow>
               \<lparr>path_shown = f, type_name = file_type_name (f_type x),
                size_bytes = (if f_type x = S_IFREG then int (length (f_data x))
                              else if f_type x = S_IFBLK
                              then (case blk_bytes (fd_geom fd k) of None \<Rightarrow> - 1 | Some n \<Rightarrow> n) else - 1),
                path_exists = True\<rparr>))"

definition inspect_input :: "dd_config \<Rightarrow> kern \<Rightarrow> inspected" where
  "inspect_input c k = inspect_file ''<standard input>'' ''not_found'' True STDIN_FILENO (input_file c) k"

definition inspect_output :: "dd_config \<Rightarrow> kern \<Rightarrow> inspected" where
  "inspect_output c k = inspect_file ''<standard output>'' ''new_file'' False STDOUT_FILENO (output_file c) k"

section \<open>The guard and the engine\<close>

text \<open>What the guard reads: \<open>stat\<close> and the two files of \<open>/proc\<close>.\<close>

type_synonym guard_env = "(string \<Rightarrow> stat_t option) \<times> string option \<times> string option"

text \<open>The status, the message and the detail.\<close>

definition dry_guard :: "guard_env \<Rightarrow> dd_config \<Rightarrow> string \<times> string \<times> string" where
  "dry_guard G c =
     (case G of (stat, mounts, swaps) \<Rightarrow>
        let forced = (any_set (output_flags c) O_FORCE \<or> conv c C_FORCE)
        in (case evaluate_target_safety stat mounts swaps 512 (output_file c) of
              TARGET_SAFETY_MOUNTED_SYSTEM detail \<Rightarrow>
                if forced
                then (''overridden'', ''OVERRIDDEN via -f/--force (target contains mounted system partition)'', detail)
                else (''blocked'', ''BLOCKED: would refuse to write (target contains mounted system partition; requires -f)'', detail)
            | TARGET_SAFETY_ACTIVE_SWAP detail \<Rightarrow>
                if forced
                then (''overridden'', ''OVERRIDDEN via -f/--force (target is active system swap device)'', detail)
                else (''blocked'', ''BLOCKED: would refuse to write (target is active system swap device; requires -f)'', detail)
            | TARGET_SAFETY_OK \<Rightarrow> (''ok'', ''OK (no target restrictions violated)'', '''')))"

definition dry_zero_copy :: "'h dd_context \<Rightarrow> bool" where
  "dry_zero_copy ctx \<longleftrightarrow>
     \<not> conv (cfg ctx) (C_SWAB OR C_SYNC OR C_SHA256 OR C_BLAKE3 OR C_SPARSE OR C_AUTOTUNE) \<and>
     \<not> iread_fnc ctx \<and> \<not> i_nocache (cfg ctx) \<and> \<not> o_nocache (cfg ctx) \<and>
     \<not> any_set (input_flags (cfg ctx)) (O_DIRECT OR O_NOCACHE) \<and>
     \<not> any_set (output_flags (cfg ctx)) (O_DIRECT OR O_NOCACHE)"

definition dry_engine :: "'h dd_context \<Rightarrow> string \<Rightarrow> string \<Rightarrow> string \<times> string" where
  "dry_engine ctx i_type o_type =
     (let c = cfg ctx in
      if engine c = ENGINE_URING \<or> conv c C_URING then (''io_uring'', ''Linux io_uring asynchronous execution'')
      else if engine c = ENGINE_REFLINK \<or> conv c C_REFLINK then (''reflink'', ''Linux Kernel zero-copy copy_file_range'')
      else if engine c = ENGINE_SPLICE \<or> conv c C_SPLICE then (''splice'', ''Linux Kernel zero-copy pipe splicing'')
      else if engine c = ENGINE_ASYNC \<or> conv c C_ASYNC \<or> any_set (output_flags c) O_ASYNC_PIPELINE
      then (''async'', ''Multi-threaded ringbuffer pipeline'')
      else if engine c = ENGINE_SYNC then (''sync'', ''Classic synchronous block I/O'')
      else
        let can_reflink = (dry_zero_copy ctx \<and> i_type = ''regular_file'' \<and> (o_type = ''regular_file'' \<or> o_type = ''new_file''));
            can_uring = (\<not> conv c (C_SWAB OR C_AUTOTUNE) \<and> (i_type = ''block_device'' \<or> o_type = ''block_device'' \<or> direct_io c));
            in_pipe = (i_type = ''fifo_pipe'' \<or> input_file c = None);
            out_pipe = (o_type = ''fifo_pipe'' \<or> output_file c = None);
            can_splice = (dry_zero_copy ctx \<and> (in_pipe \<or> out_pipe))
        in if can_reflink then (''reflink'', ''Linux Kernel zero-copy copy_file_range (auto-detected)'')
           else if can_uring then (''io_uring'', ''Linux io_uring asynchronous execution (auto-detected)'')
           else if can_splice then (''splice'', ''Linux Kernel zero-copy pipe splicing (auto-detected)'')
           else (''sync'', ''Classic synchronous block I/O (default)''))"

section \<open>The plan printed\<close>

definition effective_bs :: "dd_config \<Rightarrow> int" where
  "effective_bs c = (if 0 < blocksize c then blocksize c else 512)"

definition plan_json :: "dd_config \<Rightarrow> inspected \<Rightarrow> inspected \<Rightarrow> string \<times> string \<times> string \<Rightarrow> string \<Rightarrow> string" where
  "plan_json c i out g engine_name =
     (case g of (guard_status, guard_msg, guard_detail) \<Rightarrow>
        ''{\"event\":\"dry_run\",\"dry_run\":true,''
        @ ''\"input\":{\"path\":\"'' @ path_shown i @ ''\",\"type\":\"'' @ type_name i @ ''\",\"exists\":'' @ fmt_bool (path_exists i)
        @ '',\"size_bytes\":'' @ fmt_jd (size_bytes i) @ ''},''
        @ ''\"output\":{\"path\":\"'' @ path_shown out @ ''\",\"type\":\"'' @ type_name out @ ''\",\"exists\":'' @ fmt_bool (path_exists out)
        @ '',\"size_bytes\":'' @ fmt_jd (size_bytes out) @ '',''
        @ ''\"safety_guard\":\"'' @ guard_status @ ''\",\"safety_guard_detail\":\"'' @ guard_detail @ ''\"},''
        @ ''\"plan\":{\"engine\":\"'' @ engine_name @ ''\",\"blocksize\":'' @ fmt_zu (effective_bs c)
        @ '',\"autotune\":'' @ fmt_bool (conv c C_AUTOTUNE)
        @ '',\"direct_io\":'' @ fmt_bool (direct_io c) @ '',\"nocache\":'' @ fmt_bool (i_nocache c \<or> o_nocache c)
        @ '',\"sha256\":'' @ fmt_bool (conv c (C_SHA256 OR C_BLAKE3))
        @ '',\"limit_bytes\":'' @ fmt_jd (bytes_to_copy c)
        @ '',\"skip_bytes\":'' @ fmt_zu (skip_records c * effective_bs c + skip_bytes c)
        @ '',\"seek_bytes\":'' @ fmt_zu (seek_records c * effective_bs c + seek_bytes c) @ ''}}'' @ [CHR 0x0A])"

text \<open>One line, as \<open>printf\<close> with a newline writes it.\<close>

definition ln :: "string \<Rightarrow> string" where "ln s = s @ [CHR 0x0A]"

definition path_line :: "string \<Rightarrow> inspected \<Rightarrow> string" where
  "path_line label i =
     ln (label @ path_shown i @ '' ('' @ type_name i @
         (if 0 \<le> size_bytes i then '', '' @ fmt_jd (size_bytes i) @ '' bytes)'' else '')''))"

definition plan_text ::
  "dd_config \<Rightarrow> inspected \<Rightarrow> inspected \<Rightarrow> string \<times> string \<times> string \<Rightarrow> string \<times> string \<Rightarrow> string" where
  "plan_text c i out g e =
     (case (g, e) of ((guard_status, guard_msg, guard_detail), (engine_name, engine_desc)) \<Rightarrow>
        ln ''=== blkcp Dry-Run Execution Plan ===''
        @ path_line ''Input:        '' i
        @ path_line ''Output:       '' out
        @ ln (''Safety Guard: '' @ guard_msg @ (if guard_detail \<noteq> '''' then '' ['' @ guard_detail @ '']'' else ''''))
        @ ln (''Engine:       '' @ engine_name @ '' ('' @ engine_desc @ '')'')
        @ ln (if conv c C_AUTOTUNE then ''Block Size:   dynamic (autotune active)''
              else ''Block Size:   '' @ fmt_zu (effective_bs c) @ '' bytes'')
        @ ln (''Direct I/O:   '' @ (if direct_io c then ''enabled (O_DIRECT)'' else ''disabled''))
        @ ln (''Cache Policy: '' @ (if i_nocache c \<or> o_nocache c then ''nocache (chunked eviction)'' else ''kernel page cache''))
        @ ln (''Checksum:     '' @
              (if conv c C_SHA256 then ''SHA-256 (in-flight)''
               else if conv c C_BLAKE3 then ''BLAKE3 (in-flight)''
               else if conv c C_BLKS then ''BLKS-384 (in-flight, 192-bit quantum safe)'' else ''disabled''))
        @ ln (if 0 \<le> bytes_to_copy c then ''Byte Limit:   '' @ fmt_jd (bytes_to_copy c) @ '' bytes''
              else ''Byte Limit:   unbounded'')
        @ (if 0 < skip_records c \<or> 0 < skip_bytes c
           then ln (''Skip Offset:  '' @ fmt_zu (skip_records c * effective_bs c + skip_bytes c) @ '' bytes'') else '''')
        @ (if 0 < seek_records c \<or> 0 < seek_bytes c
           then ln (''Seek Offset:  '' @ fmt_zu (seek_records c * effective_bs c + seek_bytes c) @ '' bytes'') else '''')
        @ ln ''Note: Dry-run simulation mode (-n / --dry-run) active. No data was transferred or modified.'')"

definition dd_execute_dry_run :: "guard_env \<Rightarrow> 'h st \<Rightarrow> int \<times> 'h st" where
  "dd_execute_dry_run G w =
     (case w of (ctx, k) \<Rightarrow>
        let i = inspect_input (cfg ctx) k;
            out = inspect_output (cfg ctx) k;
            g = dry_guard G (cfg ctx);
            e = dry_engine ctx (type_name i) (type_name out)
        in (EXIT_SUCCESS, ctx,
            emit (Stdout (if is_json (cfg ctx) then plan_json (cfg ctx) i out g (fst e) else plan_text (cfg ctx) i out g e)) k))"

section \<open>Properties\<close>

fun driver_name :: "driver \<Rightarrow> string" where
  "driver_name sync_io_driver = ''sync''"
| "driver_name async_io_driver = ''async''"
| "driver_name reflink_io_driver = ''reflink''"
| "driver_name splice_io_driver = ''splice''"
| "driver_name uring_io_driver = ''io_uring''"

lemma file_type_name_iff:
  "file_type_name t = ''regular_file'' \<longleftrightarrow> t = S_IFREG" "file_type_name t = ''block_device'' \<longleftrightarrow> t = S_IFBLK"
  "file_type_name t = ''fifo_pipe'' \<longleftrightarrow> t = S_IFIFO" "file_type_name t \<noteq> ''new_file''"
  by (cases t; simp add: file_type_name_def)+

text \<open>The type the target will have once it is open.\<close>

definition target_type :: "dd_config \<Rightarrow> kern \<Rightarrow> file_type" where
  "target_type c k = (case Option.bind (output_file c) (files (plat k)) of None \<Rightarrow> S_IFREG | Some x \<Rightarrow> f_type x)"

text \<open>
  C8: the dry run tells the truth about the engine: for two paths, the engine it prints is the driver the
  copy selects once the two files are open, for every request with one thread and no BLKS digest, and for
  every request that names its engine.
\<close>

theorem dry_run_names_the_driver:
  assumes "input_file (cfg ctx) = Some i" "output_file (cfg ctx) = Some f" "files (plat k0) i = Some x"
    and "in_type k = Some (f_type x)" "out_type k = Some (target_type (cfg ctx) k0)"
    and "explicit_driver (cfg ctx) \<noteq> None \<or> threads (cfg ctx) \<le> 1 \<and> \<not> conv (cfg ctx) C_BLKS"
  shows "fst (dry_engine ctx (type_name (inspect_input (cfg ctx) k0)) (type_name (inspect_output (cfg ctx) k0))) =
    driver_name (dd_select_io_driver (ctx, k))"
proof (cases "explicit_driver (cfg ctx)")
  case (Some d)
  then show ?thesis
    by (auto simp: dd_select_io_driver_def dry_engine_def explicit_driver_def split: if_splits)
next
  case None
  have z: "dry_zero_copy ctx = zero_copy_allowed ctx"
    using assms(6) None by (auto simp: dry_zero_copy_def zero_copy_allowed_def conv_def any_set_or_right)
  have i: "type_name (inspect_input (cfg ctx) k0) = file_type_name (f_type x)"
    using assms(1,3) by (simp add: inspect_input_def inspect_file_def)
  show ?thesis
  proof (cases "files (plat k0) f")
    case new: None
    then have "type_name (inspect_output (cfg ctx) k0) = ''new_file''" "out_type k = Some S_IFREG"
      using assms(2,5) by (simp_all add: inspect_output_def inspect_file_def target_type_def)
    then show ?thesis
      using assms(1,2,4,6) None
      by (auto simp: dd_select_io_driver_def dry_engine_def explicit_driver_def z i file_type_name_iff Let_def split: if_splits)
  next
    case (Some y)
    then have "type_name (inspect_output (cfg ctx) k0) = file_type_name (f_type y)" "out_type k = Some (f_type y)"
      using assms(2,5) by (simp_all add: inspect_output_def inspect_file_def target_type_def)
    then show ?thesis
      using assms(1,2,4,6) None
      by (auto simp: dd_select_io_driver_def dry_engine_def explicit_driver_def z i file_type_name_iff Let_def split: if_splits)
  qed
qed

definition one_file :: kern where
  "one_file = (file_to_file [1])\<lparr>plat := plat0\<lparr>files := [''a'' \<mapsto> \<lparr>f_data = [1], f_type = S_IFREG, f_seek = True\<rparr>]\<rparr>\<rparr>"

lemma dry_run_names_the_driver_witness:
  "let ctx = ctx0 () 4096 (dd_init_default_config\<lparr>input_file := Some ''a'', output_file := Some ''b''\<rparr>)
   in fst (dry_engine ctx (type_name (inspect_input (cfg ctx) one_file)) (type_name (inspect_output (cfg ctx) one_file))) = ''reflink'' \<and>
      dd_select_io_driver (ctx, one_file) = reflink_io_driver"
proof -
  let ?c = "ctx0 () 4096 (dd_init_default_config\<lparr>input_file := Some ''a'', output_file := Some ''b''\<rparr>)"
  have d: "dd_select_io_driver (?c, one_file) = reflink_io_driver"
    by (simp add: dd_select_io_driver_def explicit_driver_def zero_copy_allowed_def ctx0_def dd_init_default_config_def conv_def
        one_file_def file_to_file_def)
  have "fst (dry_engine ?c (type_name (inspect_input (cfg ?c) one_file)) (type_name (inspect_output (cfg ?c) one_file))) =
      driver_name (dd_select_io_driver (?c, one_file))"
    by (rule dry_run_names_the_driver [where i = "''a''" and f = "''b''" and x = "\<lparr>f_data = [1], f_type = S_IFREG, f_seek = True\<rparr>"])
      (simp_all add: ctx0_def dd_init_default_config_def one_file_def plat0_def file_to_file_def target_type_def conv_def)
  then show ?thesis unfolding Let_def d by simp
qed

text \<open>With several threads, or with the BLKS digest, the dry run and the copy part.\<close>

lemma dry_run_misses_threads:
  "let ctx = ctx0 () 4096 (dd_init_default_config\<lparr>input_file := Some ''a'', output_file := Some ''b'', threads := 4, conversions_mask := C_SHA256\<rparr>)
   in fst (dry_engine ctx ''regular_file'' ''new_file'') = ''sync'' \<and> dd_select_io_driver (ctx, one_file) = uring_io_driver"
  by (simp add: dry_engine_def dry_zero_copy_def dd_select_io_driver_def explicit_driver_def zero_copy_allowed_def ctx0_def
      dd_init_default_config_def conv_def one_file_def file_to_file_def direct_io_def cfg_simps any_set_def)

lemma dry_run_misses_blks:
  "let ctx = ctx0 () 4096 (dd_init_default_config\<lparr>input_file := Some ''a'', output_file := Some ''b'', conversions_mask := C_BLKS\<rparr>)
   in fst (dry_engine ctx ''regular_file'' ''new_file'') = ''reflink'' \<and> dd_select_io_driver (ctx, one_file) = sync_io_driver"
  by (simp add: dry_engine_def dry_zero_copy_def dd_select_io_driver_def explicit_driver_def zero_copy_allowed_def ctx0_def
      dd_init_default_config_def conv_def one_file_def file_to_file_def direct_io_def cfg_simps any_set_def)

end
