(* ===== verification/Execute.thy ===== *)
theory Execute
  imports CopyCorrect DryRun
begin

text \<open>
  The life of a run in \<open>src/src/io_engine.c\<close>, \<open>dd_execute\<close>: the two files are opened, after the safety guard
  has looked at the target; \<open>dd_copy\<close>; cache advice; the output is synchronised, the descriptors are closed,
  and the final report is printed. \<open>fd_reopen\<close>, a library function, is \<open>open\<close> and \<open>dup2\<close> with the meaning
  POSIX gives them; which calls fail, and with what \<open>errno\<close>, is an answer of the platform. The source and the
  target are taken to be different files.
\<close>

section \<open>Calls retried on EINTR\<close>

text \<open>
  \<open>RETRY_ON_EINTR (call)\<close>: signals are looked at before each attempt, which is repeated while it reports
  \<open>EINTR\<close>. The result is the \<open>errno\<close> of the last attempt, 0 if it went through.
\<close>

lemma run_bind_cong [fundef_cong]:
  "m = m' \<Longrightarrow> (\<And>a w. m' = Ret a w \<Longrightarrow> f a w = g a w) \<Longrightarrow> run_bind m f = run_bind m' g"
  by (cases m') simp_all

lemma process_signals_calm: "dd_process_signals w = Ret u w' \<Longrightarrow> calm w w'"
  by (cases rule: process_signals_cases [of w]) auto

lemma calm_err_ans: "calm w w' \<Longrightarrow> err_ans (plat (snd w')) = err_ans (plat (snd w))"
  by (auto simp: calm_def)

lemma next_err_shorter: "next_err k = (e, k') \<Longrightarrow> e \<noteq> 0 \<Longrightarrow> length (err_ans (plat k')) < length (err_ans (plat k))"
  by (auto simp: next_err_def split: list.splits)

function retry_on_eintr :: "'h st \<Rightarrow> (int, 'h) run" where
  "retry_on_eintr w =
     run_bind (dd_process_signals w) (\<lambda>_ w.
       case w of (ctx, k) \<Rightarrow>
         (case next_err k of (e, k) \<Rightarrow> if e = EINTR then retry_on_eintr (ctx, k) else Ret e (ctx, k)))"
  by pat_completeness auto
termination
proof (relation "measure (\<lambda>w. length (err_ans (plat (snd w))))")
  fix w w' :: "'h st" and u ctx k e k'
  assume "dd_process_signals w = Ret u w'" "(ctx, k) = w'" "(e, k') = next_err k" "e = EINTR"
  then show "((ctx, k'), w) \<in> measure (\<lambda>w. length (err_ans (plat (snd w))))"
    using calm_err_ans [OF process_signals_calm, of w u w'] next_err_shorter [of k e k'] by auto
qed simp

declare retry_on_eintr.simps [simp del]

section \<open>Opening\<close>

definition open_as :: "fd \<Rightarrow> disk_file \<Rightarrow> mask \<Rightarrow> kern \<Rightarrow> kern" where
  "open_as fd x fl k =
     (let st = fl AND NOT (O_CREAT OR O_EXCL OR O_TRUNC)
      in (case fd of
            STDIN_FILENO \<Rightarrow>
              k\<lparr>in_data := f_data x, in_off := 0, in_seek := f_seek x, in_type := Some (f_type x), in_fl := st\<rparr>
          | STDOUT_FILENO \<Rightarrow>
              k\<lparr>out_data := f_data x, out_off := 0, out_seek := f_seek x, out_type := Some (f_type x), out_fl := st\<rparr>))"

text \<open>\<open>fd_reopen (fd, f, flags)\<close> where the call itself goes through: 0, or the \<open>errno\<close> of \<open>open\<close>.\<close>

definition sys_open :: "fd \<Rightarrow> string \<Rightarrow> mask \<Rightarrow> kern \<Rightarrow> int \<times> kern" where
  "sys_open fd f fl k =
     (case files (plat k) f of
        None \<Rightarrow>
          if any_set fl O_CREAT then (0, open_as fd \<lparr>f_data = [], f_type = S_IFREG, f_seek = True\<rparr> fl k)
          else (ENOENT, k\<lparr>errno := ENOENT\<rparr>)
      | Some x \<Rightarrow>
          if any_set fl O_CREAT \<and> any_set fl O_EXCL then (EEXIST, k\<lparr>errno := EEXIST\<rparr>)
          else (0, open_as fd (if any_set fl O_TRUNC \<and> f_type x = S_IFREG then x\<lparr>f_data := []\<rparr> else x) fl k))"

definition fd_reopen :: "fd \<Rightarrow> string \<Rightarrow> mask \<Rightarrow> 'h st \<Rightarrow> (int, 'h) run" where
  "fd_reopen fd f fl w =
     run_bind (retry_on_eintr w) (\<lambda>e w.
       case w of (ctx, k) \<Rightarrow>
         if e \<noteq> 0 then Ret e (ctx, k) else (case sys_open fd f fl k of (r, k) \<Rightarrow> Ret r (ctx, k)))"

definition fatal :: "int \<Rightarrow> string \<Rightarrow> 'h st \<Rightarrow> ('a, 'h) run" where
  "fatal e msg w = (case w of (ctx, k) \<Rightarrow> Exits EXIT_FAILURE (ctx, emit (Diagnose e msg) k))"

definition set_fd_flags :: "fd \<Rightarrow> mask \<Rightarrow> 'h st \<Rightarrow> 'h st" where
  "set_fd_flags fd add_flags w =
     (case w of (ctx, k) \<Rightarrow>
        if add_flags = 0 then (ctx, k)
        else (case next_err k of (e, k) \<Rightarrow>
                if e \<noteq> 0 then dd_diagnose e ''failed to turn on flags'' (ctx, k)
                else (case next_err k of (e, k) \<Rightarrow>
                        if e \<noteq> 0 then dd_diagnose e ''failed to turn on flags'' (ctx, k)
                        else (ctx, f_setfl fd (f_getfl fd k OR add_flags) k))))"

definition upd_cfg :: "(dd_config \<Rightarrow> dd_config) \<Rightarrow> 'h dd_context \<Rightarrow> 'h dd_context" where
  "upd_cfg f ctx = ctx\<lparr>cfg := f (cfg ctx)\<rparr>"

text \<open>\<open>warning: ... does not support direct I/O\<close>, unless \<open>--quiet\<close>.\<close>

definition warn_direct :: "'h st \<Rightarrow> 'h st" where
  "warn_direct w =
     (case w of (ctx, k) \<Rightarrow>
        (ctx, if status_level (cfg ctx) \<noteq> STATUS_NONE
              then emit (Diagnose 0 ''warning: no direct I/O; falling back to cache eviction'') k else k))"

definition open_input :: "string \<Rightarrow> 'h st \<Rightarrow> (unit, 'h) run" where
  "open_input f w =
     run_bind (fd_reopen STDIN_FILENO f (O_RDONLY OR input_flags (cfg (fst w))) w) (\<lambda>e w.
       if e = 0 then Ret () w
       else if e = EINVAL \<and> any_set (input_flags (cfg (fst w))) O_DIRECT
       then
         let w = (upd_cfg (\<lambda>c. c\<lparr>input_flags := input_flags c AND NOT O_DIRECT, i_nocache := True\<rparr>) (fst w), snd w)
         in run_bind (fd_reopen STDIN_FILENO f (O_RDONLY OR input_flags (cfg (fst w))) w) (\<lambda>e w.
              if e \<noteq> 0 then fatal e ''failed to open'' w else Ret () (warn_direct w))
       else fatal e ''failed to open'' w)"

definition probe_input :: "'h st \<Rightarrow> 'h st" where
  "probe_input w =
     (case w of (ctx, k) \<Rightarrow>
        let size = (if in_type k = Some S_IFREG then int (length (in_data k))
                    else if in_type k = Some S_IFBLK
                    then (case blk_bytes (in_geom (plat k)) of None \<Rightarrow> - 1 | Some n \<Rightarrow> if 0 < n then n else - 1)
                    else - 1)
        in (case sys_lseek STDIN_FILENO 0 k of (off, k) \<Rightarrow>
              let ctx = ctx\<lparr>total_input_size := size, input_seekable := (off \<noteq> None),
                            input_offset := (case off of None \<Rightarrow> 0 | Some o' \<Rightarrow> if 0 < o' then o' else 0)\<rparr>
              in (ctx, if i_nocache (cfg ctx) then emit (FadviseSequential STDIN_FILENO) k else k)))"

definition setup_input_stream :: "'h st \<Rightarrow> (unit, 'h) run" where
  "setup_input_stream w =
     run_bind
       (case input_file (cfg (fst w)) of
          None \<Rightarrow>
            Ret () (set_fd_flags STDIN_FILENO (input_flags (cfg (fst w)))
              (upd_cfg (\<lambda>c. c\<lparr>input_file := Some ''standard input''\<rparr>) (fst w), snd w))
        | Some f \<Rightarrow> open_input f w)
       (\<lambda>_ w. Ret () (probe_input w))"

definition open_opts :: "dd_config \<Rightarrow> mask" where
  "open_opts c =
     output_flags c OR (if conv c C_NOCREAT then 0 else O_CREAT) OR (if conv c C_EXCL then O_EXCL else 0) OR
     (if seek_records c \<noteq> 0 \<or> seek_bytes c \<noteq> 0 \<or> conv c C_NOTRUNC then 0 else O_TRUNC)"

definition open_output :: "string \<Rightarrow> 'h st \<Rightarrow> (unit, 'h) run" where
  "open_output f w =
     (let opts = open_opts (cfg (fst w)) in
      run_bind (fd_reopen STDOUT_FILENO f (O_WRONLY OR opts) w) (\<lambda>e w.
        if e = 0 then Ret () w
        else if e = EINVAL \<and> any_set opts O_DIRECT
        then
          let w = (upd_cfg (\<lambda>c. c\<lparr>output_flags := output_flags c AND NOT O_DIRECT, o_nocache := True\<rparr>) (fst w), snd w)
          in run_bind (fd_reopen STDOUT_FILENO f (O_WRONLY OR (opts AND NOT O_DIRECT)) w) (\<lambda>e w.
               if e \<noteq> 0 then fatal e ''failed to open'' w else Ret () (warn_direct w))
        else fatal e ''failed to open'' w))"

definition guard_refuses :: "guard_env \<Rightarrow> dd_config \<Rightarrow> bool" where
  "guard_refuses G c = (case G of (stat, mounts, swaps) \<Rightarrow> check_target_safety stat mounts swaps c \<noteq> None)"

definition setup_output_stream :: "guard_env \<Rightarrow> 'h st \<Rightarrow> (unit, 'h) run" where
  "setup_output_stream G w =
     run_bind
       (case output_file (cfg (fst w)) of
          None \<Rightarrow>
            Ret () (set_fd_flags STDOUT_FILENO (output_flags (cfg (fst w)))
              (upd_cfg (\<lambda>c. c\<lparr>output_file := Some ''standard output''\<rparr>) (fst w), snd w))
        | Some f \<Rightarrow>
            if guard_refuses G (cfg (fst w)) then fatal 0 ''SAFETY GUARD: refusing to overwrite'' w
            else open_output f w)
       (\<lambda>_ w. case w of (ctx, k) \<Rightarrow>
          Ret () (ctx, if o_nocache (cfg ctx) then emit (FadviseSequential STDOUT_FILENO) k else k))"

section \<open>Synchronising, closing\<close>

text \<open>A synchronisation that succeeds brings the target as it is to stable storage.\<close>

definition sync_call :: "'h st \<Rightarrow> (int, 'h) run" where
  "sync_call w =
     run_bind (retry_on_eintr w) (\<lambda>e w. case w of (ctx, k) \<Rightarrow> Ret e (ctx, if e = 0 then k\<lparr>stable := out_data k\<rparr> else k))"

definition fsync_step :: "bool \<Rightarrow> int \<Rightarrow> 'h st \<Rightarrow> (int, 'h) run" where
  "fsync_step wanted exit_status w =
     (if wanted
      then run_bind (sync_call w) (\<lambda>e w.
             if e \<noteq> 0 then Ret EXIT_FAILURE (dd_diagnose e ''fsync failed'' w) else Ret exit_status w)
      else Ret exit_status w)"

definition dd_synchronize_output :: "'h st \<Rightarrow> (int, 'h) run" where
  "dd_synchronize_output w =
     (let c = cfg (fst w) in
      if conv c C_FDATASYNC
      then run_bind (sync_call w) (\<lambda>e w.
             if e = 0 then fsync_step (conv c C_FSYNC) EXIT_SUCCESS w
             else if e \<noteq> ENOSYS \<and> e \<noteq> EINVAL
             then fsync_step True EXIT_FAILURE (dd_diagnose e ''fdatasync failed'' w)
             else fsync_step True EXIT_SUCCESS w)
      else fsync_step (conv c C_FSYNC) EXIT_SUCCESS w)"

definition dd_engine_cleanup :: "'h st \<Rightarrow> (unit, 'h) run" where
  "dd_engine_cleanup w =
     run_bind (dd_synchronize_output w) (\<lambda>sync_status w.
       if sync_status \<noteq> 0 then Exits sync_status w else close_streams w)"

section \<open>The whole run\<close>

definition evict_cache :: "'h st \<Rightarrow> 'h st" where
  "evict_cache w =
     (case w of (ctx, k) \<Rightarrow>
        let (ctx, k) =
              (if i_nocache (cfg ctx) \<or> i_nocache_eof (cfg ctx)
               then (case dd_invalidate_cache_chunked STDIN_FILENO 0 (i_nocache_pending ctx) True k of
                       (p, k) \<Rightarrow> (ctx\<lparr>i_nocache_pending := p\<rparr>, k))
               else (ctx, k))
        in if o_nocache (cfg ctx) \<or> o_nocache_eof (cfg ctx)
           then (case dd_invalidate_cache_chunked STDOUT_FILENO 0 (o_nocache_pending ctx) True k of
                   (p, k) \<Rightarrow> (ctx\<lparr>o_nocache_pending := p\<rparr>, k))
           else (ctx, k))"

definition start_clock :: "'h st \<Rightarrow> 'h st" where
  "start_clock w =
     (case w of (ctx, k) \<Rightarrow>
        (case gethrxtime k of (t, k) \<Rightarrow>
           (ctx\<lparr>stats := (stats ctx)\<lparr>start_time := t, next_time := t + 1000000000\<rparr>\<rparr>, k)))"

definition setup_streams :: "guard_env \<Rightarrow> 'h st \<Rightarrow> (unit, 'h) run" where
  "setup_streams G w = run_bind (setup_input_stream w) (\<lambda>_ w. run_bind (setup_output_stream G w) (\<lambda>_ w. Ret () (start_clock w)))"

definition dd_execute :: "nat \<Rightarrow> guard_env \<Rightarrow> 'h hash_api \<Rightarrow> 'h st \<Rightarrow> (int, 'h) run" where
  "dd_execute n G H w =
     (if dry_run (cfg (fst w)) then (case dd_execute_dry_run G w of (r, w) \<Rightarrow> Ret r w)
      else
        run_bind (setup_streams G w) (\<lambda>_ w.
          run_bind (dd_copy n H w) (\<lambda>status w.
            run_bind (dd_engine_cleanup (evict_cache w)) (\<lambda>_ w.
              Ret status (dd_print_stats w)))))"

text \<open>The buffers are given back; \<open>obuf\<close> first, unless it is \<open>ibuf\<close>.\<close>

definition dd_context_free :: "'h dd_context \<Rightarrow> 'h dd_context" where
  "dd_context_free ctx =
     (let ctx = (case obuf ctx of OOwn b \<Rightarrow> ctx\<lparr>obuf := ONull\<rparr> | _ \<Rightarrow> ctx)
      in (case ibuf ctx of None \<Rightarrow> ctx | Some b \<Rightarrow> ctx\<lparr>ibuf := None\<rparr>))"

end
