(* ===== verification/ExecuteCorrect.thy ===== *)
theory ExecuteCorrect
  imports Execute
begin

text \<open>
  What a whole run does: the guard keeps it from opening a target in use; a run that ends well has put the
  bytes of the source file, behind the offsets asked for, into the target file, and brought them to stable
  storage if that was asked for.
\<close>

section \<open>Outcomes\<close>

text \<open>
  \<open>outcome m P Q\<close>: \<open>m\<close> is defined and does not run out of fuel; if it returns, then with \<open>P\<close>, and if the
  process ends in it, then in a world with \<open>Q\<close>.
\<close>

fun outcome :: "('a, 'h) run \<Rightarrow> ('a \<Rightarrow> 'h st \<Rightarrow> bool) \<Rightarrow> ('h st \<Rightarrow> bool) \<Rightarrow> bool" where
  "outcome (Ret a w) P Q \<longleftrightarrow> P a w"
| "outcome (Exits e w) P Q \<longleftrightarrow> Q w"
| "outcome (Killed s w) P Q \<longleftrightarrow> Q w"
| "outcome Undefd P Q \<longleftrightarrow> False"
| "outcome NoFuel P Q \<longleftrightarrow> False"

lemma outcome_bind:
  assumes "outcome m P Q" "\<And>a w. m = Ret a w \<Longrightarrow> P a w \<Longrightarrow> outcome (f a w) P' Q"
  shows "outcome (run_bind m f) P' Q"
  using assms by (cases m) auto

lemma outcome_mono:
  assumes "outcome m P Q" "\<And>a w. P a w \<Longrightarrow> P' a w" "\<And>w. Q w \<Longrightarrow> Q' w"
  shows "outcome m P' Q'"
  using assms by (cases m) auto

text \<open>\<open>idle w w'\<close>: reports, signals and answers of the platform came and went, the descriptors are as they were.\<close>

definition plat_core :: "platform \<Rightarrow> platform" where
  "plat_core p = p\<lparr>sigs := [], err_ans := []\<rparr>"

definition idle :: "'h st \<Rightarrow> 'h st \<Rightarrow> bool" where
  "idle w w' \<longleftrightarrow> quiet_step w w' \<and> stable (snd w') = stable (snd w) \<and> plat_core (plat (snd w')) = plat_core (plat (snd w)) \<and>
     (err_ans (plat (snd w)) = [] \<longrightarrow> err_ans (plat (snd w')) = [])"

lemma plat_coreD:
  assumes "plat_core p = plat_core q"
  shows "cfr_ans p = cfr_ans q" "spl_in_ans p = spl_in_ans q" "spl_out_ans p = spl_out_ans q"
    "pipe_capacity p = pipe_capacity q" "files p = files q" "reaps p = reaps q"
  using arg_cong [OF assms, of cfr_ans] arg_cong [OF assms, of spl_in_ans] arg_cong [OF assms, of spl_out_ans]
    arg_cong [OF assms, of pipe_capacity] arg_cong [OF assms, of files] arg_cong [OF assms, of reaps] by (simp_all add: plat_core_def)

lemma idle_refl [simp]: "idle w w"
  by (simp add: idle_def)

lemma idle_trans: "idle a b \<Longrightarrow> idle b c \<Longrightarrow> idle a c"
  by (auto simp: idle_def intro: quiet_step_trans)

lemma idle_same_plat: "quiet_step w w' \<Longrightarrow> plat (snd w') = plat (snd w) \<Longrightarrow> stable (snd w') = stable (snd w) \<Longrightarrow> idle w w'"
  by (simp add: idle_def)

lemma stable_reports:
  "stable (emit e k) = stable k" "stable (snd (clear_progress w)) = stable (snd w)"
  "stable (snd (dd_diagnose n m w)) = stable (snd w)" "stable (snd (dd_print_stats w)) = stable (snd w)"
proof -
  show s: "stable (emit e k) = stable k" for e k by (simp add: emit_def)
  have c: "stable (snd (clear_progress w)) = stable (snd w)" for w :: "'a st"
    by (auto simp: clear_progress_def s split: prod.split)
  have g: "stable (snd (gethrxtime k)) = stable k" for k by (simp add: gethrxtime_def split: list.split)
  show "stable (snd (clear_progress w)) = stable (snd w)" by (rule c)
  show "stable (snd (dd_diagnose n m w)) = stable (snd w)" using c [of w] by (simp add: dd_diagnose_def split_def s)
  show "stable (snd (dd_print_stats w)) = stable (snd w)"
    using c [of w] g by (simp add: dd_print_stats_def split_def Let_def s)
qed

lemma idle_print: "idle w (dd_print_stats w)"
  by (rule idle_same_plat [OF quiet_dd_print_stats plat_reports(2) stable_reports(4)])

lemma idle_prints: "idle w ((dd_print_stats ^^ n) w)"
  by (induction n) (auto intro: idle_trans idle_print)

lemma idle_diagnose: "idle w (dd_diagnose e m w)"
  by (rule idle_same_plat [OF quiet_dd_diagnose plat_reports(4) stable_reports(3)])

lemma idle_emit: "idle (ctx, k) (ctx, emit e k)"
  by (rule idle_same_plat) (simp_all add: quiet_step_def stable_reports)

lemma idle_next_err: "next_err k = (e, k') \<Longrightarrow> idle (ctx, k) (ctx, k')"
  by (auto simp: next_err_def idle_def quiet_step_def same_io_def plat_core_def split: list.splits)

lemma idle_next_sigs: "next_sigs k = (s, k') \<Longrightarrow> idle (ctx, k) (ctx, k')"
  by (auto simp: next_sigs_def idle_def quiet_step_def same_io_def plat_core_def split: list.splits)

lemma idle_iclose_retry: "iclose_retry k = (r, k') \<Longrightarrow> idle (ctx, k) (ctx, k')"
proof (induction k rule: iclose_retry.induct)
  case (1 k)
  obtain e k1 where n: "next_err k = (e, k1)" by fastforce
  note i = idle_next_err [OF n, of ctx]
  show ?case
  proof (cases "errno k = EINTR \<and> e \<noteq> 0 \<and> e \<noteq> 9")
    case True
    then have "iclose_retry k1 = (r, k')" using "1.prems" by (subst (asm) iclose_retry.simps) (simp add: n)
    then have "idle (ctx, k1) (ctx, k')" using "1.IH" n True by simp
    then show ?thesis by (rule idle_trans [OF i])
  next
    case False
    then show ?thesis using "1.prems" i by (subst (asm) iclose_retry.simps) (auto simp: n split: if_splits)
  qed
qed

lemma idle_iclose: "iclose k = (r, k') \<Longrightarrow> idle (ctx, k) (ctx, k')"
  by (auto simp: iclose_def split: prod.splits if_splits intro: idle_next_err idle_trans idle_iclose_retry)

lemma close_streams_idle: "outcome (close_streams w) (\<lambda>_. idle w) (idle w)"
proof (cases w)
  case (Pair ctx k)
  obtain r1 k1 r2 k2 where c: "iclose k = (r1, k1)" "iclose k1 = (r2, k2)" by fastforce
  note i = idle_iclose [OF c(1), of ctx] idle_trans [OF idle_iclose [OF c(1)] idle_iclose [OF c(2)], of ctx]
  show ?thesis
    using i idle_trans [OF i(1) idle_emit] idle_trans [OF i(2) idle_emit] by (simp add: Pair close_streams_def c)
qed

lemma signals_idle: "outcome (dd_process_signals w) (\<lambda>_. idle w) (idle w)"
proof (cases w)
  case (Pair ctx k)
  obtain n s k1 where q: "next_sigs k = ((n, s), k1)" by (metis prod.exhaust)
  note i = idle_next_sigs [OF q, of ctx]
  show ?thesis
  proof (cases "s = 0")
    case True
    then show ?thesis using idle_trans [OF i idle_prints] by (simp add: Pair dd_process_signals_def q)
  next
    case False
    have "outcome (close_streams (ctx, k1)) (\<lambda>_. idle w) (idle w)"
      by (rule outcome_mono [OF close_streams_idle]) (use idle_trans [OF i] in \<open>auto simp: Pair\<close>)
    then have "outcome (run_bind (close_streams (ctx, k1)) (\<lambda>_ w'. Killed s (dd_print_stats w') :: (unit, 'a) run)) (\<lambda>_. idle w) (idle w)"
      by (rule outcome_bind) (auto intro: idle_trans idle_print)
    then show ?thesis using False by (simp add: Pair dd_process_signals_def q)
  qed
qed

lemma retry_idle: "outcome (retry_on_eintr w) (\<lambda>_. idle w) (idle w)"
proof (induction w rule: retry_on_eintr.induct)
  case (1 w)
  show ?case
  proof (subst retry_on_eintr.simps, rule outcome_bind [OF signals_idle])
    fix u w1 assume p: "dd_process_signals w = Ret u w1" and i: "idle w w1"
    obtain ctx k e k' where w1: "w1 = (ctx, k)" and n: "next_err k = (e, k')" by fastforce
    note i1 = idle_trans [OF i [unfolded w1] idle_next_err [OF n]]
    show "outcome (case w1 of (ctx, k) \<Rightarrow> case next_err k of (e, k) \<Rightarrow> if e = EINTR then retry_on_eintr (ctx, k) else Ret e (ctx, k))
        (\<lambda>_. idle w) (idle w)"
    proof (cases "e = EINTR")
      case True
      have "outcome (retry_on_eintr (ctx, k')) (\<lambda>_. idle (ctx, k')) (idle (ctx, k'))"
        by (rule "1.IH" [OF p w1 [symmetric] n [symmetric] True])
      then have "outcome (retry_on_eintr (ctx, k')) (\<lambda>_. idle w) (idle w)"
        by (rule outcome_mono) (blast intro: idle_trans [OF i1])+
      then show ?thesis using True by (simp add: w1 n)
    qed (use i1 in \<open>simp add: w1 n\<close>)
  qed
qed

text \<open>A file is opened, or nothing has happened yet.\<close>

definition opened :: "fd \<Rightarrow> string \<Rightarrow> mask \<Rightarrow> 'h st \<Rightarrow> 'h st \<Rightarrow> bool" where
  "opened fd f fl w w' \<longleftrightarrow> (\<exists>k. idle w (fst w', k) \<and> sys_open fd f fl k = (0, snd w'))"

lemma reopen_outcome:
  "outcome (fd_reopen fd f fl w) (\<lambda>e w'. if e = 0 then opened fd f fl w w' else idle w w') (idle w)"
  unfolding fd_reopen_def
proof (rule outcome_bind [OF retry_idle])
  fix e w1 assume i: "idle w w1"
  obtain ctx k where w1: "w1 = (ctx, k)" by fastforce
  obtain r k' where o: "sys_open fd f fl k = (r, k')" by fastforce
  have "idle (ctx, k) (ctx, k')" if "r \<noteq> 0"
    using o that by (auto simp: sys_open_def idle_def quiet_step_def same_io_def split: option.splits if_splits)
  then show "outcome (case w1 of (ctx, k) \<Rightarrow> if e \<noteq> 0 then Ret e (ctx, k) else case sys_open fd f fl k of (r, k) \<Rightarrow> Ret r (ctx, k))
      (\<lambda>e w'. if e = 0 then opened fd f fl w w' else idle w w') (idle w)"
    using i [unfolded w1] idle_trans [OF i [unfolded w1]] o unfolding opened_def
    by (auto simp: w1 intro!: exI [of _ k])
qed

lemma fatal_idle: "outcome (fatal e m w) P (idle w)"
  by (cases w) (simp add: fatal_def idle_emit)

section \<open>The guard\<close>

text \<open>Nothing has happened to standard output, and nothing that concerns the target has changed in the request.\<close>

definition target_untouched :: "'h st \<Rightarrow> 'h st \<Rightarrow> bool" where
  "target_untouched w w' \<longleftrightarrow>
     output_file (cfg (fst w')) = output_file (cfg (fst w)) \<and> output_flags (cfg (fst w')) = output_flags (cfg (fst w)) \<and>
     conversions_mask (cfg (fst w')) = conversions_mask (cfg (fst w)) \<and>
     out_data (snd w') = out_data (snd w) \<and> out_off (snd w') = out_off (snd w) \<and> out_type (snd w') = out_type (snd w) \<and>
     out_fl (snd w') = out_fl (snd w)"

lemma untouched_trans: "target_untouched a b \<Longrightarrow> target_untouched b c \<Longrightarrow> target_untouched a c"
  by (simp add: target_untouched_def)

lemma untouched_idle: "idle w w' \<Longrightarrow> target_untouched w w'"
  using same_dataD [of "fst w" "fst w'"] same_ioD [of "snd w" "snd w'"]
  by (simp add: idle_def quiet_step_def target_untouched_def)

lemma untouched_opened: "opened STDIN_FILENO f fl w w' \<Longrightarrow> target_untouched w w'"
proof -
  assume "opened STDIN_FILENO f fl w w'"
  then obtain k where i: "idle w (fst w', k)" and o: "sys_open STDIN_FILENO f fl k = (0, snd w')" by (auto simp: opened_def)
  obtain c' k' where w': "w' = (c', k')" by fastforce
  have "target_untouched (c', k) (c', k')"
    using o by (auto simp: w' target_untouched_def sys_open_def open_as_def Let_def split: option.splits if_splits)
  then show ?thesis using untouched_trans [OF untouched_idle [OF i]] by (simp add: w')
qed

lemma reopen_untouched:
  "outcome (fd_reopen STDIN_FILENO f fl w) (\<lambda>_. target_untouched w) (target_untouched w)"
  by (rule outcome_mono [OF reopen_outcome]) (auto intro: untouched_idle untouched_opened split: if_splits)

lemma fatal_untouched: "target_untouched w w' \<Longrightarrow> outcome (fatal e m w') P (target_untouched w)"
  by (rule outcome_mono [OF fatal_idle, where P = P]) (auto intro: untouched_trans untouched_idle)

lemma open_input_untouched: "outcome (open_input f w) (\<lambda>_. target_untouched w) (target_untouched w)"
  unfolding open_input_def
proof (rule outcome_bind [OF reopen_untouched])
  fix e w1 assume u: "target_untouched w w1"
  let ?w = "(upd_cfg (\<lambda>c. c\<lparr>input_flags := input_flags c AND NOT O_DIRECT, i_nocache := True\<rparr>) (fst w1), snd w1)"
  have u2: "target_untouched w ?w" using u by (simp add: target_untouched_def upd_cfg_def)
  have "outcome (fd_reopen STDIN_FILENO f (O_RDONLY OR input_flags (cfg (fst ?w))) ?w) (\<lambda>_. target_untouched w) (target_untouched w)"
    by (rule outcome_mono [OF reopen_untouched]) (auto intro: untouched_trans [OF u2])
  then have "outcome (run_bind (fd_reopen STDIN_FILENO f (O_RDONLY OR input_flags (cfg (fst ?w))) ?w)
      (\<lambda>e w. if e \<noteq> 0 then fatal e ''failed to open'' w else Ret () (warn_direct w))) (\<lambda>_. target_untouched w) (target_untouched w)"
  proof (rule outcome_bind)
    fix e2 w2 assume v: "target_untouched w w2"
    moreover have "target_untouched w2 (warn_direct w2)"
      by (cases w2) (auto simp: warn_direct_def target_untouched_def emit_def)
    ultimately show "outcome (if e2 \<noteq> 0 then fatal e2 ''failed to open'' w2 else Ret () (warn_direct w2))
        (\<lambda>_. target_untouched w) (target_untouched w)"
      using untouched_trans [of w w2] by (simp add: fatal_untouched [OF v])
  qed
  then show "outcome (if e = 0 then Ret () w1
       else if e = EINVAL \<and> any_set (input_flags (cfg (fst w1))) O_DIRECT
       then let w = ?w
            in run_bind (fd_reopen STDIN_FILENO f (O_RDONLY OR input_flags (cfg (fst w))) w)
                 (\<lambda>e w. if e \<noteq> 0 then fatal e ''failed to open'' w else Ret () (warn_direct w))
       else fatal e ''failed to open'' w1) (\<lambda>_. target_untouched w) (target_untouched w)"
    using u by (simp add: Let_def fatal_untouched [OF u])
qed

lemma set_fd_flags_untouched: "target_untouched w (set_fd_flags STDIN_FILENO m w)"
proof (cases w)
  case (Pair ctx k)
  obtain e1 k1 e2 k2 where n: "next_err k = (e1, k1)" "next_err k1 = (e2, k2)" by fastforce
  note i = idle_next_err [OF n(1), of ctx] idle_trans [OF idle_next_err [OF n(1)] idle_next_err [OF n(2)], of ctx]
  have "target_untouched w (ctx, k2\<lparr>in_fl := fl\<rparr>)" for fl
    using untouched_idle [OF i(2)] by (simp add: Pair target_untouched_def)
  then show ?thesis
    using untouched_idle [OF idle_trans [OF i(1) idle_diagnose]] untouched_idle [OF idle_trans [OF i(2) idle_diagnose]]
    by (simp add: Pair set_fd_flags_def n f_setfl_def) (simp add: target_untouched_def)
qed

lemma probe_untouched: "target_untouched w (probe_input w)"
  by (cases w) (auto simp: probe_input_def target_untouched_def sys_lseek_def emit_def Let_def split: prod.splits if_splits)

lemma setup_input_untouched: "outcome (setup_input_stream w) (\<lambda>_. target_untouched w) (target_untouched w)"
  unfolding setup_input_stream_def
proof (rule outcome_bind)
  let ?w = "(upd_cfg (\<lambda>c. c\<lparr>input_file := Some ''standard input''\<rparr>) (fst w), snd w)"
  have "target_untouched w ?w" by (simp add: target_untouched_def upd_cfg_def)
  note t = untouched_trans [OF this set_fd_flags_untouched]
  show "outcome (case input_file (cfg (fst w)) of
      None \<Rightarrow> Ret () (set_fd_flags STDIN_FILENO (input_flags (cfg (fst w))) ?w)
    | Some f \<Rightarrow> open_input f w) (\<lambda>_. target_untouched w) (target_untouched w)"
    using t open_input_untouched [of _ w] by (cases "input_file (cfg (fst w))") simp_all
qed (auto intro: untouched_trans probe_untouched)

text \<open>
  C7: the guard protects: a target the guard refuses is never opened. The run ends with a failure, or is
  interrupted before, and standard output is as it was: not replaced by the target, not truncated, not
  written to.
\<close>

theorem execute_guards_target:
  assumes "guard_refuses G (cfg ctx)" "\<not> dry_run (cfg ctx)"
  shows "case dd_execute n G H (ctx, k) of
           Exits e w' \<Rightarrow> target_untouched (ctx, k) w'
         | Killed s w' \<Rightarrow> target_untouched (ctx, k) w'
         | _ \<Rightarrow> False"
proof -
  let ?w = "(ctx, k)"
  have out: "output_file (cfg ctx) \<noteq> None" using assms(1)
    by (cases "output_file (cfg ctx)") (simp_all add: guard_refuses_def check_target_safety_def split_def)
  have g: "guard_refuses G (cfg (fst w1)) \<and> output_file (cfg (fst w1)) \<noteq> None" if "target_untouched ?w w1" for w1
    using that assms(1) out
    by (auto simp: target_untouched_def guard_refuses_def check_target_safety_def conv_def split: prod.splits)
  have "outcome (setup_streams G ?w) (\<lambda>_ _. False) (target_untouched ?w)"
    unfolding setup_streams_def
  proof (rule outcome_bind [OF setup_input_untouched])
    fix u w1 assume t: "target_untouched ?w w1"
    have "outcome (setup_output_stream G w1) (\<lambda>_ _. False) (target_untouched ?w)"
      unfolding setup_output_stream_def
      using g [OF t] fatal_untouched [OF t] by (auto intro!: outcome_bind [where P = "\<lambda>_ _. False"] split: option.splits)
    then show "outcome (run_bind (setup_output_stream G w1) (\<lambda>_ w. Ret () (start_clock w))) (\<lambda>_ _. False) (target_untouched ?w)"
      by (rule outcome_bind) simp
  qed
  then show ?thesis using assms(2) by (cases "setup_streams G ?w") (simp_all add: dd_execute_def)
qed

lemma execute_guards_target_witness:
  "let w = (ctx0 [] 0 (dd_init_default_config\<lparr>input_file := Some ''a'', output_file := Some ''/dev/sda''\<rparr>), one_file)
   in case dd_execute 1 (\<lambda>_. Some \<lparr>s_isblk = True, st_rdev = (8, 0)\<rparr>, Some ''/dev/sda / ext4'', None) list_hash w of
        Exits e w' \<Rightarrow> target_untouched w w' | Killed s w' \<Rightarrow> target_untouched w w' | _ \<Rightarrow> False"
proof -
  let ?c = "dd_init_default_config\<lparr>input_file := Some ''a'', output_file := Some ''/dev/sda''\<rparr>"
  let ?G = "(\<lambda>_. Some \<lparr>s_isblk = True, st_rdev = (8, 0)\<rparr>, Some ''/dev/sda / ext4'', None)"
  have "guard_refuses ?G (cfg (ctx0 [] 0 ?c))"
    by (simp add: guard_refuses_def check_target_safety_def evaluate_target_safety_def ctx0_def dd_init_default_config_def conv_def
        fgets_lines.simps fgets_def sscanf_two_def scan_s_def isspace_def system_paths_def dev_match_def)
  moreover have "\<not> dry_run (cfg (ctx0 ([] :: byte list) 0 ?c))" by (simp add: ctx0_def dd_init_default_config_def)
  ultimately show ?thesis unfolding Let_def by (rule execute_guards_target)
qed

section \<open>From file to file\<close>

text \<open>
  A request to copy verbatim between two files on a drive: in range, with any engine that, where a digest is asked
  for, lets the data pass through the program, and that tunes the block size where it is to be tuned. \<open>kernel_answers\<close>: what the thread of the pipeline and the single
  ring of \<open>io_uring\<close> ask of the kernel.
\<close>

definition file_copy :: "dd_config \<Rightarrow> bool" where
  "file_copy c \<longleftrightarrow>
     plain_copy c \<and> (conv c C_AUTOTUNE \<longrightarrow> explicit_driver c \<in> {None, Some sync_io_driver}) \<and> 0 < blocksize c \<and> 0 \<le> max_bytes c \<and> max_bytes c \<le> blocksize c \<and>
     max_records c \<le> INTMAX_MAX \<and> \<not> (max_records c = 0 \<and> max_bytes c = 0) \<and> threads c \<le> 1 \<and> \<not> direct_io c \<and>
     \<not> any_set (input_flags c) O_TRUNC \<and> \<not> any_set (output_flags c) (O_APPEND OR O_TRUNC) \<and>
     0 \<le> skip_records c \<and> 0 \<le> skip_bytes c \<and> in_intmax (skip_records c * blocksize c + skip_bytes c) \<and>
     0 \<le> seek_records c \<and> 0 \<le> seek_bytes c \<and> in_intmax (seek_records c * blocksize c + seek_bytes c) \<and>
     (conv c C_SPARSE \<longrightarrow> seek_records c = 0 \<and> seek_bytes c = 0 \<and> \<not> conv c C_NOTRUNC) \<and>
     (case explicit_driver c of
        None \<Rightarrow> True
      | Some d \<Rightarrow> d = sync_io_driver \<or> d = async_io_driver \<or>
                  (d = reflink_io_driver \<or> d = splice_io_driver) \<and> \<not> conv c (C_BLAKE3 OR C_BLKS) \<or>
                  d = uring_io_driver \<and> \<not> conv c C_SPARSE)"

definition kernel_answers :: "bool \<Rightarrow> dd_config \<Rightarrow> kern \<Rightarrow> bool" where
  "kernel_answers full c k \<longleftrightarrow>
     (explicit_driver c = Some async_io_driver \<longrightarrow> err_ans (plat k) = [] \<and> read_clean full k) \<and>
     (explicit_driver c = Some uring_io_driver \<longrightarrow>
     calm_ring k \<and> (\<forall>a \<in> set (rd_ans k). whole_ans 0 a) \<and> (\<forall>a \<in> set (wr_ans k). whole_ans (nat (blocksize c)) a))"

definition skip_offset :: "dd_config \<Rightarrow> nat" where
  "skip_offset c = nat (skip_records c * blocksize c + skip_bytes c)"

definition seek_offset :: "dd_config \<Rightarrow> nat" where
  "seek_offset c = nat (seek_records c * blocksize c + seek_bytes c)"

text \<open>What the target holds once it is open: nothing if it is new or truncated.\<close>

definition target_content :: "dd_config \<Rightarrow> disk_file option \<Rightarrow> byte list" where
  "target_content c y =
     (case y of None \<Rightarrow> [] | Some y \<Rightarrow>
        if seek_records c = 0 \<and> seek_bytes c = 0 \<and> \<not> conv c C_NOTRUNC then [] else f_data y)"

text \<open>\<open>written p bs old new\<close>: the file \<open>new\<close> is \<open>old\<close> with \<open>bs\<close> at offset \<open>p\<close>; a gap reads as zeros.\<close>

definition reads_as :: "nat \<Rightarrow> byte list \<Rightarrow> byte list" where
  "reads_as n f = take n f @ replicate (n - length f) 0"

definition written :: "nat \<Rightarrow> byte list \<Rightarrow> byte list \<Rightarrow> byte list \<Rightarrow> bool" where
  "written p bs old new \<longleftrightarrow>
     reads_as (p + length bs) new = reads_as p old @ bs \<and> drop (p + length bs) new = drop (p + length bs) old"

text \<open>The program before its first system call, and the state on the way to the copy.\<close>

definition fresh_run :: "'h st \<Rightarrow> bool" where
  "fresh_run w \<longleftrightarrow> ibuf (fst w) = None \<and> obuf (fst w) = ONull \<and> oc (fst w) = 0 \<and> w_bytes (stats (fst w)) = 0 \<and>
     \<not> final_op_was_seek (fst w)"

definition source_open :: "bool \<Rightarrow> dd_config \<Rightarrow> kern \<Rightarrow> byte list \<Rightarrow> nat \<Rightarrow> 'h st \<Rightarrow> bool" where
  "source_open full c k data i w \<longleftrightarrow> cfg (fst w) = c \<and> iread_fnc (fst w) = full \<and> fresh_run w \<and>
     plat_core (plat (snd w)) = plat_core (plat k) \<and> (err_ans (plat k) = [] \<longrightarrow> err_ans (plat (snd w)) = []) \<and>
     rd_ans (snd w) = rd_ans k \<and> wr_ans (snd w) = wr_ans k \<and> in_data (snd w) = data \<and> in_off (snd w) = i \<and> in_seek (snd w) \<and> in_type (snd w) = Some S_IFREG"

definition target_open :: "byte list \<Rightarrow> nat \<Rightarrow> 'h st \<Rightarrow> bool" where
  "target_open old j w \<longleftrightarrow> out_data (snd w) = old \<and> out_off (snd w) = j \<and> out_seek (snd w) \<and>
     out_type (snd w) = Some S_IFREG \<and> \<not> any_set (out_fl (snd w)) O_APPEND"

lemma fresh_run_idle: "idle w w' \<Longrightarrow> fresh_run w' = fresh_run w"
  using same_dataD [of "fst w" "fst w'"] by (auto simp: idle_def quiet_step_def fresh_run_def)

lemma source_open_idle: "idle w w' \<Longrightarrow> source_open full c k data i w \<Longrightarrow> source_open full c k data i w'"
  using same_dataD(1,7) [of "fst w" "fst w'"] same_ioD [of "snd w" "snd w'"] fresh_run_idle [of w w']
  by (auto simp: idle_def quiet_step_def source_open_def)

lemma target_open_idle: "idle w w' \<Longrightarrow> target_open old j w' = target_open old j w"
  using same_ioD [of "snd w" "snd w'"] by (auto simp: idle_def quiet_step_def target_open_def)

lemma open_input_plain:
  assumes "\<not> any_set (input_flags (cfg (fst w))) O_DIRECT"
  shows "outcome (open_input f w) (\<lambda>_. opened STDIN_FILENO f (O_RDONLY OR input_flags (cfg (fst w))) w) (\<lambda>_. True)"
  unfolding open_input_def
proof (rule outcome_bind [OF outcome_mono [OF reopen_outcome]])
  fix e :: int and w1
  let ?o = "opened STDIN_FILENO f (O_RDONLY OR input_flags (cfg (fst w))) w"
  assume a: "if e = 0 then ?o w1 else idle w w1"
  then have "\<not> any_set (input_flags (cfg (fst w1))) O_DIRECT" if "e \<noteq> 0"
    using that assms same_dataD(1) [of "fst w" "fst w1"] by (auto simp: idle_def quiet_step_def)
  then show "outcome (if e = 0 then Ret () w1
       else if e = EINVAL \<and> any_set (input_flags (cfg (fst w1))) O_DIRECT
       then let w = (upd_cfg (\<lambda>c. c\<lparr>input_flags := input_flags c AND NOT O_DIRECT, i_nocache := True\<rparr>) (fst w1), snd w1)
            in run_bind (fd_reopen STDIN_FILENO f (O_RDONLY OR input_flags (cfg (fst w))) w)
                 (\<lambda>e w. if e \<noteq> 0 then fatal e ''failed to open'' w else Ret () (warn_direct w))
       else fatal e ''failed to open'' w1) (\<lambda>_. ?o) (\<lambda>_. True)"
    using a by (cases "e = 0") (auto simp: fatal_def split: prod.splits)
qed simp_all

lemma open_output_plain:
  assumes "\<not> any_set (open_opts (cfg (fst w))) O_DIRECT"
  shows "outcome (open_output f w) (\<lambda>_. opened STDOUT_FILENO f (O_WRONLY OR open_opts (cfg (fst w))) w) (\<lambda>_. True)"
  unfolding open_output_def Let_def
proof (rule outcome_bind [OF outcome_mono [OF reopen_outcome]])
  fix e :: int and w1
  let ?o = "opened STDOUT_FILENO f (O_WRONLY OR open_opts (cfg (fst w))) w"
  assume a: "if e = 0 then ?o w1 else idle w w1"
  then show "outcome (if e = 0 then Ret () w1
       else if e = EINVAL \<and> any_set (open_opts (cfg (fst w))) O_DIRECT
       then run_bind (fd_reopen STDOUT_FILENO f (O_WRONLY OR (open_opts (cfg (fst w)) AND NOT O_DIRECT))
              (upd_cfg (\<lambda>c. c\<lparr>output_flags := output_flags c AND NOT O_DIRECT, o_nocache := True\<rparr>) (fst w1), snd w1))
                 (\<lambda>e w. if e \<noteq> 0 then fatal e ''failed to open'' w else Ret () (warn_direct w))
       else fatal e ''failed to open'' w1) (\<lambda>_. ?o) (\<lambda>_. True)"
    using assms by (cases "e = 0") (auto simp: fatal_def split: prod.splits)
qed simp_all

lemma source_opened:
  assumes "opened STDIN_FILENO f fl w w'" "cfg (fst w) = c" "fresh_run w" "plat_core (plat (snd w)) = plat_core (plat k)"
    and ans: "rd_ans (snd w) = rd_ans k" "wr_ans (snd w) = wr_ans k" "err_ans (plat k) = [] \<longrightarrow> err_ans (plat (snd w)) = []"
      "iread_fnc (fst w) = full"
    and "files (plat k) f = Some x" "f_type x = S_IFREG" "f_seek x" "\<not> any_set fl O_TRUNC"
  shows "source_open full c k (f_data x) 0 w'"
proof -
  obtain k1 where i: "idle w (fst w', k1)" and o: "sys_open STDIN_FILENO f fl k1 = (0, snd w')" using assms(1) by (auto simp: opened_def)
  have c: "cfg (fst w') = c" "plat_core (plat k1) = plat_core (plat k)" "fresh_run w'" "rd_ans k1 = rd_ans k" "wr_ans k1 = wr_ans k"
      "err_ans (plat k) = [] \<longrightarrow> err_ans (plat k1) = []" "iread_fnc (fst w') = full"
    using i assms(2-4) ans fresh_run_idle [OF i] same_dataD(1,7) [of "fst w" "fst w'"] same_ioD(5,6) [of "snd w" k1]
    by (auto simp: idle_def quiet_step_def fresh_run_def)
  have "files (plat k1) f = Some x" using plat_coreD(5) [OF c(2)] assms(9) by simp
  then have "snd w' = open_as STDIN_FILENO x fl k1"
    using o assms(12) by (simp add: sys_open_def split: if_splits)
  then show ?thesis using c assms(10,11) by (simp add: source_open_def open_as_def Let_def)
qed

lemma target_opened:
  assumes "opened STDOUT_FILENO f fl w w'" "source_open full c k data i w"
    and "case files (plat k) f of None \<Rightarrow> True | Some y \<Rightarrow> f_type y = S_IFREG \<and> f_seek y"
    and "\<not> any_set fl O_APPEND" "any_set fl O_TRUNC \<longleftrightarrow> seek_records c = 0 \<and> seek_bytes c = 0 \<and> \<not> conv c C_NOTRUNC"
  shows "source_open full c k data i w' \<and> target_open (target_content c (files (plat k) f)) 0 w'"
proof -
  obtain k1 where i: "idle w (fst w', k1)" and o: "sys_open STDOUT_FILENO f fl k1 = (0, snd w')" using assms(1) by (auto simp: opened_def)
  have s: "source_open full c k data i (fst w', k1)" using source_open_idle [OF i] assms(2) by simp
  have fs: "files (plat k1) = files (plat k)" using s plat_coreD(5) [of "plat k1" "plat k"] by (simp add: source_open_def)
  have fl: "\<not> any_set (fl AND NOT (O_CREAT OR O_EXCL OR O_TRUNC)) O_APPEND"
  proof -
    have "(fl AND NOT (O_CREAT OR O_EXCL OR O_TRUNC)) AND O_APPEND = fl AND O_APPEND"
      by (simp add: cfg_simps and.assoc)
    then show ?thesis using assms(4) by (simp add: any_set_def)
  qed
  obtain y where y: "snd w' = open_as STDOUT_FILENO y fl k1" "f_data y = target_content c (files (plat k) f)" "f_type y = S_IFREG" "f_seek y"
  proof (cases "files (plat k) f")
    case None
    then have "snd w' = open_as STDOUT_FILENO \<lparr>f_data = [], f_type = S_IFREG, f_seek = True\<rparr> fl k1"
      using o by (simp add: sys_open_def fs split: if_splits)
    then show thesis by (rule that) (simp_all add: None target_content_def)
  next
    case (Some z)
    let ?z = "if any_set fl O_TRUNC \<and> f_type z = S_IFREG then z\<lparr>f_data := []\<rparr> else z"
    have "snd w' = open_as STDOUT_FILENO ?z fl k1"
      using o Some by (cases "any_set fl O_TRUNC \<and> f_type z = S_IFREG") (auto simp: sys_open_def fs split: if_splits)
    then show thesis by (rule that) (use Some assms(3,5) in \<open>simp_all add: target_content_def\<close>)
  qed
  then show ?thesis
    using s fl by (simp add: source_open_def target_open_def open_as_def Let_def fresh_run_def)
qed

lemma probe_open:
  assumes "source_open full c k data 0 w"
  shows "source_open full c k data 0 (probe_input w) \<and> (target_open old j w \<longrightarrow> target_open old j (probe_input w))"
  using assms
  by (cases w) (auto simp: probe_input_def source_open_def target_open_def fresh_run_def sys_lseek_def emit_def Let_def)

lemma any_set_open_opts:
  assumes "file_copy c"
  shows "\<not> any_set (open_opts c) O_DIRECT" "\<not> any_set (O_WRONLY OR open_opts c) O_APPEND"
    "any_set (O_WRONLY OR open_opts c) O_TRUNC \<longleftrightarrow> seek_records c = 0 \<and> seek_bytes c = 0 \<and> \<not> conv c C_NOTRUNC"
    "\<not> any_set (input_flags c) O_DIRECT" "\<not> any_set (O_RDONLY OR input_flags c) O_TRUNC"
proof -
  have n: "\<not> any_set O_WRONLY O_APPEND" "\<not> any_set O_WRONLY O_TRUNC" "\<not> any_set O_RDONLY m" "\<not> any_set O_CREAT O_DIRECT"
    "\<not> any_set O_CREAT O_APPEND" "\<not> any_set O_CREAT O_TRUNC" "\<not> any_set O_EXCL O_DIRECT" "\<not> any_set O_EXCL O_APPEND"
    "\<not> any_set O_EXCL O_TRUNC" "\<not> any_set O_TRUNC O_DIRECT" "\<not> any_set O_TRUNC O_APPEND" "any_set O_TRUNC O_TRUNC" for m
    by (simp_all add: any_set_def cfg_simps)
  have c: "\<not> any_set (input_flags c) O_DIRECT" "\<not> any_set (output_flags c) O_DIRECT" "\<not> any_set (output_flags c) O_APPEND"
    "\<not> any_set (output_flags c) O_TRUNC" "\<not> any_set (input_flags c) O_TRUNC"
    using assms by (auto simp: file_copy_def direct_io_def any_set_or_right)
  show "\<not> any_set (open_opts c) O_DIRECT" "\<not> any_set (O_WRONLY OR open_opts c) O_APPEND"
    "any_set (O_WRONLY OR open_opts c) O_TRUNC \<longleftrightarrow> seek_records c = 0 \<and> seek_bytes c = 0 \<and> \<not> conv c C_NOTRUNC"
    "\<not> any_set (input_flags c) O_DIRECT" "\<not> any_set (O_RDONLY OR input_flags c) O_TRUNC"
    using n c by (simp_all add: open_opts_def)
qed

lemma emit_open:
  "source_open full c k data i (ctx, emit e k') = source_open full c k data i (ctx, k')"
  "target_open old j (ctx, emit e k') = target_open old j (ctx, k')"
  by (simp_all add: source_open_def target_open_def fresh_run_def emit_def)

lemma start_clock_open:
  "source_open full c k data i (start_clock w) = source_open full c k data i w" "target_open old j (start_clock w) = target_open old j w"
  by (cases w; simp add: start_clock_def gethrxtime_def source_open_def target_open_def fresh_run_def split: list.split)+

text \<open>Both files open, both offsets at the start.\<close>

lemma setup_files:
  assumes c: "file_copy c" "input_file c = Some i" "output_file c = Some f"
    and x: "files (plat k) i = Some x" "f_type x = S_IFREG" "f_seek x"
    and y: "case files (plat k) f of None \<Rightarrow> True | Some y \<Rightarrow> f_type y = S_IFREG \<and> f_seek y"
    and w: "cfg ctx = c" "fresh_run (ctx, k)" "iread_fnc ctx = full"
  shows "outcome (setup_streams G (ctx, k))
    (\<lambda>_ w. source_open full c k (f_data x) 0 w \<and> target_open (target_content c (files (plat k) f)) 0 w) (\<lambda>_. True)"
  unfolding setup_streams_def
proof (rule outcome_bind)
  let ?s = "source_open full c k (f_data x) 0" and ?t = "target_open (target_content c (files (plat k) f)) 0"
  note fl = any_set_open_opts [OF c(1)]
  have "outcome (open_input i (ctx, k)) (\<lambda>_. ?s) (\<lambda>_. True)"
    by (rule outcome_mono [OF open_input_plain]) (use fl w x in \<open>auto intro: source_opened\<close>)
  then show "outcome (setup_input_stream (ctx, k)) (\<lambda>_. ?s) (\<lambda>_. True)"
    unfolding setup_input_stream_def using c(2) w(1) by (auto intro!: outcome_bind simp: probe_open)
  fix u w1 assume s: "?s w1"
  then have c1: "cfg (fst w1) = c" by (simp add: source_open_def)
  have "outcome (setup_output_stream G w1) (\<lambda>_ w. ?s w \<and> ?t w) (\<lambda>_. True)"
    unfolding setup_output_stream_def
  proof (rule outcome_bind)
    have "outcome (open_output f w1) (\<lambda>_ w. ?s w \<and> ?t w) (\<lambda>_. True)"
      by (rule outcome_mono [OF open_output_plain]) (use fl c1 in \<open>auto dest: target_opened [OF _ s y]\<close>)
    then show "outcome (case output_file (cfg (fst w1)) of
        None \<Rightarrow> Ret () (set_fd_flags STDOUT_FILENO (output_flags (cfg (fst w1)))
              (upd_cfg (\<lambda>c. c\<lparr>output_file := Some ''standard output''\<rparr>) (fst w1), snd w1))
      | Some f \<Rightarrow> if guard_refuses G (cfg (fst w1)) then fatal 0 ''SAFETY GUARD: refusing to overwrite'' w1 else open_output f w1)
      (\<lambda>_ w. ?s w \<and> ?t w) (\<lambda>_. True)"
      using c1 c(3) by (auto simp: fatal_def split: prod.splits)
  qed (auto simp: emit_open)
  then show "outcome (run_bind (setup_output_stream G w1) (\<lambda>_ w. Ret () (start_clock w))) (\<lambda>_ w. ?s w \<and> ?t w) (\<lambda>_. True)"
    by (rule outcome_bind) (simp add: start_clock_open)
qed

text \<open>Skipping and seeking where both descriptors seek.\<close>

lemma source_open_cfg: "source_open full c k data i (ctx, k') \<Longrightarrow> source_open full c' k data i (ctx\<lparr>cfg := c'\<rparr>, k')"
  by (simp add: source_open_def fresh_run_def)

lemma skip_open:
  assumes s: "source_open full c k data 0 w" and t: "target_open old j w" and c: "file_copy c"
  shows "\<exists>w' sb. skip_input w = Some w' \<and> source_open full (c\<lparr>skip_bytes := sb\<rparr>) k data (skip_offset c) w' \<and> target_open old j w'"
proof -
  obtain ctx k1 where w: "w = (ctx, k1)" by fastforce
  have cc: "cfg ctx = c" "in_seek k1" "in_off k1 = 0" using s by (simp_all add: w source_open_def)
  let ?o = "skip_records c * blocksize c + skip_bytes c"
  show ?thesis
  proof (cases "skip_records c = 0 \<and> skip_bytes c = 0")
    case True
    then have e: "c\<lparr>skip_bytes := 0\<rparr> = c" by (cases c) simp
    have "source_open full (c\<lparr>skip_bytes := 0\<rparr>) k data (skip_offset c) w" unfolding e using s True by (simp add: skip_offset_def)
    moreover have "skip_input w = Some w" using True by (simp add: w skip_input_def cc)
    ultimately show ?thesis using t by blast
  next
    case False
    have "0 \<le> skip_records c * blocksize c" using c by (simp add: file_copy_def)
    then have o: "0 \<le> ?o" "in_intmax ?o" using c by (simp_all add: file_copy_def)
    let ?w = "(ctx\<lparr>cfg := c\<lparr>skip_bytes := 0\<rparr>\<rparr>, k1\<lparr>in_off := nat ?o\<rparr>)"
    have sk: "skip STDIN_FILENO (skip_records c) (blocksize c) (skip_bytes c) k1 = Some (0, 0, k1\<lparr>in_off := nat ?o\<rparr>)"
      using o cc by (simp add: skip_def sys_lseek_def Let_def)
    have sw: "source_open full (c\<lparr>skip_bytes := 0\<rparr>) k data (skip_offset c) ?w" "target_open old j ?w"
      using s t by (simp_all add: w source_open_def target_open_def fresh_run_def skip_offset_def)
    have "skip_input w = Some ?w \<or> skip_input w = Some (dd_diagnose 0 ''cannot skip to specified offset'' ?w)"
      using False cc by (simp add: w skip_input_def sk Let_def split_def)
    then show ?thesis
      using sw source_open_idle [OF idle_diagnose] target_open_idle [OF idle_diagnose] by blast
  qed
qed

lemma seek_open:
  assumes s: "source_open full c k data i w" and t: "target_open old 0 w"
    and o: "0 \<le> seek_records c * blocksize c + seek_bytes c" "in_intmax (seek_records c * blocksize c + seek_bytes c)"
  shows "\<exists>w' sb. seek_output H w = Some (EXIT_SUCCESS, w') \<and> source_open full (c\<lparr>seek_bytes := sb\<rparr>) k data i w' \<and>
    target_open old (seek_offset c) w'"
proof -
  obtain ctx k1 where w: "w = (ctx, k1)" by fastforce
  have cc: "cfg ctx = c" "out_seek k1" "out_off k1 = 0" using s t by (simp_all add: w source_open_def target_open_def)
  let ?o = "seek_records c * blocksize c + seek_bytes c"
  show ?thesis
  proof (cases "seek_records c = 0 \<and> seek_bytes c = 0")
    case True
    then have e: "c\<lparr>seek_bytes := 0\<rparr> = c" by (cases c) simp
    have "source_open full (c\<lparr>seek_bytes := 0\<rparr>) k data i w" unfolding e by (rule s)
    moreover have "target_open old (seek_offset c) w" using t True by (simp add: seek_offset_def)
    moreover have "seek_output H w = Some (EXIT_SUCCESS, w)" using True by (simp add: w seek_output_def cc)
    ultimately show ?thesis by blast
  next
    case False
    let ?w = "(ctx\<lparr>cfg := c\<lparr>seek_bytes := 0\<rparr>\<rparr>, k1\<lparr>out_off := nat ?o\<rparr>)"
    have sk: "skip STDOUT_FILENO (seek_records c) (blocksize c) (seek_bytes c) k1 = Some (0, 0, k1\<lparr>out_off := nat ?o\<rparr>)"
      using o cc by (simp add: skip_def sys_lseek_def Let_def)
    have "source_open full (c\<lparr>seek_bytes := 0\<rparr>) k data i ?w" "target_open old (seek_offset c) ?w"
      using s t by (simp_all add: w source_open_def target_open_def fresh_run_def seek_offset_def)
    moreover have "seek_output H w = Some (EXIT_SUCCESS, ?w)"
      using False cc by (simp add: w seek_output_def sk Let_def)
    ultimately show ?thesis by blast
  qed
qed

section \<open>Synchronising, closing\<close>

definition synced :: "'h st \<Rightarrow> bool" where
  "synced w \<longleftrightarrow> stable (snd w) = out_data (snd w)"

lemma sync_call_outcome:
  "outcome (sync_call w) (\<lambda>e w'. quiet_step w w' \<and> (e = 0 \<longrightarrow> synced w')) (\<lambda>_. True)"
  unfolding sync_call_def
proof (rule outcome_bind [OF outcome_mono [OF retry_idle]])
  fix e :: int and w1 assume "idle w w1"
  then show "outcome (case w1 of (ctx, k) \<Rightarrow> Ret e (ctx, if e = 0 then k\<lparr>stable := out_data k\<rparr> else k))
      (\<lambda>e w'. quiet_step w w' \<and> (e = 0 \<longrightarrow> synced w')) (\<lambda>_. True)"
    by (cases w1) (auto simp: idle_def quiet_step_def same_io_def synced_def)
qed simp_all

lemma synced_idle: "idle w w' \<Longrightarrow> synced w' = synced w"
  by (simp add: synced_def idle_def quiet_step_def same_io_def)

lemma fsync_step_outcome:
  assumes "quiet_step w0 w" "synced w \<or> wanted \<or> \<not> need"
  shows "outcome (fsync_step wanted st w) (\<lambda>s w'. quiet_step w0 w' \<and> (s = 0 \<and> need \<longrightarrow> synced w')) (\<lambda>_. True)"
proof (cases wanted)
  case True
  show ?thesis
    unfolding fsync_step_def if_P [OF True]
  proof (rule outcome_bind [OF sync_call_outcome])
    fix e :: int and w1 assume "quiet_step w w1 \<and> (e = 0 \<longrightarrow> synced w1)"
    then show "outcome (if e \<noteq> 0 then Ret EXIT_FAILURE (dd_diagnose e ''fsync failed'' w1) else Ret st w1)
        (\<lambda>s w'. quiet_step w0 w' \<and> (s = 0 \<and> need \<longrightarrow> synced w')) (\<lambda>_. True)"
      using quiet_step_trans [OF assms(1)] quiet_step_trans [OF quiet_step_trans [OF assms(1)] quiet_dd_diagnose] by simp
  qed
qed (use assms in \<open>auto simp: fsync_step_def\<close>)

lemma synchronize_outcome:
  "outcome (dd_synchronize_output w)
     (\<lambda>s w'. quiet_step w w' \<and> (s = 0 \<and> conv (cfg (fst w)) (C_FSYNC OR C_FDATASYNC) \<longrightarrow> synced w')) (\<lambda>_. True)"
proof (cases "conv (cfg (fst w)) C_FDATASYNC")
  case True
  have n: "conv (cfg (fst w)) (C_FSYNC OR C_FDATASYNC)" using True by (simp add: conv_def any_set_or_right)
  show ?thesis
    unfolding dd_synchronize_output_def Let_def if_P [OF True]
  proof (rule outcome_bind [OF sync_call_outcome])
    fix e :: int and w1 assume a: "quiet_step w w1 \<and> (e = 0 \<longrightarrow> synced w1)"
    note f = fsync_step_outcome [where need = "conv (cfg (fst w)) (C_FSYNC OR C_FDATASYNC)"]
    have d: "quiet_step w (dd_diagnose e ''fdatasync failed'' w1)" using a quiet_step_trans quiet_dd_diagnose by blast
    show "outcome (if e = 0 then fsync_step (conv (cfg (fst w)) C_FSYNC) EXIT_SUCCESS w1
             else if e \<noteq> ENOSYS \<and> e \<noteq> EINVAL
             then fsync_step True EXIT_FAILURE (dd_diagnose e ''fdatasync failed'' w1)
             else fsync_step True EXIT_SUCCESS w1)
        (\<lambda>s w'. quiet_step w w' \<and> (s = 0 \<and> conv (cfg (fst w)) (C_FSYNC OR C_FDATASYNC) \<longrightarrow> synced w')) (\<lambda>_. True)"
      using a d by (auto intro!: f)
  qed
next
  case False
  then have "conv (cfg (fst w)) (C_FSYNC OR C_FDATASYNC) = conv (cfg (fst w)) C_FSYNC" by (simp add: conv_def any_set_or_right)
  then show ?thesis
    unfolding dd_synchronize_output_def Let_def if_not_P [OF False]
    using fsync_step_outcome [of w w "conv (cfg (fst w)) C_FSYNC" "conv (cfg (fst w)) C_FSYNC" EXIT_SUCCESS] by simp
qed

lemma cleanup_outcome:
  "outcome (dd_engine_cleanup w)
     (\<lambda>_ w'. quiet_step w w' \<and> (conv (cfg (fst w)) (C_FSYNC OR C_FDATASYNC) \<longrightarrow> synced w')) (\<lambda>_. True)"
  unfolding dd_engine_cleanup_def
proof (rule outcome_bind [OF synchronize_outcome])
  fix s :: int and w1
  assume a: "quiet_step w w1 \<and> (s = 0 \<and> conv (cfg (fst w)) (C_FSYNC OR C_FDATASYNC) \<longrightarrow> synced w1)"
  have "outcome (close_streams w1) (\<lambda>_ w'. quiet_step w w' \<and> synced w' = synced w1) (\<lambda>_. True)"
    by (rule outcome_mono [OF close_streams_idle]) (use a in \<open>auto simp: synced_idle idle_def intro: quiet_step_trans synced_idle\<close>)
  then show "outcome (if s \<noteq> 0 then Exits s w1 else close_streams w1)
     (\<lambda>_ w'. quiet_step w w' \<and> (conv (cfg (fst w)) (C_FSYNC OR C_FDATASYNC) \<longrightarrow> synced w')) (\<lambda>_. True)"
    using a by (cases "s = 0") (auto elim: outcome_mono)
qed

section \<open>The copy in its surroundings\<close>

lemma quick_driver:
  assumes "file_copy c" "cfg ctx = c\<lparr>skip_bytes := a, seek_bytes := b\<rparr>" "in_type k = Some S_IFREG" "out_type k = Some S_IFREG"
    and "Xfer 0 \<notin> set (cfr_ans (plat k))" "pipe_capacity (plat k) \<noteq> Some 0" "\<not> any_set (out_fl k) O_APPEND" "kernel_answers (iread_fnc ctx) c k"
  shows "driver_ok (dd_select_io_driver (ctx, k)) (ctx, k)"
proof -
  have e: "explicit_driver (cfg ctx) = explicit_driver c" "direct_io (cfg ctx) = direct_io c" "threads (cfg ctx) = threads c"
      "conv (cfg ctx) = conv c"
    by (simp_all add: assms(2) explicit_driver_def direct_io_def conv_def fun_eq_iff)
  have f: "\<not> direct_io c" "\<not> 1 < threads c" "conv c C_AUTOTUNE \<longrightarrow> explicit_driver c \<in> {None, Some sync_io_driver}"
      "case explicit_driver c of None \<Rightarrow> True
       | Some d \<Rightarrow> d = sync_io_driver \<or> d = async_io_driver \<or>
           (d = reflink_io_driver \<or> d = splice_io_driver) \<and> \<not> conv c (C_BLAKE3 OR C_BLKS) \<or> d = uring_io_driver \<and> \<not> conv c C_SPARSE"
    using assms(1) by (simp_all add: file_copy_def)
  show ?thesis
  proof (cases "explicit_driver c")
    case (Some d)
    have b: "blocksize (cfg ctx) = blocksize c" by (simp add: assms(2))
    have "dd_select_io_driver (ctx, k) = d" by (simp add: dd_select_io_driver_def e Some)
    then show ?thesis
      using f(2-4) assms(5-8) Some by (cases d) (simp_all add: e b driver_ok_def kernel_answers_def)
  next
    case None
    then have "dd_select_io_driver (ctx, k) = (if zero_copy_allowed ctx then reflink_io_driver else sync_io_driver)"
      using f(1,2) assms(3,4) by (simp add: dd_select_io_driver_def e)
    moreover have "\<not> conv c (C_BLAKE3 OR C_BLKS) \<and> \<not> conv c C_AUTOTUNE" if "zero_copy_allowed ctx"
      using that by (auto simp: zero_copy_allowed_def e conv_def any_set_or_right)
    ultimately show ?thesis using assms(5) by (simp add: driver_ok_def e)
  qed
qed

text \<open>What a copy that reports success has done to the two files.\<close>

definition file_copied :: "'h hash_api \<Rightarrow> dd_config \<Rightarrow> byte list \<Rightarrow> byte list \<Rightarrow> 'h st \<Rightarrow> bool" where
  "file_copied H c source old w \<longleftrightarrow>
     (\<exists>bs rest. drop (skip_offset c) source = bs @ rest \<and> (rest = [] \<or> enough c (stats (fst w))) \<and>
        written (seek_offset c) bs old (out_data (snd w)) \<and> w_bytes (stats (fst w)) = int (length bs) \<and>
        digest_of H c bs (fst w) \<and> request (cfg (fst w)) = request c)"

lemma digest_of_cong:
  "sha_computed a = sha_computed b \<Longrightarrow> sha_digest a = sha_digest b \<Longrightarrow> digest_of H c bs a = digest_of H c bs b"
  by (simp add: digest_of_def)

lemma file_copied_quiet: "quiet_step w w' \<Longrightarrow> file_copied H c source old w \<Longrightarrow> file_copied H c source old w'"
proof -
  assume "quiet_step w w'" and f: "file_copied H c source old w"
  then have q: "same_data (fst w) (fst w')" "same_io (snd w) (snd w')" by (simp_all add: quiet_step_def)
  note d = same_dataD [OF q(1)] and io = same_ioD [OF q(2)]
  have "sha_computed (fst w') = sha_computed (fst w)"
    using q(1) unfolding same_data_def by (metis dd_context.select_convs(19) dd_context.surjective dd_context.update_convs(2))
  then have "digest_of H c bs (fst w') = digest_of H c bs (fst w)" for bs using d by (intro digest_of_cong) simp_all
  then show ?thesis using f d io by (simp add: file_copied_def enough_def)
qed

lemma evict_quiet: "out_data (snd (evict_cache w)) = out_data (snd w) \<and> stats (fst (evict_cache w)) = stats (fst w) \<and>
    cfg (fst (evict_cache w)) = cfg (fst w) \<and> sha_digest (fst (evict_cache w)) = sha_digest (fst w) \<and>
    sha_computed (fst (evict_cache w)) = sha_computed (fst w)"
proof -
  have c: "out_data (snd (dd_invalidate_cache_chunked fd b p f k)) = out_data k" for fd b p f k
    by (auto simp: dd_invalidate_cache_chunked_def sys_lseek_def emit_def Let_def split: fd.splits)
  show ?thesis
    using c by (cases w) (auto simp: evict_cache_def Let_def split_def)
qed

lemma file_copied_evict: "file_copied H c source old w \<Longrightarrow> file_copied H c source old (evict_cache w)"
  using evict_quiet [of w] digest_of_cong [of "fst (evict_cache w)" "fst w" H c] by (simp add: file_copied_def)

lemma copied_files:
  assumes "copied H (cfg ctx) k w" "cfg ctx = c\<lparr>skip_bytes := a, seek_bytes := b\<rparr>"
    and "in_data k = source" "in_off k = skip_offset c" "out_data k = old" "out_off k = seek_offset c" "\<not> any_set (out_fl k) O_APPEND"
  shows "file_copied H c source old w"
proof -
  obtain bs rest where r: "avail k = bs @ rest" "rest = [] \<or> enough (cfg ctx) (stats (fst w))" "delivered bs k (snd w)"
      "request (cfg (fst w)) = request (cfg ctx)" "w_bytes (stats (fst w)) = int (length bs)" "digest_of H (cfg ctx) bs (fst w)"
    using assms(1) by (auto simp: copied_def)
  have rq: "request (cfg ctx) = request c" by (rule request_cong) (simp_all add: assms(2))
  have q: "enough (cfg ctx) = enough c" "digest_of H (cfg ctx) bs (fst w) = digest_of H c bs (fst w)"
    by (rule enough_request [OF rq], simp add: digest_of_def requestD(6) [OF rq])
  have p: "out_pos k = seek_offset c" using assms(6,7) by (simp add: out_pos_def)
  have "written (seek_offset c) bs old (out_data (snd w))"
    using r(3) assms(5) by (simp add: written_def reads_as_def delivered_def content_def p)
  then show ?thesis
    using r q rq assms(3,4) by (auto simp: file_copied_def avail_def)
qed

lemma dd_copy_files:
  assumes H: "hash_stream H" and c: "file_copy c"
    and s: "source_open full c k data 0 w" and t: "target_open old 0 w" and new: "conv c C_SPARSE \<longrightarrow> old = []"
    and a: "Xfer 0 \<notin> set (cfr_ans (plat k))" "pipe_capacity (plat k) \<noteq> Some 0" "kernel_answers full c k"
    and n: "2 * length data + length (cfr_ans (plat k)) + length (spl_in_ans (plat k)) + length (reaps (plat k)) + 1 < n"
  shows "outcome (dd_copy n H w) (\<lambda>st w'. st = EXIT_SUCCESS \<longrightarrow> file_copied H c data old w') (\<lambda>_. True)"
proof -
  obtain w1 a1 where k1: "skip_input w = Some w1" "source_open full (c\<lparr>skip_bytes := a1\<rparr>) k data (skip_offset c) w1" "target_open old 0 w1"
    using skip_open [OF s t c] by blast
  let ?c = "c\<lparr>skip_bytes := a1\<rparr>"
  have "0 \<le> seek_records c * blocksize c" using c by (simp add: file_copy_def)
  then have o: "0 \<le> seek_records c * blocksize c + seek_bytes c" "in_intmax (seek_records c * blocksize c + seek_bytes c)"
    using c by (simp_all add: file_copy_def)
  have so: "seek_offset ?c = seek_offset c" by (simp add: seek_offset_def)
  obtain ctx k2 b1 where k2: "seek_output H w1 = Some (EXIT_SUCCESS, ctx, k2)"
      "source_open full (?c\<lparr>seek_bytes := b1\<rparr>) k data (skip_offset c) (ctx, k2)" "target_open old (seek_offset c) (ctx, k2)"
  proof -
    have "\<exists>w' sb. seek_output H w1 = Some (EXIT_SUCCESS, w') \<and> source_open full (?c\<lparr>seek_bytes := sb\<rparr>) k data (skip_offset c) w' \<and>
        target_open old (seek_offset c) w'"
      using seek_open [OF k1(2,3), of H] o so by simp
    then show thesis using that by auto
  qed
  have st: "cfg ctx = c\<lparr>skip_bytes := a1, seek_bytes := b1\<rparr>" "fresh_run (ctx, k2)" "plat_core (plat k2) = plat_core (plat k)"
      "in_data k2 = data" "in_off k2 = skip_offset c" "in_type k2 = Some S_IFREG" "out_data k2 = old" "out_off k2 = seek_offset c"
      "out_type k2 = Some S_IFREG" "\<not> any_set (out_fl k2) O_APPEND" "rd_ans k2 = rd_ans k" "wr_ans k2 = wr_ans k"
      "err_ans (plat k) = [] \<longrightarrow> err_ans (plat k2) = []" "iread_fnc ctx = full"
    using k2(2,3) by (simp_all add: source_open_def target_open_def)
  note pc = plat_coreD [OF st(3)]
  have cv: "conv (cfg ctx) = conv c" by (simp add: st(1) conv_def fun_eq_iff)
  have sparse: "old = [] \<and> seek_offset c = 0" if "conv c C_SPARSE"
    using that new c by (simp add: file_copy_def seek_offset_def)
  have rq: "copy_request (ctx, k2)"
  proof -
    have "hole_ok (ctx, k2)" "sparse_ok (cfg ctx) k2"
      using sparse st(2-10) by (auto simp: hole_ok_def sparse_ok_def fresh_run_def solid_def beyond_def out_pos_def cv)
    then show ?thesis
      using c st(1,2) cv by (simp add: copy_request_def fresh_plain_def fresh_run_def file_copy_def plain_copy_def)
  qed
  have "dd_select_io_driver (hash_begin H ctx, k2) = dd_select_io_driver (ctx, k2)"
  proof -
    have "zero_copy_allowed (hash_begin H ctx) = zero_copy_allowed ctx" by (simp add: zero_copy_allowed_def hash_begin_frame)
    then show ?thesis by (simp only: dd_select_io_driver_def prod.case hash_begin_frame)
  qed
  then have dr: "driver_ok (dd_select_io_driver (hash_begin H ctx, k2)) (ctx, k2)"
    using quick_driver [OF c st(1,6,9) _ _ st(10)] a pc st(11-14) by (simp add: kernel_answers_def calm_ring_def read_clean_def)
  have "fuel k2 < n" using n st(4) pc by (simp add: fuel_def avail_def)
  note r = dd_copy_ok [OF H k1(1) k2(1) rq dr this]
  show ?thesis
  proof (cases "dd_copy n H w")
    case (Ret s w')
    then have "s = EXIT_SUCCESS \<longrightarrow> copied H (cfg ctx) k2 w'" using r by simp
    then show ?thesis using Ret by (auto intro: copied_files [OF _ st(1,4,5,7,8,10)])
  qed (use r in simp_all)
qed

section \<open>Properties\<close>

lemma dd_execute_copies_plain:
  fixes H :: "'h hash_api"
  assumes "hash_stream H" "\<not> dry_run c" "file_copy c" "input_file c = Some i" "output_file c = Some f"
    and "files (plat k) i = Some x" "f_type x = S_IFREG" "f_seek x"
    and "case files (plat k) f of None \<Rightarrow> True | Some y \<Rightarrow> f_type y = S_IFREG \<and> f_seek y"
    and "cfg ctx = c" "fresh_run (ctx, k)" "Xfer 0 \<notin> set (cfr_ans (plat k))" "pipe_capacity (plat k) \<noteq> Some 0" "kernel_answers (iread_fnc ctx) c k"
    and "2 * length (f_data x) + length (cfr_ans (plat k)) + length (spl_in_ans (plat k)) + length (reaps (plat k)) + 1 < n"
  shows "outcome (dd_execute n G H (ctx, k))
    (\<lambda>status w. status = EXIT_SUCCESS \<longrightarrow>
       file_copied H c (f_data x) (target_content c (files (plat k) f)) w \<and>
       (conv c (C_FSYNC OR C_FDATASYNC) \<longrightarrow> synced w)) (\<lambda>_. True)"
proof -
  let ?old = "target_content c (files (plat k) f)"
  let ?P = "\<lambda>w. file_copied H c (f_data x) ?old w"
  have "outcome (run_bind (setup_streams G (ctx, k)) (\<lambda>_ w.
      run_bind (dd_copy n H w) (\<lambda>status w.
        run_bind (dd_engine_cleanup (evict_cache w)) (\<lambda>_ w. Ret status (dd_print_stats w)))))
    (\<lambda>status w. status = EXIT_SUCCESS \<longrightarrow> ?P w \<and> (conv c (C_FSYNC OR C_FDATASYNC) \<longrightarrow> synced w)) (\<lambda>_. True)"
  proof (rule outcome_bind [OF setup_files [OF assms(3-11) refl]])
    fix u and w :: "'h st" assume so: "source_open (iread_fnc ctx) c k (f_data x) 0 w \<and> target_open ?old 0 w"
    have "conv c C_SPARSE \<longrightarrow> ?old = []"
      using assms(3) by (simp add: file_copy_def target_content_def split: option.split)
    note cp = dd_copy_files [OF assms(1,3) conjunct1 [OF so] conjunct2 [OF so] this assms(12-15)]
    show "outcome (run_bind (dd_copy n H w) (\<lambda>status w.
        run_bind (dd_engine_cleanup (evict_cache w)) (\<lambda>_ w. Ret status (dd_print_stats w))))
      (\<lambda>status w. status = EXIT_SUCCESS \<longrightarrow> ?P w \<and> (conv c (C_FSYNC OR C_FDATASYNC) \<longrightarrow> synced w)) (\<lambda>_. True)"
    proof (rule outcome_bind [OF cp])
      fix st :: int and w1 :: "'h st" assume d: "st = EXIT_SUCCESS \<longrightarrow> ?P w1"
      show "outcome (run_bind (dd_engine_cleanup (evict_cache w1)) (\<lambda>_ w. Ret st (dd_print_stats w)))
        (\<lambda>status w. status = EXIT_SUCCESS \<longrightarrow> ?P w \<and> (conv c (C_FSYNC OR C_FDATASYNC) \<longrightarrow> synced w)) (\<lambda>_. True)"
      proof (rule outcome_bind [OF cleanup_outcome])
        fix v and w2 :: "'h st"
        assume q: "quiet_step (evict_cache w1) w2 \<and> (conv (cfg (fst (evict_cache w1))) (C_FSYNC OR C_FDATASYNC) \<longrightarrow> synced w2)"
        have "?P (dd_print_stats w2) \<and> (conv c (C_FSYNC OR C_FDATASYNC) \<longrightarrow> synced (dd_print_stats w2))" if "st = EXIT_SUCCESS"
        proof -
          have p: "?P (evict_cache w1)" using d that file_copied_evict by blast
          then have "conv (cfg (fst (evict_cache w1))) = conv c" using requestD(6) [of "cfg (fst (evict_cache w1))" c] by (auto simp: file_copied_def)
          then have "conv c (C_FSYNC OR C_FDATASYNC) \<longrightarrow> synced (dd_print_stats w2)"
            using q synced_idle [OF idle_print, of w2] by simp
          then show ?thesis
            using file_copied_quiet [OF quiet_step_trans [OF conjunct1 [OF q] quiet_dd_print_stats] p] by blast
        qed
        then show "outcome (Ret st (dd_print_stats w2))
          (\<lambda>status w. status = EXIT_SUCCESS \<longrightarrow> ?P w \<and> (conv c (C_FSYNC OR C_FDATASYNC) \<longrightarrow> synced w)) (\<lambda>_. True)" by simp
      qed
    qed
  qed
  then show ?thesis using assms(2,10) by (simp add: dd_execute_def)
qed


text \<open>A file of one byte, skipped over nothing, copied behind the three bytes of an existing target, and flushed.\<close>

definition two_files :: kern where
  "two_files = (file_to_file [])\<lparr>plat := plat0\<lparr>files :=
     [''a'' \<mapsto> \<lparr>f_data = [7], f_type = S_IFREG, f_seek = True\<rparr>, ''b'' \<mapsto> \<lparr>f_data = [1, 2, 3], f_type = S_IFREG, f_seek = True\<rparr>]\<rparr>\<rparr>"

definition one_byte_copy :: dd_config where
  "one_byte_copy = dd_init_default_config\<lparr>input_file := Some ''a'', output_file := Some ''b'', blocksize := 2, seek_bytes := 3,
     conversions_mask := C_FSYNC, engine := ENGINE_SYNC\<rparr>"


text \<open>And that run does end with status 0.\<close>

lemma one_byte_copy_succeeds:
  "case dd_execute (Suc (Suc (Suc (Suc 0)))) (\<lambda>_. None, None, None) list_hash (ctx0 [] 0 one_byte_copy, two_files) of
     Ret status w \<Rightarrow> status = EXIT_SUCCESS \<and> out_data (snd w) = [1, 2, 3, 7] \<and> stable (snd w) = [1, 2, 3, 7]
   | _ \<Rightarrow> False"
  by (simp add: copy_eval dd_execute_def setup_streams_def setup_input_stream_def open_input_def fd_reopen_def retry_on_eintr.simps
      next_err_def sys_open_def open_as_def two_files_def one_byte_copy_def probe_input_def sys_lseek_def setup_output_stream_def
      guard_refuses_def check_target_safety_def evaluate_target_safety_def open_output_def open_opts_def start_clock_def gethrxtime_def
      skip_def evict_cache_def dd_engine_cleanup_def dd_synchronize_output_def fsync_step_def sync_call_def close_streams_def iclose_def
      dd_print_stats_def clear_progress_def emit_def)

end
