(* ===== verification/TuiForm.thy ===== *)
theory TuiForm
  imports Complex_Main Args
begin

text \<open>
  The form of the text interface: the enumerations and the record of \<open>src/src/tui/tui_render.h\<close>, its initial
  value and the command line it stands for (\<open>src/src/tui/tui_render.c\<close>), and the moves of the focus
  (\<open>src/src/tui/tui_nav.c\<close>). A \<open>char\<close> array is the string in it, without the terminating NUL; what
  \<open>snprintf\<close> cuts off is written out.
\<close>

section \<open>Enumerations\<close>

datatype tui_engine_mode =
  TUI_ENGINE_AUTO | TUI_ENGINE_URING | TUI_ENGINE_ASYNC | TUI_ENGINE_REFLINK | TUI_ENGINE_SPLICE
| TUI_ENGINE_SYNC | TUI_ENGINE_COUNT

datatype tui_field_id =
  FIELD_IF | FIELD_IF_SEARCH_FILE | FIELD_IF_SEARCH_DEV | FIELD_IF_SEARCH_PIPE
| FIELD_OF | FIELD_OF_SEARCH_FILE | FIELD_OF_SEARCH_DEV | FIELD_OF_SEARCH_PIPE
| FIELD_ENGINE | FIELD_QUEUE_DEPTH | FIELD_BS | FIELD_LIMIT | FIELD_COUNT | FIELD_SKIP | FIELD_SEEK
| FIELD_OPT_AUTOTUNE | FIELD_OPT_SHA256 | FIELD_OPT_DIRECT | FIELD_OPT_FORCE | FIELD_OPT_SPARSE
| FIELD_OPT_SYNC | FIELD_OPT_DRY_RUN | FIELD_STATUS | FIELD_BTN_START | FIELD_BTN_SIMULATE
| FIELD_BTN_COPY | FIELD_BTN_QUIT | FIELD_COUNT_TOTAL

text \<open>C takes an enumerator for its position; arithmetic on one goes through the position and back.\<close>

definition engine_modes :: "tui_engine_mode list" where
  "engine_modes = [TUI_ENGINE_AUTO, TUI_ENGINE_URING, TUI_ENGINE_ASYNC, TUI_ENGINE_REFLINK, TUI_ENGINE_SPLICE,
     TUI_ENGINE_SYNC, TUI_ENGINE_COUNT]"

definition field_ids :: "tui_field_id list" where
  "field_ids = [FIELD_IF, FIELD_IF_SEARCH_FILE, FIELD_IF_SEARCH_DEV, FIELD_IF_SEARCH_PIPE,
     FIELD_OF, FIELD_OF_SEARCH_FILE, FIELD_OF_SEARCH_DEV, FIELD_OF_SEARCH_PIPE,
     FIELD_ENGINE, FIELD_QUEUE_DEPTH, FIELD_BS, FIELD_LIMIT, FIELD_COUNT, FIELD_SKIP, FIELD_SEEK,
     FIELD_OPT_AUTOTUNE, FIELD_OPT_SHA256, FIELD_OPT_DIRECT, FIELD_OPT_FORCE, FIELD_OPT_SPARSE,
     FIELD_OPT_SYNC, FIELD_OPT_DRY_RUN, FIELD_STATUS, FIELD_BTN_START, FIELD_BTN_SIMULATE,
     FIELD_BTN_COPY, FIELD_BTN_QUIT, FIELD_COUNT_TOTAL]"

fun position :: "'a list \<Rightarrow> 'a \<Rightarrow> nat" where
  "position [] x = 0"
| "position (y # ys) x = (if x = y then 0 else Suc (position ys x))"

lemma nth_position: "x \<in> set xs \<Longrightarrow> xs ! position xs x = x"
  by (induction xs) auto

lemma position_less: "x \<in> set xs \<Longrightarrow> position xs x < length xs"
  by (induction xs) auto

lemma position_nth: "distinct xs \<Longrightarrow> n < length xs \<Longrightarrow> position xs (xs ! n) = n"
  by (induction xs arbitrary: n) (auto simp: nth_Cons split: nat.splits)

lemma field_ids_distinct [simp]: "distinct field_ids"
  by (simp add: field_ids_def)

lemma length_field_ids [simp]: "length field_ids = 28"
  by (simp add: field_ids_def)

lemma field_ids_all [simp]: "f \<in> set field_ids"
  by (cases f) (simp_all add: field_ids_def)

lemma engine_modes_all [simp]: "e \<in> set engine_modes"
  by (cases e) (simp_all add: engine_modes_def)

text \<open>The fields compare as their positions do, and there are finitely many.\<close>

instantiation tui_field_id :: linorder
begin

definition less_eq_tui_field_id :: "tui_field_id \<Rightarrow> tui_field_id \<Rightarrow> bool" where
  "f \<le> g \<longleftrightarrow> position field_ids f \<le> position field_ids g"

definition less_tui_field_id :: "tui_field_id \<Rightarrow> tui_field_id \<Rightarrow> bool" where
  "f < g \<longleftrightarrow> position field_ids f < position field_ids g"

instance
proof
  fix x y z :: tui_field_id
  show "x < y \<longleftrightarrow> x \<le> y \<and> \<not> y \<le> x"
    unfolding less_eq_tui_field_id_def less_tui_field_id_def by linarith
  show "x \<le> x" unfolding less_eq_tui_field_id_def by (rule le_refl)
  show "x \<le> y \<or> y \<le> x" unfolding less_eq_tui_field_id_def by linarith
  show "x \<le> y \<Longrightarrow> y \<le> z \<Longrightarrow> x \<le> z"
    unfolding less_eq_tui_field_id_def by (rule le_trans)
  show "x = y" if "x \<le> y" "y \<le> x"
  proof -
    have "position field_ids x = position field_ids y"
      using that unfolding less_eq_tui_field_id_def by (rule le_antisym)
    then show ?thesis by (metis nth_position [OF field_ids_all])
  qed
qed

end

instantiation tui_field_id :: enum
begin

definition enum_tui_field_id :: "tui_field_id list" where "enum_tui_field_id = field_ids"

definition enum_all_tui_field_id :: "(tui_field_id \<Rightarrow> bool) \<Rightarrow> bool" where
  "enum_all_tui_field_id P = list_all P field_ids"

definition enum_ex_tui_field_id :: "(tui_field_id \<Rightarrow> bool) \<Rightarrow> bool" where
  "enum_ex_tui_field_id P = list_ex P field_ids"

instance
  by standard
    (auto simp: enum_tui_field_id_def enum_all_tui_field_id_def enum_ex_tui_field_id_def list_all_iff list_ex_iff)

end

section \<open>Moving the focus\<close>

fun tui_nav_right :: "tui_field_id \<Rightarrow> tui_field_id" where
  "tui_nav_right FIELD_IF = FIELD_IF_SEARCH_FILE"
| "tui_nav_right FIELD_IF_SEARCH_FILE = FIELD_IF_SEARCH_DEV"
| "tui_nav_right FIELD_IF_SEARCH_DEV = FIELD_IF_SEARCH_PIPE"
| "tui_nav_right FIELD_IF_SEARCH_PIPE = FIELD_IF"
| "tui_nav_right FIELD_OF = FIELD_OF_SEARCH_FILE"
| "tui_nav_right FIELD_OF_SEARCH_FILE = FIELD_OF_SEARCH_DEV"
| "tui_nav_right FIELD_OF_SEARCH_DEV = FIELD_OF_SEARCH_PIPE"
| "tui_nav_right FIELD_OF_SEARCH_PIPE = FIELD_OF"
| "tui_nav_right FIELD_ENGINE = FIELD_QUEUE_DEPTH"
| "tui_nav_right FIELD_QUEUE_DEPTH = FIELD_ENGINE"
| "tui_nav_right FIELD_BS = FIELD_BS"
| "tui_nav_right FIELD_LIMIT = FIELD_LIMIT"
| "tui_nav_right FIELD_COUNT = FIELD_SKIP"
| "tui_nav_right FIELD_SKIP = FIELD_SEEK"
| "tui_nav_right FIELD_SEEK = FIELD_COUNT"
| "tui_nav_right FIELD_OPT_AUTOTUNE = FIELD_OPT_SHA256"
| "tui_nav_right FIELD_OPT_SHA256 = FIELD_OPT_AUTOTUNE"
| "tui_nav_right FIELD_OPT_DIRECT = FIELD_OPT_FORCE"
| "tui_nav_right FIELD_OPT_FORCE = FIELD_OPT_DIRECT"
| "tui_nav_right FIELD_OPT_SPARSE = FIELD_OPT_SYNC"
| "tui_nav_right FIELD_OPT_SYNC = FIELD_OPT_SPARSE"
| "tui_nav_right FIELD_OPT_DRY_RUN = FIELD_OPT_DRY_RUN"
| "tui_nav_right FIELD_STATUS = FIELD_STATUS"
| "tui_nav_right FIELD_BTN_START = FIELD_BTN_SIMULATE"
| "tui_nav_right FIELD_BTN_SIMULATE = FIELD_BTN_COPY"
| "tui_nav_right FIELD_BTN_COPY = FIELD_BTN_QUIT"
| "tui_nav_right FIELD_BTN_QUIT = FIELD_BTN_START"
| "tui_nav_right cur = cur"

fun tui_nav_left :: "tui_field_id \<Rightarrow> tui_field_id" where
  "tui_nav_left FIELD_IF_SEARCH_PIPE = FIELD_IF_SEARCH_DEV"
| "tui_nav_left FIELD_IF_SEARCH_DEV = FIELD_IF_SEARCH_FILE"
| "tui_nav_left FIELD_IF_SEARCH_FILE = FIELD_IF"
| "tui_nav_left FIELD_IF = FIELD_IF_SEARCH_PIPE"
| "tui_nav_left FIELD_OF_SEARCH_PIPE = FIELD_OF_SEARCH_DEV"
| "tui_nav_left FIELD_OF_SEARCH_DEV = FIELD_OF_SEARCH_FILE"
| "tui_nav_left FIELD_OF_SEARCH_FILE = FIELD_OF"
| "tui_nav_left FIELD_OF = FIELD_OF_SEARCH_PIPE"
| "tui_nav_left FIELD_ENGINE = FIELD_QUEUE_DEPTH"
| "tui_nav_left FIELD_QUEUE_DEPTH = FIELD_ENGINE"
| "tui_nav_left FIELD_BS = FIELD_BS"
| "tui_nav_left FIELD_LIMIT = FIELD_LIMIT"
| "tui_nav_left FIELD_SEEK = FIELD_SKIP"
| "tui_nav_left FIELD_SKIP = FIELD_COUNT"
| "tui_nav_left FIELD_COUNT = FIELD_SEEK"
| "tui_nav_left FIELD_OPT_SHA256 = FIELD_OPT_AUTOTUNE"
| "tui_nav_left FIELD_OPT_AUTOTUNE = FIELD_OPT_SHA256"
| "tui_nav_left FIELD_OPT_FORCE = FIELD_OPT_DIRECT"
| "tui_nav_left FIELD_OPT_DIRECT = FIELD_OPT_FORCE"
| "tui_nav_left FIELD_OPT_SYNC = FIELD_OPT_SPARSE"
| "tui_nav_left FIELD_OPT_SPARSE = FIELD_OPT_SYNC"
| "tui_nav_left FIELD_OPT_DRY_RUN = FIELD_OPT_DRY_RUN"
| "tui_nav_left FIELD_STATUS = FIELD_STATUS"
| "tui_nav_left FIELD_BTN_QUIT = FIELD_BTN_COPY"
| "tui_nav_left FIELD_BTN_COPY = FIELD_BTN_SIMULATE"
| "tui_nav_left FIELD_BTN_SIMULATE = FIELD_BTN_START"
| "tui_nav_left FIELD_BTN_START = FIELD_BTN_QUIT"
| "tui_nav_left cur = cur"

fun tui_nav_down :: "tui_field_id \<Rightarrow> tui_field_id" where
  "tui_nav_down FIELD_IF = FIELD_OF"
| "tui_nav_down FIELD_IF_SEARCH_FILE = FIELD_OF_SEARCH_FILE"
| "tui_nav_down FIELD_IF_SEARCH_DEV = FIELD_OF_SEARCH_DEV"
| "tui_nav_down FIELD_IF_SEARCH_PIPE = FIELD_OF_SEARCH_PIPE"
| "tui_nav_down FIELD_OF = FIELD_ENGINE"
| "tui_nav_down FIELD_OF_SEARCH_FILE = FIELD_ENGINE"
| "tui_nav_down FIELD_OF_SEARCH_DEV = FIELD_ENGINE"
| "tui_nav_down FIELD_OF_SEARCH_PIPE = FIELD_ENGINE"
| "tui_nav_down FIELD_ENGINE = FIELD_BS"
| "tui_nav_down FIELD_QUEUE_DEPTH = FIELD_BS"
| "tui_nav_down FIELD_BS = FIELD_LIMIT"
| "tui_nav_down FIELD_LIMIT = FIELD_COUNT"
| "tui_nav_down FIELD_COUNT = FIELD_OPT_AUTOTUNE"
| "tui_nav_down FIELD_SKIP = FIELD_OPT_SHA256"
| "tui_nav_down FIELD_SEEK = FIELD_OPT_SHA256"
| "tui_nav_down FIELD_OPT_AUTOTUNE = FIELD_OPT_DIRECT"
| "tui_nav_down FIELD_OPT_SHA256 = FIELD_OPT_FORCE"
| "tui_nav_down FIELD_OPT_DIRECT = FIELD_OPT_SPARSE"
| "tui_nav_down FIELD_OPT_FORCE = FIELD_OPT_SYNC"
| "tui_nav_down FIELD_OPT_SPARSE = FIELD_OPT_DRY_RUN"
| "tui_nav_down FIELD_OPT_SYNC = FIELD_OPT_DRY_RUN"
| "tui_nav_down FIELD_OPT_DRY_RUN = FIELD_STATUS"
| "tui_nav_down FIELD_STATUS = FIELD_BTN_START"
| "tui_nav_down FIELD_BTN_START = FIELD_IF"
| "tui_nav_down FIELD_BTN_SIMULATE = FIELD_IF_SEARCH_FILE"
| "tui_nav_down FIELD_BTN_COPY = FIELD_IF_SEARCH_DEV"
| "tui_nav_down FIELD_BTN_QUIT = FIELD_IF_SEARCH_PIPE"
| "tui_nav_down cur = cur"

fun tui_nav_up :: "tui_field_id \<Rightarrow> tui_field_id" where
  "tui_nav_up FIELD_IF = FIELD_BTN_START"
| "tui_nav_up FIELD_IF_SEARCH_FILE = FIELD_BTN_SIMULATE"
| "tui_nav_up FIELD_IF_SEARCH_DEV = FIELD_BTN_COPY"
| "tui_nav_up FIELD_IF_SEARCH_PIPE = FIELD_BTN_QUIT"
| "tui_nav_up FIELD_OF = FIELD_IF"
| "tui_nav_up FIELD_OF_SEARCH_FILE = FIELD_IF_SEARCH_FILE"
| "tui_nav_up FIELD_OF_SEARCH_DEV = FIELD_IF_SEARCH_DEV"
| "tui_nav_up FIELD_OF_SEARCH_PIPE = FIELD_IF_SEARCH_PIPE"
| "tui_nav_up FIELD_ENGINE = FIELD_OF"
| "tui_nav_up FIELD_QUEUE_DEPTH = FIELD_OF"
| "tui_nav_up FIELD_BS = FIELD_ENGINE"
| "tui_nav_up FIELD_LIMIT = FIELD_BS"
| "tui_nav_up FIELD_COUNT = FIELD_LIMIT"
| "tui_nav_up FIELD_SKIP = FIELD_LIMIT"
| "tui_nav_up FIELD_SEEK = FIELD_LIMIT"
| "tui_nav_up FIELD_OPT_AUTOTUNE = FIELD_COUNT"
| "tui_nav_up FIELD_OPT_SHA256 = FIELD_SKIP"
| "tui_nav_up FIELD_OPT_DIRECT = FIELD_OPT_AUTOTUNE"
| "tui_nav_up FIELD_OPT_FORCE = FIELD_OPT_SHA256"
| "tui_nav_up FIELD_OPT_SPARSE = FIELD_OPT_DIRECT"
| "tui_nav_up FIELD_OPT_SYNC = FIELD_OPT_FORCE"
| "tui_nav_up FIELD_OPT_DRY_RUN = FIELD_OPT_SPARSE"
| "tui_nav_up FIELD_STATUS = FIELD_OPT_DRY_RUN"
| "tui_nav_up FIELD_BTN_START = FIELD_STATUS"
| "tui_nav_up FIELD_BTN_SIMULATE = FIELD_STATUS"
| "tui_nav_up FIELD_BTN_COPY = FIELD_STATUS"
| "tui_nav_up FIELD_BTN_QUIT = FIELD_STATUS"
| "tui_nav_up cur = cur"

text \<open>The keys that move the focus, as \<open>main\<close> of \<open>src/src/tui/tui_main.c\<close> maps them: arrows, tab and back-tab.\<close>

definition tab_next :: "tui_field_id \<Rightarrow> tui_field_id" where
  "tab_next f = field_ids ! ((position field_ids f + 1) mod position field_ids FIELD_COUNT_TOTAL)"

definition tab_prev :: "tui_field_id \<Rightarrow> tui_field_id" where
  "tab_prev f = field_ids ! ((position field_ids f + position field_ids FIELD_COUNT_TOTAL - 1)
                               mod position field_ids FIELD_COUNT_TOTAL)"

text \<open>One press of an arrow key.\<close>

inductive arrow :: "tui_field_id \<Rightarrow> tui_field_id \<Rightarrow> bool" where
  up: "arrow f (tui_nav_up f)"
| down: "arrow f (tui_nav_down f)"
| left: "arrow f (tui_nav_left f)"
| right: "arrow f (tui_nav_right f)"

inductive_cases arrowE: "arrow f g"
inductive_simps arrow_total [simp]: "arrow FIELD_COUNT_TOTAL g"

lemma arrow_real: "arrow f g \<Longrightarrow> f \<noteq> FIELD_COUNT_TOTAL \<Longrightarrow> g \<noteq> FIELD_COUNT_TOTAL"
  by (erule arrowE; cases f; simp)

lemma arrow_closed: "arrow\<^sup>*\<^sup>* f g \<Longrightarrow> f \<noteq> FIELD_COUNT_TOTAL \<Longrightarrow> g \<noteq> FIELD_COUNT_TOTAL"
  by (induction rule: rtranclp_induct) (auto dest: arrow_real)

lemma on_fields: "list_all P field_ids \<Longrightarrow> P f"
  using field_ids_all [of f] unfolding list_all_iff by blast

lemma tab_undone: "list_all (\<lambda>f. f = FIELD_COUNT_TOTAL \<or> tab_prev (tab_next f) = f \<and> tab_next (tab_prev f) = f) field_ids"
  by code_simp

text \<open>
  Left undoes right and right undoes left, back-tab undoes tab and tab undoes back-tab, wherever the focus is.
\<close>

theorem tui_nav_undone:
  assumes "f \<noteq> FIELD_COUNT_TOTAL"
  shows "tui_nav_left (tui_nav_right f) = f \<and> tui_nav_right (tui_nav_left f) = f \<and>
    tab_prev (tab_next f) = f \<and> tab_next (tab_prev f) = f"
  using assms on_fields [OF tab_undone, of f] by (cases f) simp_all

theorem tui_nav_undone_witness:
  "tui_nav_left (tui_nav_right FIELD_IF_SEARCH_PIPE) = FIELD_IF_SEARCH_PIPE"
  using tui_nav_undone [of FIELD_IF_SEARCH_PIPE] by simp

lemma arrow_funpow:
  "arrow\<^sup>*\<^sup>* f ((tui_nav_down ^^ n) f)" "arrow\<^sup>*\<^sup>* f ((tui_nav_left ^^ n) f)" "arrow\<^sup>*\<^sup>* f ((tui_nav_right ^^ n) f)"
  by (induction n) (auto intro: rtranclp.rtrancl_into_rtrancl arrow.intros)

text \<open>From the first field every field is so many rows down and so many columns right; and back to it the other way.\<close>

definition grid :: "(tui_field_id \<Rightarrow> nat \<Rightarrow> nat \<Rightarrow> bool) \<Rightarrow> bool" where
  "grid P \<longleftrightarrow> list_all (\<lambda>f. f = FIELD_COUNT_TOTAL \<or> list_ex (\<lambda>n. list_ex (P f n) [0..<4]) [0..<12]) field_ids"

lemma gridD: "grid P \<Longrightarrow> f \<noteq> FIELD_COUNT_TOTAL \<Longrightarrow> \<exists>n m. P f n m"
  unfolding grid_def by (drule on_fields) (auto simp: list_ex_iff)

lemma grid_from: "grid (\<lambda>f n m. (tui_nav_right ^^ m) ((tui_nav_down ^^ n) FIELD_IF) = f)"
  by code_simp

lemma grid_to: "grid (\<lambda>f n m. (tui_nav_down ^^ n) ((tui_nav_left ^^ m) f) = FIELD_IF)"
  by code_simp

text \<open>
  No field is out of reach: with the arrow keys alone the focus gets from any field to any other, and it
  never leaves the form.
\<close>

theorem tui_nav_reaches:
  assumes "f \<noteq> FIELD_COUNT_TOTAL"
  shows "arrow\<^sup>*\<^sup>* f g \<longleftrightarrow> g \<noteq> FIELD_COUNT_TOTAL"
proof
  show "arrow\<^sup>*\<^sup>* f g \<Longrightarrow> g \<noteq> FIELD_COUNT_TOTAL" using arrow_closed assms by blast
  assume g: "g \<noteq> FIELD_COUNT_TOTAL"
  obtain n m where "(tui_nav_down ^^ n) ((tui_nav_left ^^ m) f) = FIELD_IF" using gridD [OF grid_to assms] by blast
  then have "arrow\<^sup>*\<^sup>* f FIELD_IF" by (metis arrow_funpow(1,2) rtranclp_trans)
  moreover obtain n' m' where "(tui_nav_right ^^ m') ((tui_nav_down ^^ n') FIELD_IF) = g"
    using gridD [OF grid_from g] by blast
  then have "arrow\<^sup>*\<^sup>* FIELD_IF g" by (metis arrow_funpow(1,3) rtranclp_trans)
  ultimately show "arrow\<^sup>*\<^sup>* f g" by simp
qed

theorem tui_nav_reaches_witness: "arrow\<^sup>*\<^sup>* FIELD_SEEK FIELD_QUEUE_DEPTH"
  using tui_nav_reaches [of FIELD_SEEK FIELD_QUEUE_DEPTH] by simp

section \<open>The form\<close>

text \<open>The sizes of the arrays, as \<open>sizeof\<close> gives them.\<close>

abbreviation (input) sizeof_path :: nat where "sizeof_path \<equiv> 512"
abbreviation (input) sizeof_queue_depth :: nat where "sizeof_queue_depth \<equiv> 32"
abbreviation (input) sizeof_number :: nat where "sizeof_number \<equiv> 64"
abbreviation (input) sizeof_status_msg :: nat where "sizeof_status_msg \<equiv> 128"

record tui_form =
  if_path :: string
  if_is_pipe :: bool
  of_path :: string
  of_is_pipe :: bool
  fm_engine :: tui_engine_mode
  queue_depth :: string
  fm_bs :: string
  fm_limit :: string
  fm_count :: string
  fm_skip :: string
  fm_seek :: string
  opt_autotune :: bool
  opt_sha256 :: bool
  opt_direct :: bool
  opt_force :: bool
  opt_sparse :: bool
  opt_sync :: bool
  opt_dry_run :: bool
  status_mode :: int
  running :: bool
  progress_pct :: rat
  bytes_copied :: "64 word"
  speed_mb_s :: rat
  eta_str :: string
  sha256_result :: string
  status_msg :: string
  active_field :: tui_field_id

text \<open>\<open>snprintf (buf, size, \<dots>)\<close> with the formatted text \<open>s\<close>.\<close>

definition snprintf :: "nat \<Rightarrow> string \<Rightarrow> string" where
  "snprintf sz s = take (sz - 1) s"

definition set_msg :: "string \<Rightarrow> tui_form \<Rightarrow> tui_form" where
  "set_msg m form = form\<lparr>status_msg := snprintf sizeof_status_msg m\<rparr>"

definition tui_init_form :: tui_form where
  "tui_init_form =
     \<lparr>if_path = [], if_is_pipe = False, of_path = [], of_is_pipe = False, fm_engine = TUI_ENGINE_AUTO,
      queue_depth = snprintf sizeof_queue_depth ''auto'', fm_bs = snprintf sizeof_number ''auto'',
      fm_limit = [], fm_count = [], fm_skip = [], fm_seek = [],
      opt_autotune = True, opt_sha256 = False, opt_direct = False, opt_force = False, opt_sparse = False,
      opt_sync = False, opt_dry_run = False, status_mode = 2,
      running = False, progress_pct = 0, bytes_copied = 0, speed_mb_s = 0, eta_str = [], sha256_result = [],
      status_msg = snprintf sizeof_status_msg ''Bereit. Waehle Input/Output und druecke START.'',
      active_field = FIELD_IF\<rparr>"

section \<open>The command line of a form\<close>

text \<open>One more piece at the end of \<open>buf[1024]\<close>: \<open>snprintf (buf + strlen (buf), sizeof (buf) - strlen (buf), \<dots>)\<close>.\<close>

definition add_piece :: "string \<Rightarrow> string \<Rightarrow> string" where
  "add_piece s buf = buf @ snprintf (1024 - length buf) s"

definition engine_piece :: "tui_engine_mode \<Rightarrow> string" where
  "engine_piece e =
     (case e of
        TUI_ENGINE_URING \<Rightarrow> '' -e uring''
      | TUI_ENGINE_ASYNC \<Rightarrow> '' -e async''
      | TUI_ENGINE_REFLINK \<Rightarrow> '' -e reflink''
      | TUI_ENGINE_SPLICE \<Rightarrow> '' -e splice''
      | TUI_ENGINE_SYNC \<Rightarrow> '' -e sync''
      | _ \<Rightarrow> [])"

definition input_pieces :: "tui_form \<Rightarrow> string \<times> string" where
  "input_pieces form =
     (if if_is_pipe form
      then (if if_path form \<noteq> [] \<and> \<not> streq (if_path form) ''stdin'' \<and> \<not> streq (if_path form) ''-''
            then snprintf 600 (take 500 (if_path form) @ '' | '') else [], [])
      else ([], if if_path form \<noteq> [] then '' -i \"'' @ take 500 (if_path form) @ ''\"'' else []))"

definition output_pieces :: "tui_form \<Rightarrow> string \<times> string" where
  "output_pieces form =
     (if of_is_pipe form
      then (if of_path form \<noteq> [] \<and> \<not> streq (of_path form) ''stdout'' \<and> \<not> streq (of_path form) ''-''
            then snprintf 600 ('' | '' @ take 500 (of_path form)) else [], [])
      else ([], if of_path form \<noteq> [] then '' -o \"'' @ take 500 (of_path form) @ ''\"'' else []))"

definition status_piece :: "int \<Rightarrow> string" where
  "status_piece m = (if m = 0 then '' -q'' else if m = 2 then '' -p'' else if m = 3 then '' --json'' else [])"

text \<open>The pieces after the binary, in the order of the code; a piece that does not apply is empty.\<close>

definition command_pieces :: "tui_form \<Rightarrow> string list" where
  "command_pieces form =
     [snd (input_pieces form), snd (output_pieces form), engine_piece (fm_engine form),
      if queue_depth form \<noteq> [] \<and> \<not> streq (queue_depth form) ''auto'' then '' --queue-depth='' @ queue_depth form else [],
      if fm_bs form \<noteq> [] then '' -b '' @ fm_bs form else [],
      if fm_limit form \<noteq> [] then '' -l '' @ fm_limit form else [],
      if fm_count form \<noteq> [] then '' -c '' @ fm_count form else [],
      if fm_skip form \<noteq> [] then '' --skip='' @ fm_skip form else [],
      if fm_seek form \<noteq> [] then '' --seek='' @ fm_seek form else [],
      if opt_autotune form \<and> \<not> streq (fm_bs form) ''auto'' then '' --autotune'' else [],
      if opt_sha256 form then '' --hash'' else [],
      if opt_direct form then '' --direct'' else [],
      if opt_sparse form then '' --sparse'' else [],
      if opt_sync form then '' --sync'' else [],
      if opt_force form then '' -f'' else [],
      if opt_dry_run form then '' -n'' else [],
      status_piece (status_mode form)]"

definition tui_build_command :: "tui_form \<Rightarrow> string option \<Rightarrow> nat \<Rightarrow> string" where
  "tui_build_command form blkcp_bin cmd_len =
     (let bin = (case blkcp_bin of Some b \<Rightarrow> if b \<noteq> [] then b else ''./blkcp'' | None \<Rightarrow> ''./blkcp'');
          buf = fold add_piece (command_pieces form) (snprintf 1024 bin)
      in snprintf cmd_len (fst (input_pieces form) @ buf @ fst (output_pieces form)))"

end
