(* ===== verification/TuiCommand.thy ===== *)
theory TuiCommand
  imports TuiForm
begin

text \<open>
  The command line \<open>tui_build_command\<close> (\<open>src/src/tui/tui_render.c\<close>) writes, read back by the program it
  starts: the shell splits it into words, \<open>getopt_long\<close> finds the options among them, and \<open>dd_scanargs\<close>
  (theory Args) turns those into a configuration. The shell and \<open>getopt_long\<close> are not in the repository: they
  are functions \<open>sh\<close> and \<open>getopt\<close>, of which only what POSIX and GNU document for simple commands is assumed.
\<close>

section \<open>Words and the shell\<close>

text \<open>A word of a simple command, as it is written: bare, or in double quotes.\<close>

datatype word_form = Bare string | Quoted string

fun word_text :: "word_form \<Rightarrow> string" where
  "word_text (Bare s) = s"
| "word_text (Quoted s) = ''\"'' @ s @ ''\"''"

fun word_value :: "word_form \<Rightarrow> string" where
  "word_value (Bare s) = s"
| "word_value (Quoted s) = s"

text \<open>Characters without a meaning of their own to the shell, bare and inside double quotes.\<close>

definition bare_char :: "char \<Rightarrow> bool" where
  "bare_char c \<longleftrightarrow> c \<in> set ''abcdefghijklmnopqrstuvwxyzABCDEFGHIJKLMNOPQRSTUVWXYZ0123456789-_./=:,+@''"

definition quoted_char :: "char \<Rightarrow> bool" where
  "quoted_char c \<longleftrightarrow> c \<notin> {CHR ''\"'', CHR ''$'', CHR 0x60, CHR 0x5C, CHR 0x00}"

fun word_ok :: "word_form \<Rightarrow> bool" where
  "word_ok (Bare s) \<longleftrightarrow> s \<noteq> [] \<and> list_all bare_char s"
| "word_ok (Quoted s) \<longleftrightarrow> list_all quoted_char s"

definition words_text :: "word_form list \<Rightarrow> string" where
  "words_text ws = concat (map (\<lambda>w. '' '' @ word_text w) ws)"

text \<open>
  A path that the shell takes for the name of a command: bare characters, a slash, and no \<open>=\<close>, which could make
  an assignment of it.
\<close>

definition command_name :: "string \<Rightarrow> bool" where
  "command_name b \<longleftrightarrow> list_all bare_char b \<and> CHR ''/'' \<in> set b \<and> CHR ''='' \<notin> set b"

text \<open>\<open>sh\<close> maps the text of a simple command to its words; quotes are removed, nothing else happens to them.\<close>

definition posix_shell :: "(string \<Rightarrow> string list) \<Rightarrow> bool" where
  "posix_shell sh \<longleftrightarrow>
     (\<forall>bin ws. command_name bin \<longrightarrow> list_all word_ok ws \<longrightarrow> sh (bin @ words_text ws) = bin # map word_value ws)"

section \<open>getopt_long\<close>

text \<open>The short options, \<open>"i:o:b:e:l:s:c:j:pqfnhv"\<close>.\<close>

definition short_options :: "(char \<times> has_arg \<times> optcode) list" where
  "short_options =
    [(CHR ''i'', required_argument, OPT_i), (CHR ''o'', required_argument, OPT_o),
     (CHR ''b'', required_argument, OPT_b), (CHR ''e'', required_argument, OPT_e),
     (CHR ''l'', required_argument, OPT_l), (CHR ''s'', required_argument, OPT_s),
     (CHR ''c'', required_argument, OPT_c), (CHR ''j'', required_argument, OPT_j),
     (CHR ''p'', no_argument, OPT_p), (CHR ''q'', no_argument, OPT_q), (CHR ''f'', no_argument, OPT_f),
     (CHR ''n'', no_argument, OPT_n), (CHR ''h'', no_argument, OPT_h), (CHR ''v'', no_argument, OPT_v)]"

text \<open>An option as it is written, and its words.\<close>

datatype opt_item = ShortFlag char | ShortArg char word_form | LongFlag string | LongArg string string

fun item_words :: "opt_item \<Rightarrow> word_form list" where
  "item_words (ShortFlag c) = [Bare [CHR ''-'', c]]"
| "item_words (ShortArg c a) = [Bare [CHR ''-'', c], a]"
| "item_words (LongFlag n) = [Bare (''--'' @ n)]"
| "item_words (LongArg n a) = [Bare (''--'' @ n @ ''='' @ a)]"

definition item_argv :: "opt_item \<Rightarrow> string list" where
  "item_argv i = map word_value (item_words i)"

text \<open>What \<open>getopt_long\<close> returns for it; \<open>None\<close> where the tables do not have it in that form.\<close>

fun item_result :: "opt_item \<Rightarrow> (optcode \<times> string option) option" where
  "item_result (ShortFlag c) =
     (case map_of short_options c of Some (no_argument, code) \<Rightarrow> Some (code, None) | _ \<Rightarrow> None)"
| "item_result (ShortArg c a) =
     (case map_of short_options c of Some (required_argument, code) \<Rightarrow> Some (code, Some (word_value a)) | _ \<Rightarrow> None)"
| "item_result (LongFlag n) =
     (case map_of modern_long_options n of
        Some (no_argument, code) \<Rightarrow> Some (code, None)
      | Some (optional_argument, code) \<Rightarrow> Some (code, None)
      | _ \<Rightarrow> None)"
| "item_result (LongArg n a) =
     (case map_of modern_long_options n of
        Some (required_argument, code) \<Rightarrow> Some (code, Some a)
      | Some (optional_argument, code) \<Rightarrow> Some (code, Some a)
      | _ \<Rightarrow> None)"

text \<open>
  \<open>getopt\<close> maps the arguments to the options it returns one after the other and the operands left. A line of
  options that the tables know, each in the form they give it, is read as these options.
\<close>

definition gnu_getopt :: "(string list \<Rightarrow> (optcode \<times> string option) list \<times> string list) \<Rightarrow> bool" where
  "gnu_getopt getopt \<longleftrightarrow>
     (\<forall>items rs. map item_result items = map Some rs \<longrightarrow> getopt (concat (map item_argv items)) = (rs, []))"

text \<open>The command line of a text as \<open>blkcp\<close> reads it.\<close>

definition read_command ::
  "(string \<Rightarrow> string list) \<Rightarrow> (string list \<Rightarrow> (optcode \<times> string option) list \<times> string list) \<Rightarrow> xstrtoumax
     \<Rightarrow> string \<Rightarrow> arg_exit + (dd_config \<times> bool \<times> bool)" where
  "read_command sh getopt xs cmd =
     (case getopt (tl (sh cmd)) of (opts, operands) \<Rightarrow> dd_scanargs xs opts operands dd_init_default_config)"

section \<open>The options of a form\<close>

definition opt_when :: "bool \<Rightarrow> opt_item \<Rightarrow> opt_item list" where
  "opt_when b i = (if b then [i] else [])"

definition engine_word :: "tui_engine_mode \<Rightarrow> string option" where
  "engine_word e =
     (case e of
        TUI_ENGINE_URING \<Rightarrow> Some ''uring'' | TUI_ENGINE_ASYNC \<Rightarrow> Some ''async''
      | TUI_ENGINE_REFLINK \<Rightarrow> Some ''reflink'' | TUI_ENGINE_SPLICE \<Rightarrow> Some ''splice''
      | TUI_ENGINE_SYNC \<Rightarrow> Some ''sync'' | _ \<Rightarrow> None)"

definition form_options :: "tui_form \<Rightarrow> opt_item list list" where
  "form_options form =
     [opt_when (\<not> if_is_pipe form \<and> if_path form \<noteq> []) (ShortArg CHR ''i'' (Quoted (if_path form))),
      opt_when (\<not> of_is_pipe form \<and> of_path form \<noteq> []) (ShortArg CHR ''o'' (Quoted (of_path form))),
      (case engine_word (fm_engine form) of None \<Rightarrow> [] | Some w \<Rightarrow> [ShortArg CHR ''e'' (Bare w)]),
      opt_when (queue_depth form \<noteq> [] \<and> queue_depth form \<noteq> ''auto'') (LongArg ''queue-depth'' (queue_depth form)),
      opt_when (fm_bs form \<noteq> []) (ShortArg CHR ''b'' (Bare (fm_bs form))),
      opt_when (fm_limit form \<noteq> []) (ShortArg CHR ''l'' (Bare (fm_limit form))),
      opt_when (fm_count form \<noteq> []) (ShortArg CHR ''c'' (Bare (fm_count form))),
      opt_when (fm_skip form \<noteq> []) (LongArg ''skip'' (fm_skip form)),
      opt_when (fm_seek form \<noteq> []) (LongArg ''seek'' (fm_seek form)),
      opt_when (opt_autotune form \<and> fm_bs form \<noteq> ''auto'') (LongFlag ''autotune''),
      opt_when (opt_sha256 form) (LongFlag ''hash''),
      opt_when (opt_direct form) (LongFlag ''direct''),
      opt_when (opt_sparse form) (LongFlag ''sparse''),
      opt_when (opt_sync form) (LongFlag ''sync''),
      opt_when (opt_force form) (ShortFlag CHR ''f''),
      opt_when (opt_dry_run form) (ShortFlag CHR ''n''),
      (if status_mode form = 0 then [ShortFlag CHR ''q''] else if status_mode form = 2 then [ShortFlag CHR ''p'']
       else if status_mode form = 3 then [LongFlag ''json''] else [])]"

text \<open>
  A form in the reach of the round trip: no other program in the pipeline, paths of at most 500 characters that
  double quotes protect, numbers of bare characters.
\<close>

definition plain_form :: "tui_form \<Rightarrow> bool" where
  "plain_form form \<longleftrightarrow>
     (if_is_pipe form \<longrightarrow> if_path form \<in> {[], ''stdin'', ''-''}) \<and>
     (of_is_pipe form \<longrightarrow> of_path form \<in> {[], ''stdout'', ''-''}) \<and>
     length (if_path form) \<le> 500 \<and> length (of_path form) \<le> 500 \<and>
     list_all quoted_char (if_path form) \<and> list_all quoted_char (of_path form) \<and>
     list_all (list_all bare_char) [queue_depth form, fm_bs form, fm_limit form, fm_count form, fm_skip form, fm_seek form]"

definition command_text :: "string \<Rightarrow> tui_form \<Rightarrow> string" where
  "command_text bin form = bin @ words_text (concat (map item_words (concat (form_options form))))"

section \<open>The text of the command\<close>

lemma words_text_append [simp]: "words_text (a @ b) = words_text a @ words_text b"
  by (simp add: words_text_def)

lemma words_text_simps [simp]: "words_text [] = []" "words_text (w # ws) = '' '' @ word_text w @ words_text ws"
  by (simp_all add: words_text_def)

lemma snprintf_fits: "length s < n \<Longrightarrow> snprintf n s = s"
  by (simp add: snprintf_def)

lemma fold_add_piece:
  "length (buf @ concat ps) < 1024 \<Longrightarrow> fold add_piece ps buf = buf @ concat ps"
  by (induction ps arbitrary: buf) (simp_all add: add_piece_def snprintf_fits)

lemma words_of_options:
  "words_text (concat (map item_words (concat os))) = concat (map (\<lambda>o'. words_text (concat (map item_words o'))) os)"
  by (induction os) simp_all

lemma words_text_when [simp]:
  "words_text (concat (map item_words (opt_when b i))) = (if b then words_text (item_words i) else [])"
  by (simp add: opt_when_def)

lemma engine_piece_words:
  "engine_piece e = words_text (concat (map item_words
     (case engine_word e of None \<Rightarrow> [] | Some w \<Rightarrow> [ShortArg CHR ''e'' (Bare w)])))"
  by (cases e) (simp_all add: engine_piece_def engine_word_def)

lemma status_piece_words:
  "status_piece m = words_text (concat (map item_words
     (if m = 0 then [ShortFlag CHR ''q''] else if m = 2 then [ShortFlag CHR ''p'']
      else if m = 3 then [LongFlag ''json''] else [])))"
  by (simp add: status_piece_def)

lemma input_piece_words:
  "plain_form form \<Longrightarrow> input_pieces form = ([], if \<not> if_is_pipe form \<and> if_path form \<noteq> []
     then words_text (item_words (ShortArg CHR ''i'' (Quoted (if_path form)))) else [])"
  by (auto simp: plain_form_def input_pieces_def streq_def)

lemma output_piece_words:
  "plain_form form \<Longrightarrow> output_pieces form = ([], if \<not> of_is_pipe form \<and> of_path form \<noteq> []
     then words_text (item_words (ShortArg CHR ''o'' (Quoted (of_path form)))) else [])"
  by (auto simp: plain_form_def output_pieces_def streq_def)

lemma command_pieces_options:
  assumes "plain_form form"
  shows "command_pieces form = map (\<lambda>o'. words_text (concat (map item_words o'))) (form_options form)"
  unfolding command_pieces_def form_options_def
  by (simp add: input_piece_words [OF assms] output_piece_words [OF assms] engine_piece_words
      status_piece_words streq_def del: item_words.simps split del: if_split) simp

lemma build_command_text:
  assumes "plain_form form" and "bin \<noteq> []" and "length (command_text bin form) < min 1024 n"
  shows "tui_build_command form (Some bin) n = command_text bin form"
proof -
  have p: "bin @ concat (command_pieces form) = command_text bin form"
    by (simp add: command_pieces_options [OF assms(1)] words_of_options command_text_def)
  have "fst (input_pieces form) = []" "fst (output_pieces form) = []"
    by (simp_all add: input_piece_words [OF assms(1)] output_piece_words [OF assms(1)])
  moreover have "length bin < 1024" using assms(3) by (simp add: command_text_def)
  ultimately show ?thesis
    using assms(2,3) fold_add_piece [of bin "command_pieces form"] p
    by (simp add: tui_build_command_def snprintf_fits)
qed

section \<open>The configuration of a form\<close>

text \<open>The values the form's numbers have, and that the parser accepts them.\<close>

definition number :: "xstrtoumax \<Rightarrow> string \<Rightarrow> int" where
  "number xs s = fst (parse_integer xs s)"

definition good_number :: "xstrtoumax \<Rightarrow> (int \<Rightarrow> bool) \<Rightarrow> string \<Rightarrow> bool" where
  "good_number xs bad s \<longleftrightarrow> snd (parse_integer xs s) = LONGINT_OK \<and> \<not> bad (number xs s)"

definition good_numbers :: "xstrtoumax \<Rightarrow> tui_form \<Rightarrow> bool" where
  "good_numbers xs form \<longleftrightarrow>
     (queue_depth form \<in> {[], ''auto''} \<or> good_number xs (\<lambda>r. r < 2 \<or> r > 1024) (queue_depth form)) \<and>
     (fm_bs form \<in> {[], ''auto'', ''autotune''} \<or> good_number xs (\<lambda>r. r \<le> 0) (fm_bs form)) \<and>
     list_all (\<lambda>s. s = [] \<or> good_number xs (\<lambda>r. r < 0) s) [fm_limit form, fm_count form, fm_skip form, fm_seek form]"

text \<open>What the form means, field by field, without a command line in between.\<close>

definition form_engine :: "tui_engine_mode \<Rightarrow> blkcp_engine \<times> mask" where
  "form_engine e =
     (case e of
        TUI_ENGINE_URING \<Rightarrow> (ENGINE_URING, C_URING) | TUI_ENGINE_ASYNC \<Rightarrow> (ENGINE_ASYNC, C_ASYNC)
      | TUI_ENGINE_REFLINK \<Rightarrow> (ENGINE_REFLINK, C_REFLINK) | TUI_ENGINE_SPLICE \<Rightarrow> (ENGINE_SPLICE, C_SPLICE)
      | TUI_ENGINE_SYNC \<Rightarrow> (ENGINE_SYNC, 0) | _ \<Rightarrow> (ENGINE_AUTO, 0))"

definition form_mask :: "tui_form \<Rightarrow> mask" where
  "form_mask form =
     (let bit = (\<lambda>b (m :: mask). if b then m else 0)
      in snd (form_engine (fm_engine form))
         OR bit (fm_bs form \<in> {''auto'', ''autotune''} \<or> opt_autotune form) C_AUTOTUNE
         OR bit (opt_sha256 form) C_SHA256 OR bit (opt_sparse form) C_SPARSE OR bit (opt_sync form) C_SYNC)"

definition form_blocksize :: "xstrtoumax \<Rightarrow> tui_form \<Rightarrow> int" where
  "form_blocksize xs form =
     (if fm_bs form \<in> {[], ''auto'', ''autotune''} then DEFAULT_BLOCKSIZE else number xs (fm_bs form))"

text \<open>The byte limit: the one given, else the blocks times their size if there are any and that fits.\<close>

definition form_limit :: "xstrtoumax \<Rightarrow> tui_form \<Rightarrow> int option" where
  "form_limit xs form =
     (let bytes = number xs (fm_count form) * form_blocksize xs form
      in if fm_limit form \<noteq> [] then Some (number xs (fm_limit form))
         else if fm_count form \<noteq> [] \<and> number xs (fm_count form) \<noteq> INTMAX_MAX \<and> bytes \<le> INTMAX_MAX then Some bytes
         else None)"

definition form_status :: "int \<Rightarrow> dd_status_level" where
  "form_status m =
     (if m = 0 then STATUS_NONE else if m = 2 then STATUS_PROGRESS else if m = 3 then STATUS_JSON else STATUS_DEFAULT)"

definition form_config :: "xstrtoumax \<Rightarrow> tui_form \<Rightarrow> dd_config" where
  "form_config xs form = dd_init_default_config
     \<lparr>input_file := if \<not> if_is_pipe form \<and> if_path form \<noteq> [] then Some (if_path form) else None,
      output_file := if \<not> of_is_pipe form \<and> of_path form \<noteq> [] then Some (of_path form) else None,
      blocksize := form_blocksize xs form,
      skip_bytes := if fm_skip form \<noteq> [] then number xs (fm_skip form) else 0,
      seek_bytes := if fm_seek form \<noteq> [] then number xs (fm_seek form) else 0,
      max_records := if fm_count form \<noteq> [] then number xs (fm_count form) else INTMAX_MAX,
      bytes_to_copy := case form_limit xs form of Some n \<Rightarrow> n | None \<Rightarrow> - 1,
      engine := fst (form_engine (fm_engine form)),
      hash_algo := if opt_sha256 form then HASH_ALGO_SHA256 else HASH_ALGO_NONE,
      conversions_mask := form_mask form,
      input_flags := (if form_limit xs form = None then 0 else O_COUNT_BYTES) OR (if opt_direct form then O_DIRECT else 0),
      output_flags := (if opt_direct form then O_DIRECT else 0) OR (if opt_force form then O_FORCE else 0),
      status_level := form_status (status_mode form), json_output := status_mode form = 3,
      async_queue_depth := if queue_depth form \<in> {[], ''auto''} then 0 else number xs (queue_depth form),
      dry_run := opt_dry_run form\<rparr>"

section \<open>Scanning the options\<close>

definition results :: "opt_item list \<Rightarrow> (optcode \<times> string option) list" where
  "results is = map (the \<circ> item_result) is"

lemma results_append: "results (a @ b) = results a @ results b"
  by (simp add: results_def)

lemma results_when: "results (opt_when b i) = (if b then [the (item_result i)] else [])"
  by (simp add: results_def opt_when_def)

lemma checked_good: "good_number xs bad s \<Longrightarrow> checked_integer xs bad what s = Inr (number xs s)"
  by (auto simp: good_number_def checked_integer_def number_def split: prod.splits)

lemma known_options [simp]:
  "item_result (ShortArg CHR ''i'' a) = Some (OPT_i, Some (word_value a))"
  "item_result (ShortArg CHR ''o'' a) = Some (OPT_o, Some (word_value a))"
  "item_result (ShortArg CHR ''e'' a) = Some (OPT_e, Some (word_value a))"
  "item_result (ShortArg CHR ''b'' a) = Some (OPT_b, Some (word_value a))"
  "item_result (ShortArg CHR ''l'' a) = Some (OPT_l, Some (word_value a))"
  "item_result (ShortArg CHR ''c'' a) = Some (OPT_c, Some (word_value a))"
  "item_result (ShortFlag CHR ''f'') = Some (OPT_f, None)"
  "item_result (ShortFlag CHR ''n'') = Some (OPT_n, None)"
  "item_result (ShortFlag CHR ''q'') = Some (OPT_q, None)"
  "item_result (ShortFlag CHR ''p'') = Some (OPT_p, None)"
  "item_result (LongArg ''queue-depth'' v) = Some (OPT_QUEUE_DEPTH, Some v)"
  "item_result (LongArg ''skip'' v) = Some (OPT_SKIP, Some v)"
  "item_result (LongArg ''seek'' v) = Some (OPT_SEEK, Some v)"
  "item_result (LongFlag ''autotune'') = Some (OPT_AUTOTUNE, None)"
  "item_result (LongFlag ''hash'') = Some (OPT_HASH, None)"
  "item_result (LongFlag ''direct'') = Some (OPT_DIRECT, None)"
  "item_result (LongFlag ''sparse'') = Some (OPT_SPARSE, None)"
  "item_result (LongFlag ''sync'') = Some (OPT_SYNC, None)"
  "item_result (LongFlag ''json'') = Some (OPT_JSON, None)"
  by (simp_all add: short_options_def modern_long_options_def)

declare item_result.simps [simp del]

text \<open>What each piece of the line does to the scan, whether it is there or not.\<close>

lemma scan_paths:
  "scan_opts xs (results (opt_when b (ShortArg CHR ''i'' w))) s =
     Inr (s\<lparr>s_cfg := (s_cfg s)\<lparr>input_file := if b then Some (word_value w) else input_file (s_cfg s)\<rparr>\<rparr>)"
  "scan_opts xs (results (opt_when b (ShortArg CHR ''o'' w))) s =
     Inr (s\<lparr>s_cfg := (s_cfg s)\<lparr>output_file := if b then Some (word_value w) else output_file (s_cfg s)\<rparr>\<rparr>)"
  by (simp_all add: results_when)

lemma scan_engine_piece:
  "scan_opts xs (results (case engine_word e of None \<Rightarrow> [] | Some w \<Rightarrow> [ShortArg CHR ''e'' (Bare w)])) s =
     Inr (s\<lparr>s_cfg := (s_cfg s)\<lparr>engine := if engine_word e = None then engine (s_cfg s) else fst (form_engine e),
                        conversions_mask := conversions_mask (s_cfg s) OR snd (form_engine e)\<rparr>\<rparr>)"
  by (cases e) (simp_all add: results_def engine_word_def form_engine_def scan_engine_def streq_def arg_of_def set_conv_def)

lemma scan_numbers:
  "(b \<Longrightarrow> good_number xs (\<lambda>r. r < 2 \<or> r > 1024) v) \<Longrightarrow>
     scan_opts xs (results (opt_when b (LongArg ''queue-depth'' v))) s =
     Inr (s\<lparr>s_cfg := (s_cfg s)\<lparr>async_queue_depth := if b then number xs v else async_queue_depth (s_cfg s)\<rparr>\<rparr>)"
  "(b \<Longrightarrow> good_number xs (\<lambda>r. r < 0) v) \<Longrightarrow>
     scan_opts xs (results (opt_when b (ShortArg CHR ''l'' (Bare v)))) s =
     Inr (s\<lparr>s_cfg := (s_cfg s)\<lparr>bytes_to_copy := if b then number xs v else bytes_to_copy (s_cfg s),
                        input_flags := input_flags (s_cfg s) OR (if b then O_COUNT_BYTES else 0)\<rparr>\<rparr>)"
  "(b \<Longrightarrow> good_number xs (\<lambda>r. r < 0) v) \<Longrightarrow>
     scan_opts xs (results (opt_when b (ShortArg CHR ''c'' (Bare v)))) s =
     Inr (s\<lparr>s_count := if b then number xs v else s_count s\<rparr>)"
  "(b \<Longrightarrow> good_number xs (\<lambda>r. r < 0) v) \<Longrightarrow>
     scan_opts xs (results (opt_when b (LongArg ''skip'' v))) s =
     Inr (s\<lparr>s_skip := if b then number xs v else s_skip s\<rparr>)"
  "(b \<Longrightarrow> good_number xs (\<lambda>r. r < 0) v) \<Longrightarrow>
     scan_opts xs (results (opt_when b (LongArg ''seek'' v))) s =
     Inr (s\<lparr>s_seek := if b then number xs v else s_seek s\<rparr>)"
  by (simp_all add: results_when checked_good arg_of_def)

lemma scan_blocksize:
  "(b \<Longrightarrow> v \<in> {''auto'', ''autotune''} \<or> good_number xs (\<lambda>r. r \<le> 0) v) \<Longrightarrow>
     scan_opts xs (results (opt_when b (ShortArg CHR ''b'' (Bare v)))) s =
     Inr (s\<lparr>s_blocksize := if b \<and> v \<notin> {''auto'', ''autotune''} then number xs v else s_blocksize s,
            s_cfg := (s_cfg s)\<lparr>conversions_mask := conversions_mask (s_cfg s) OR
                        (if b \<and> v \<in> {''auto'', ''autotune''} then C_AUTOTUNE else 0)\<rparr>\<rparr>)"
  by (auto simp: results_when checked_good arg_of_def streq_def set_conv_def)

lemma scan_flags:
  "scan_opts xs (results (opt_when b (LongFlag ''autotune''))) s =
     Inr (s\<lparr>s_cfg := (s_cfg s)\<lparr>conversions_mask := conversions_mask (s_cfg s) OR (if b then C_AUTOTUNE else 0)\<rparr>\<rparr>)"
  "scan_opts xs (results (opt_when b (LongFlag ''hash''))) s =
     Inr (s\<lparr>s_cfg := (s_cfg s)\<lparr>conversions_mask := conversions_mask (s_cfg s) OR (if b then C_SHA256 else 0),
                        hash_algo := if b then HASH_ALGO_SHA256 else hash_algo (s_cfg s)\<rparr>\<rparr>)"
  "scan_opts xs (results (opt_when b (LongFlag ''direct''))) s =
     Inr (s\<lparr>s_cfg := (s_cfg s)\<lparr>input_flags := input_flags (s_cfg s) OR (if b then O_DIRECT else 0),
                        output_flags := output_flags (s_cfg s) OR (if b then O_DIRECT else 0)\<rparr>\<rparr>)"
  "scan_opts xs (results (opt_when b (LongFlag ''sparse''))) s =
     Inr (s\<lparr>s_cfg := (s_cfg s)\<lparr>conversions_mask := conversions_mask (s_cfg s) OR (if b then C_SPARSE else 0)\<rparr>\<rparr>)"
  "scan_opts xs (results (opt_when b (LongFlag ''sync''))) s =
     Inr (s\<lparr>s_cfg := (s_cfg s)\<lparr>conversions_mask := conversions_mask (s_cfg s) OR (if b then C_SYNC else 0)\<rparr>\<rparr>)"
  "scan_opts xs (results (opt_when b (ShortFlag CHR ''f''))) s =
     Inr (s\<lparr>s_cfg := (s_cfg s)\<lparr>output_flags := output_flags (s_cfg s) OR (if b then O_FORCE else 0)\<rparr>\<rparr>)"
  "scan_opts xs (results (opt_when b (ShortFlag CHR ''n''))) s =
     Inr (s\<lparr>s_cfg := (s_cfg s)\<lparr>dry_run := if b then True else dry_run (s_cfg s)\<rparr>\<rparr>)"
  by (simp_all add: results_when set_conv_def scan_hash_def)

lemma scan_status:
  "scan_opts xs (results (if m = 0 then [ShortFlag CHR ''q''] else if m = 2 then [ShortFlag CHR ''p'']
       else if m = 3 then [LongFlag ''json''] else [])) s =
     Inr (s\<lparr>s_cfg := (s_cfg s)\<lparr>status_level := if m \<in> {0, 2, 3} then form_status m else status_level (s_cfg s),
                        json_output := if m = 3 then True else json_output (s_cfg s)\<rparr>\<rparr>)"
  by (simp add: results_def form_status_def)

text \<open>The scan of the whole line, and its resolution.\<close>

definition scanned :: "xstrtoumax \<Rightarrow> tui_form \<Rightarrow> scan" where
  "scanned xs form =
     \<lparr>s_cfg = (form_config xs form)\<lparr>blocksize := 0, skip_bytes := 0, seek_bytes := 0, max_records := INTMAX_MAX,
        bytes_to_copy := if fm_limit form \<noteq> [] then number xs (fm_limit form) else - 1,
        input_flags := (if fm_limit form \<noteq> [] then O_COUNT_BYTES else 0) OR (if opt_direct form then O_DIRECT else 0)\<rparr>,
      s_blocksize = if fm_bs form \<in> {[], ''auto'', ''autotune''} then 0 else number xs (fm_bs form),
      s_count = if fm_count form \<noteq> [] then number xs (fm_count form) else INTMAX_MAX,
      s_skip = if fm_skip form \<noteq> [] then number xs (fm_skip form) else 0,
      s_seek = if fm_seek form \<noteq> [] then number xs (fm_seek form) else 0\<rparr>"

lemma or_cond: "(if a then (m :: mask) else 0) OR (if b then m else 0) = (if a \<or> b then m else 0)"
  by simp

lemma scan_form_options:
  assumes "good_numbers xs form"
  shows "scan_opts xs (results (concat (form_options form)))
      \<lparr>s_cfg = dd_init_default_config, s_blocksize = 0, s_count = INTMAX_MAX, s_skip = 0, s_seek = 0\<rparr> =
    Inr (scanned xs form)"
proof -
  have n: "queue_depth form \<noteq> [] \<and> queue_depth form \<noteq> ''auto'' \<Longrightarrow> good_number xs (\<lambda>r. r < 2 \<or> r > 1024) (queue_depth form)"
    "fm_bs form \<noteq> [] \<Longrightarrow> fm_bs form \<in> {''auto'', ''autotune''} \<or> good_number xs (\<lambda>r. r \<le> 0) (fm_bs form)"
    "fm_limit form \<noteq> [] \<Longrightarrow> good_number xs (\<lambda>r. r < 0) (fm_limit form)"
    "fm_count form \<noteq> [] \<Longrightarrow> good_number xs (\<lambda>r. r < 0) (fm_count form)"
    "fm_skip form \<noteq> [] \<Longrightarrow> good_number xs (\<lambda>r. r < 0) (fm_skip form)"
    "fm_seek form \<noteq> [] \<Longrightarrow> good_number xs (\<lambda>r. r < 0) (fm_seek form)"
    using assms by (auto simp: good_numbers_def)
  have e: "(if engine_word e = None then ENGINE_AUTO else fst (form_engine e)) = fst (form_engine e)" for e
    by (cases e) (simp_all add: engine_word_def form_engine_def)
  have b: "(fm_bs form \<noteq> [] \<and> fm_bs form \<in> {''auto'', ''autotune''}) = (fm_bs form \<in> {''auto'', ''autotune''})"
    "(fm_bs form \<noteq> [] \<and> fm_bs form \<notin> {''auto'', ''autotune''}) = (fm_bs form \<notin> {[], ''auto'', ''autotune''})"
    by auto
  have a: "(if fm_bs form \<in> {''auto'', ''autotune''} then C_AUTOTUNE else 0)
        OR (if opt_autotune form \<and> fm_bs form \<noteq> ''auto'' then C_AUTOTUNE else 0)
      = (if fm_bs form \<in> {''auto'', ''autotune''} \<or> opt_autotune form then C_AUTOTUNE else 0)"
    by auto
  have st: "(if m \<in> {0, 2, 3} then form_status m else STATUS_DEFAULT) = form_status m" for m
    by (simp add: form_status_def)
  show ?thesis
    unfolding form_options_def
    by (simp add: results_append scan_opts_append scan_paths scan_engine_piece scan_numbers n scan_blocksize
        scan_flags scan_status del: insert_iff split del: if_split cong del: if_weak_cong)
      (simp add: scanned_def form_config_def form_mask_def Let_def dd_init_default_config_def e b a st
        or.assoc del: insert_iff split del: if_split cong del: if_weak_cong, simp)
qed

lemma number_nonneg: "0 \<le> number xs s" "number xs s \<le> INTMAX_MAX"
  using parse_integer_bounds [of xs s "fst (parse_integer xs s)" "snd (parse_integer xs s)"]
  by (simp_all add: number_def)

lemma resolve_offsets:
  "scan_resolve s c =
     (let bs = if s_blocksize s \<le> 0 then DEFAULT_BLOCKSIZE else s_blocksize s
      in resolve_count (s_count s) bs
           (c\<lparr>blocksize := bs, skip_bytes := if 0 < s_skip s then s_skip s else skip_bytes c,
              seek_bytes := if 0 < s_seek s then s_seek s else seek_bytes c\<rparr>))"
  by (simp add: scan_resolve_def Let_def)

lemma resolve_count_fields:
  "n = INTMAX_MAX \<or> 0 \<le> n * bs \<Longrightarrow> resolve_count n bs c =
     (if n = INTMAX_MAX then c
      else c\<lparr>max_records := n,
             bytes_to_copy := if bytes_to_copy c < 0 \<and> n * bs \<le> INTMAX_MAX then n * bs else bytes_to_copy c,
             input_flags := input_flags c OR (if bytes_to_copy c < 0 \<and> n * bs \<le> INTMAX_MAX then O_COUNT_BYTES else 0)\<rparr>)"
  by (auto simp: resolve_count_def Let_def ckd_mul_def in_intmax_def INTMAX_MIN_def)

lemma resolve_form:
  assumes "good_numbers xs form"
  shows "scan_resolve (scanned xs form) (s_cfg (scanned xs form)) = form_config xs form"
proof -
  have bs: "fm_bs form \<notin> {[], ''auto'', ''autotune''} \<Longrightarrow> 0 < number xs (fm_bs form)"
    using assms by (auto simp: good_numbers_def good_number_def)
  have sk: "(if 0 < (if b then number xs v else 0) then (if b then number xs v else 0) else 0) = (if b then number xs v else 0)"
    for b v using number_nonneg [of xs v] by simp
  have bs': "(if (if fm_bs form \<in> {[], ''auto'', ''autotune''} then 0 else number xs (fm_bs form)) \<le> 0 then DEFAULT_BLOCKSIZE
      else (if fm_bs form \<in> {[], ''auto'', ''autotune''} then 0 else number xs (fm_bs form))) = form_blocksize xs form"
    by (cases "fm_bs form \<in> {[], ''auto'', ''autotune''}") (use bs in \<open>simp_all add: form_blocksize_def\<close>)
  have pos: "0 \<le> number xs v * form_blocksize xs form" for v
    using number_nonneg [of xs v]
    by (cases "fm_bs form \<in> {[], ''auto'', ''autotune''}") (use bs in \<open>simp_all add: form_blocksize_def DEFAULT_BLOCKSIZE_def\<close>)
  have fl: "(a :: mask) OR b OR c = (c OR a) OR b" for a b c by (simp add: ac_simps)
  note [simp] = pos sk bs' resolve_count_fields number_nonneg
  note [simp del] = insert_iff
  note defs = resolve_offsets scanned_def form_config_def form_limit_def dd_init_default_config_def Let_def
  show ?thesis
  proof (cases "fm_limit form = []")
    case no_limit: True
    show ?thesis
      by (cases "fm_count form = []"; cases "number xs (fm_count form) = INTMAX_MAX";
          cases "number xs (fm_count form) * form_blocksize xs form \<le> INTMAX_MAX")
        (simp_all add: defs no_limit or.commute split del: if_split cong del: if_weak_cong)
  next
    case False
    have "\<not> number xs (fm_limit form) < 0" using number_nonneg(1) [of xs "fm_limit form"] by linarith
    then show ?thesis
      by (cases "fm_count form = []"; cases "number xs (fm_count form) = INTMAX_MAX") (simp_all add: defs False split del: if_split cong del: if_weak_cong)
  qed
qed

lemma scan_form:
  "good_numbers xs form \<Longrightarrow>
     dd_scanargs xs (results (concat (form_options form))) [] dd_init_default_config = Inr (form_config xs form, False, False)"
  by (simp add: dd_scanargs_def scan_form_options resolve_form)

section \<open>The round trip\<close>

lemma results_known:
  "list_all (\<lambda>i. item_result i \<noteq> None) is \<Longrightarrow> map item_result is = map Some (results is)"
  by (induction "is") (auto simp: results_def)

lemma form_options_known: "list_all (\<lambda>i. item_result i \<noteq> None) (concat (form_options form))"
proof -
  have w: "list_all (\<lambda>i. item_result i \<noteq> None) (opt_when b i) \<longleftrightarrow> (b \<longrightarrow> item_result i \<noteq> None)" for b i
    by (simp add: opt_when_def)
  have e: "list_all (\<lambda>i. item_result i \<noteq> None) (case v of None \<Rightarrow> [] | Some w \<Rightarrow> [ShortArg CHR ''e'' (Bare w)])" for v
    by (cases v) simp_all
  have s: "list_all (\<lambda>i. item_result i \<noteq> None) (if m = 0 then [ShortFlag CHR ''q''] else if m = 2 then [ShortFlag CHR ''p'']
       else if m = 3 then [LongFlag ''json''] else [])" for m :: int
    by simp
  show ?thesis by (simp add: form_options_def w e s del: not_None_eq split del: if_split)
qed

lemma form_words_ok:
  assumes "plain_form form"
  shows "list_all word_ok (concat (map item_words (concat (form_options form))))"
proof -
  have e: "list_all word_ok (concat (map item_words (case engine_word e of None \<Rightarrow> [] | Some w \<Rightarrow> [ShortArg CHR ''e'' (Bare w)])))" for e
    by (cases e) (simp_all add: engine_word_def bare_char_def)
  have w: "list_all word_ok (concat (map item_words (opt_when b i))) \<longleftrightarrow> (b \<longrightarrow> list_all word_ok (item_words i))" for b i
    by (simp add: opt_when_def)
  have s: "list_all word_ok (concat (map item_words (if m = 0 then [ShortFlag CHR ''q''] else if m = 2 then [ShortFlag CHR ''p'']
       else if m = 3 then [LongFlag ''json''] else [])))" for m :: int
    by (simp add: bare_char_def)
  show ?thesis
    using assms e [of "fm_engine form"] s [of "status_mode form"]
    by (simp add: form_options_def w plain_form_def bare_char_def split del: if_split)
qed

lemma argv_words: "concat (map item_argv is) = map word_value (concat (map item_words is))"
  by (induction "is") (simp_all add: item_argv_def)

lemma tui_command_reads_back_plain:
  assumes "posix_shell sh" and "gnu_getopt getopt"
    and "plain_form form" and "good_numbers xs form" and "command_name bin"
    and "length (command_text bin form) < min 1024 n"
  shows "read_command sh getopt xs (tui_build_command form (Some bin) n) = Inr (form_config xs form, False, False)"
proof -
  let ?os = "concat (form_options form)"
  have bin: "bin \<noteq> []" using assms(5) by (auto simp: command_name_def)
  have "sh (command_text bin form) = bin # concat (map item_argv ?os)"
    using assms(1) form_words_ok [OF assms(3)] assms(5) by (simp add: posix_shell_def command_text_def argv_words)
  moreover have "getopt (concat (map item_argv ?os)) = (results ?os, [])"
    using assms(2) results_known [OF form_options_known] unfolding gnu_getopt_def by blast
  ultimately show ?thesis
    using scan_form [OF assms(4)] by (simp add: read_command_def build_command_text [OF assms(3) bin assms(6)])
qed

text \<open>
  C11: the command line the interface shows, copies and runs means what the form says. The shell splits it, the
  program parses it, and the configuration is the one of the form, option by option: paths, engine, sizes, limits,
  offsets, flags and the kind of report. This holds for every shell and every \<open>getopt_long\<close> that do what POSIX and
  GNU document, and for every form whose paths and numbers are plain and whose command fits the buffers of the code.
\<close>

theorem tui_command_reads_back:
  assumes "posix_shell sh" and "gnu_getopt getopt"
    and "plain_form form" and "good_numbers xs form" and "command_name bin"
    and "length (command_text bin form) < min 1024 n"
  shows "read_command sh getopt xs (tui_build_command form (Some bin) n) = Inr (form_config xs form, False, False)"
  by (rule tui_command_reads_back_plain [OF assms])

section \<open>A shell and a getopt_long of this kind\<close>

text \<open>The words of a line with double quotes: \<open>q\<close> inside quotes, \<open>st\<close> inside a word, which so far is \<open>acc\<close>.\<close>

fun split_words :: "bool \<Rightarrow> bool \<Rightarrow> string \<Rightarrow> string \<Rightarrow> string list" where
  "split_words q st acc [] = (if st then [acc] else [])"
| "split_words q st acc (c # cs) =
     (if c = CHR ''\"'' then split_words (\<not> q) True acc cs
      else if \<not> q \<and> c = CHR '' '' then (if st then [acc] else []) @ split_words False False [] cs
      else split_words q True (acc @ [c]) cs)"

lemma split_bare:
  "list_all bare_char s \<Longrightarrow> split_words False st acc (s @ r) = split_words False (st \<or> s \<noteq> []) (acc @ s) r"
proof (induction s arbitrary: st acc)
  case (Cons c s)
  then have "c \<noteq> CHR ''\"''" "c \<noteq> CHR '' ''" by (auto simp: bare_char_def)
  with Cons show ?case by simp
qed simp

lemma split_quoted:
  "list_all quoted_char s \<Longrightarrow> split_words True True acc (s @ CHR ''\"'' # r) = split_words False True (acc @ s) r"
  by (induction s arbitrary: acc) (auto simp: quoted_char_def)

lemma split_line:
  "list_all word_ok ws \<Longrightarrow> split_words False True acc (words_text ws) = acc # map word_value ws"
proof (induction ws arbitrary: acc)
  case (Cons w ws)
  then have ih: "split_words False True b (words_text ws) = b # map word_value ws" for b by simp
  show ?case
  proof (cases w)
    case (Bare s)
    with Cons.prems show ?thesis by (simp add: split_bare ih)
  next
    case (Quoted s)
    with Cons.prems have "split_words False False [] (CHR ''\"'' # s @ CHR ''\"'' # words_text ws) = s # map word_value ws"
      by (simp add: split_quoted ih)
    with Quoted show ?thesis by simp
  qed
qed simp

lemma posix_shell_split: "posix_shell (split_words False False [])"
  unfolding posix_shell_def
proof (intro allI impI)
  fix bin ws assume b: "command_name bin" and w: "list_all word_ok ws"
  then have "bin \<noteq> []" "list_all bare_char bin" by (auto simp: command_name_def)
  then show "split_words False False [] (bin @ words_text ws) = bin # map word_value ws"
    using split_bare [of bin False "[]" "words_text ws"] split_line [OF w, of bin] by simp
qed

function simple_getopt :: "string list \<Rightarrow> (optcode \<times> string option) list \<times> string list" where
  "simple_getopt [] = ([], [])"
| "simple_getopt (w # ws) =
     (if take 2 w = ''--'' then
        (let n = drop 2 w; name = takeWhile (\<lambda>c. c \<noteq> CHR ''='') n
         in case map_of modern_long_options name of
              Some (_, code) \<Rightarrow>
                apfst (Cons (code, if name = n then None else Some (drop (length name + 1) n))) (simple_getopt ws)
            | None \<Rightarrow> apfst (Cons (OPT_other, None)) (simple_getopt ws))
      else if take 1 w = ''-'' \<and> length w = 2 then
        (case map_of short_options (w ! 1) of
           Some (no_argument, code) \<Rightarrow> apfst (Cons (code, None)) (simple_getopt ws)
         | Some (_, code) \<Rightarrow>
             (if ws = [] then ([(OPT_other, None)], []) else apfst (Cons (code, Some (hd ws))) (simple_getopt (tl ws)))
         | None \<Rightarrow> apfst (Cons (OPT_other, None)) (simple_getopt ws))
      else apsnd (Cons w) (simple_getopt ws))"
  by pat_completeness auto
termination by (relation "measure length") (auto simp: length_greater_0_conv)

lemma long_names: "map_of modern_long_options n = Some x \<Longrightarrow> takeWhile (\<lambda>c. c \<noteq> CHR ''='') n = n"
proof -
  assume "map_of modern_long_options n = Some x"
  then have "n \<in> set (map fst modern_long_options)" by (metis map_of_eq_None_iff option.distinct(1) set_map)
  moreover have "list_all (\<lambda>n. takeWhile (\<lambda>c. c \<noteq> CHR ''='') n = n) (map fst modern_long_options)"
    by (simp add: modern_long_options_def)
  ultimately show ?thesis unfolding list_all_iff by blast
qed

lemma short_names: "map_of short_options c = Some x \<Longrightarrow> c \<noteq> CHR ''-''"
  by (auto simp: short_options_def)

lemma simple_getopt_long:
  "simple_getopt ((''--'' @ n) # ws) =
     (let name = takeWhile (\<lambda>c. c \<noteq> CHR ''='') n
      in case map_of modern_long_options name of
           Some (_, code) \<Rightarrow>
             apfst (Cons (code, if name = n then None else Some (drop (length name + 1) n))) (simple_getopt ws)
         | None \<Rightarrow> apfst (Cons (OPT_other, None)) (simple_getopt ws))"
  by (simp add: Let_def)

lemma simple_getopt_short:
  "c \<noteq> CHR ''-'' \<Longrightarrow> simple_getopt ([CHR ''-'', c] # ws) =
     (case map_of short_options c of
        Some (no_argument, code) \<Rightarrow> apfst (Cons (code, None)) (simple_getopt ws)
      | Some (_, code) \<Rightarrow>
          (if ws = [] then ([(OPT_other, None)], []) else apfst (Cons (code, Some (hd ws))) (simple_getopt (tl ws)))
      | None \<Rightarrow> apfst (Cons (OPT_other, None)) (simple_getopt ws))"
  by simp

declare simple_getopt.simps(2) [simp del]

lemma long_arg_result:
  "item_result (LongArg n a) = Some r \<Longrightarrow> \<exists>h code. map_of modern_long_options n = Some (h, code) \<and> r = (code, Some a)"
  by (cases "map_of modern_long_options n") (auto simp: item_result.simps split: has_arg.splits)

lemma getopt_item:
  assumes "item_result i = Some r"
  shows "simple_getopt (item_argv i @ ws) = apfst (Cons r) (simple_getopt ws)"
proof (cases i)
  case (ShortFlag c)
  then obtain code where c: "map_of short_options c = Some (no_argument, code)" and "r = (code, None)"
    using assms by (auto simp: item_result.simps split: option.splits has_arg.splits)
  then show ?thesis using short_names [OF c] ShortFlag by (simp add: item_argv_def simple_getopt_short)
next
  case (ShortArg c a)
  then obtain code where c: "map_of short_options c = Some (required_argument, code)" and "r = (code, Some (word_value a))"
    using assms by (auto simp: item_result.simps split: option.splits has_arg.splits)
  then show ?thesis using short_names [OF c] ShortArg by (simp add: item_argv_def simple_getopt_short)
next
  case (LongFlag n)
  then obtain h code where n: "map_of modern_long_options n = Some (h, code)" and "r = (code, None)"
    using assms by (auto simp: item_result.simps split: option.splits has_arg.splits)
  moreover note t = long_names [OF n]
  ultimately show ?thesis using LongFlag simple_getopt_long [of n ws] by (simp add: item_argv_def Let_def t)
next
  case (LongArg n a)
  then obtain h code where n: "map_of modern_long_options n = Some (h, code)" and "r = (code, Some a)"
    using long_arg_result assms by blast
  have "\<forall>c \<in> set n. c \<noteq> CHR ''=''" using long_names [OF n] by (simp only: takeWhile_eq_all_conv)
  then have t: "takeWhile (\<lambda>c. c \<noteq> CHR ''='') (n @ ''='' @ a) = n" by (simp add: takeWhile_append2)
  have "item_argv i @ ws = (''--'' @ n @ ''='' @ a) # ws" using LongArg by (simp add: item_argv_def)
  then show ?thesis unfolding \<open>r = (code, Some a)\<close> by (simp only: simple_getopt_long t Let_def) (simp add: n)
qed

lemma gnu_getopt_simple: "gnu_getopt simple_getopt"
  unfolding gnu_getopt_def
proof (intro allI impI)
  fix items rs assume "map item_result items = map Some rs"
  then show "simple_getopt (concat (map item_argv items)) = (rs, [])"
    by (induction items arbitrary: rs) (auto simp: getopt_item)
qed

definition form_ab :: tui_form where
  "form_ab = tui_init_form\<lparr>if_path := ''/dev/sda'', of_path := ''disk image'', fm_limit := ''4096'', opt_sha256 := True\<rparr>"

text \<open>A reader of numbers for the witnesses: every text is 4096.\<close>

definition xs_4096 :: xstrtoumax where "xs_4096 s = (LONGINT_OK, 4096, length s)"

lemma good_4096: "good_number xs_4096 (\<lambda>r. r < 0) s"
  by (simp add: good_number_def number_def parse_integer_def xs_4096_def LONGINT_OK_def
      LONGINT_OVERFLOW_def LONGINT_INVALID_SUFFIX_CHAR_def INTMAX_MAX_def)

lemma form_ab_plain: "plain_form form_ab" "good_numbers xs_4096 form_ab"
  by (simp_all add: plain_form_def form_ab_def tui_init_form_def quoted_char_def bare_char_def snprintf_def
      good_numbers_def good_4096)

theorem tui_command_reads_back_witness:
  "read_command (split_words False False []) simple_getopt xs_4096
     (tui_build_command form_ab (Some ''./blkcp'') 1024) = Inr (form_config xs_4096 form_ab, False, False)"
proof (rule tui_command_reads_back [OF posix_shell_split gnu_getopt_simple form_ab_plain])
  show "command_name ''./blkcp''" by (simp add: command_name_def bare_char_def)
  show "length (command_text ''./blkcp'' form_ab) < min 1024 1024"
    by (simp add: command_text_def form_ab_def tui_init_form_def form_options_def opt_when_def engine_word_def snprintf_def)
qed

section \<open>What it does not survive\<close>

lemma build_command_cut:
  "\<not> of_is_pipe form \<Longrightarrow>
     tui_build_command form b n = tui_build_command (form\<lparr>of_path := take 500 (of_path form)\<rparr>) b n"
proof -
  let ?f = "form\<lparr>of_path := take 500 (of_path form)\<rparr>"
  assume "\<not> of_is_pipe form"
  then have o': "output_pieces ?f = output_pieces form" by (simp add: output_pieces_def)
  have i: "input_pieces ?f = input_pieces form" by (simp add: input_pieces_def)
  have "command_pieces ?f = command_pieces form" unfolding command_pieces_def i o' by (simp split del: if_split cong del: if_weak_cong)
  then show ?thesis by (simp add: tui_build_command_def i o')
qed

text \<open>
  A path of more than 500 characters is cut in the command, though the form holds 511: what is started writes
  to the file with the shorter name.
\<close>

theorem tui_command_cuts_path:
  assumes "posix_shell sh" and "gnu_getopt getopt" and "\<not> of_is_pipe form" and "500 < length (of_path form)"
    and "plain_form (form\<lparr>of_path := take 500 (of_path form)\<rparr>)" and "good_numbers xs form" and "command_name bin"
    and "length (command_text bin (form\<lparr>of_path := take 500 (of_path form)\<rparr>)) < min 1024 n"
  shows "\<exists>cfg. read_command sh getopt xs (tui_build_command form (Some bin) n) = Inr (cfg, False, False) \<and>
    output_file cfg = Some (take 500 (of_path form)) \<and> output_file cfg \<noteq> Some (of_path form)"
proof -
  let ?f = "form\<lparr>of_path := take 500 (of_path form)\<rparr>"
  have "good_numbers xs ?f" using assms(6) by (simp add: good_numbers_def)
  from tui_command_reads_back_plain [OF assms(1,2,5) this assms(7,8)] assms(3,4) show ?thesis
    unfolding build_command_cut [OF assms(3), of "Some bin" n]
    by (auto simp: form_config_def dest: arg_cong [of _ _ length])
qed

definition form_long :: tui_form where
  "form_long = tui_init_form\<lparr>if_path := ''/dev/sda'', of_path := replicate 505 CHR ''x''\<rparr>"

theorem tui_command_cuts_path_witness:
  "\<exists>cfg. read_command (split_words False False []) simple_getopt xs_4096
       (tui_build_command form_long (Some ''./blkcp'') 1024) = Inr (cfg, False, False) \<and>
     output_file cfg = Some (take 500 (of_path form_long)) \<and> output_file cfg \<noteq> Some (of_path form_long)"
proof (rule tui_command_cuts_path [OF posix_shell_split gnu_getopt_simple])
  show "command_name ''./blkcp''" by (simp add: command_name_def bare_char_def)
  show "\<not> of_is_pipe form_long" "500 < length (of_path form_long)" by (simp_all add: form_long_def tui_init_form_def)
  show "plain_form (form_long\<lparr>of_path := take 500 (of_path form_long)\<rparr>)" "good_numbers xs_4096 form_long"
    by (simp_all add: form_long_def tui_init_form_def plain_form_def good_numbers_def snprintf_def list_all_iff
        quoted_char_def bare_char_def)
  show "length (command_text ''./blkcp'' (form_long\<lparr>of_path := take 500 (of_path form_long)\<rparr>)) < min 1024 1024"
    by (simp add: command_text_def form_long_def tui_init_form_def form_options_def opt_when_def engine_word_def snprintf_def)
qed

definition form_quote :: tui_form where
  "form_quote = tui_init_form\<lparr>if_path := ''in.img'', of_path := ''out.img\" -f -o \"out.img''\<rparr>"

definition quote_options :: "opt_item list" where
  "quote_options =
     [ShortArg CHR ''i'' (Quoted ''in.img''), ShortArg CHR ''o'' (Quoted ''out.img''), ShortFlag CHR ''f'',
      ShortArg CHR ''o'' (Quoted ''out.img''), ShortArg CHR ''b'' (Bare ''auto''), ShortFlag CHR ''p'']"

lemma form_quote_pieces:
  "fold add_piece (command_pieces form_quote) ''./blkcp'' = ''./blkcp'' @ concat (command_pieces form_quote)"
  "concat (command_pieces form_quote) = words_text (concat (map item_words quote_options))"
proof -
  have p: "command_pieces form_quote =
    ['' -i \"in.img\"'', '' -o \"out.img\" -f -o \"out.img\"'', [], [], '' -b auto'', [], [], [], [], [], [], [], [], [], [], [], '' -p'']"
    by (simp add: form_quote_def tui_init_form_def command_pieces_def input_pieces_def output_pieces_def engine_piece_def
        status_piece_def snprintf_def streq_def)
  show "fold add_piece (command_pieces form_quote) ''./blkcp'' = ''./blkcp'' @ concat (command_pieces form_quote)"
    by (rule fold_add_piece) (simp add: p)
  show "concat (command_pieces form_quote) = words_text (concat (map item_words quote_options))"
    by (simp add: p quote_options_def)
qed

lemma form_quote_command:
  "tui_build_command form_quote (Some ''./blkcp'') 1024 = ''./blkcp'' @ words_text (concat (map item_words quote_options))"
proof -
  have "input_pieces form_quote = ([], '' -i \"in.img\"'')" "fst (output_pieces form_quote) = []"
    by (simp_all add: form_quote_def tui_init_form_def input_pieces_def output_pieces_def)
  moreover have "length (''./blkcp'' @ words_text (concat (map item_words quote_options))) < 1024"
    by (simp add: quote_options_def)
  ultimately show ?thesis
    using form_quote_pieces by (simp add: tui_build_command_def snprintf_fits)
qed

text \<open>
  C40: a path is put between double quotes as it is: one with a quote in it adds options of its own. Here the safety
  guard is switched off although the box of the form is not ticked, whatever the shell and \<open>getopt_long\<close> are.
\<close>

theorem tui_path_adds_options:
  assumes "posix_shell sh" and "gnu_getopt getopt"
  shows "\<exists>cfg. \<not> opt_force form_quote \<and>
    read_command sh getopt xs (tui_build_command form_quote (Some ''./blkcp'') 1024) = Inr (cfg, False, False) \<and>
    any_set (output_flags cfg) O_FORCE \<and> output_file cfg = Some ''out.img''"
proof -
  have "command_name ''./blkcp''" "list_all word_ok (concat (map item_words quote_options))"
    by (simp_all add: command_name_def bare_char_def quoted_char_def quote_options_def)
  then have "sh (tui_build_command form_quote (Some ''./blkcp'') 1024) = ''./blkcp'' # concat (map item_argv quote_options)"
    using assms(1) unfolding form_quote_command posix_shell_def argv_words by blast
  moreover have known: "list_all (\<lambda>i. item_result i \<noteq> None) quote_options" by (simp add: quote_options_def)
  have "getopt (concat (map item_argv quote_options)) = (results quote_options, [])"
    using assms(2) results_known [OF known] unfolding gnu_getopt_def by blast
  ultimately show ?thesis
    by (simp add: read_command_def quote_options_def results_def dd_scanargs_def arg_of_def streq_def set_conv_def
        scan_resolve_def resolve_count_def dd_init_default_config_def form_quote_def tui_init_form_def any_set_def
        private_flag_values Let_def split: prod.split)
qed

theorem tui_path_adds_options_witness:
  "\<exists>cfg. \<not> opt_force form_quote \<and>
    read_command (split_words False False []) simple_getopt xs_4096 (tui_build_command form_quote (Some ''./blkcp'') 1024) =
      Inr (cfg, False, False) \<and> any_set (output_flags cfg) O_FORCE \<and> output_file cfg = Some ''out.img''"
  by (rule tui_path_adds_options [OF posix_shell_split gnu_getopt_simple])

end
