(* ===== verification/TuiDevice.thy ===== *)
theory TuiDevice
  imports TargetSafety TuiForm
begin

text \<open>
  The block devices the text interface offers, \<open>src/src/tui/tui_device.c\<close>: what \<open>/sys/block\<close> lists, with size,
  model and mount status. The contents of \<open>sysfs\<close>, of \<open>/proc/mounts\<close> and the answers of \<open>stat\<close> are arguments.
  \<open>is_partition_of_device\<close> is the same function there and in \<open>src/src/io_engine.c\<close>; the one of theory
  TargetSafety is used. \<open>tui_format_size\<close> only prints a rounded floating-point number and is left out.
\<close>

section \<open>The library calls\<close>

text \<open>
  The system the scan looks at: the names in \<open>/sys/block\<close> (\<open>None\<close> if it cannot be opened), the contents of the
  files under it, of \<open>/proc/mounts\<close>, and \<open>stat\<close>.
\<close>

record tui_sys =
  sys_block :: "string list option"
  sys_file :: "string \<Rightarrow> string option"
  proc_mounts :: "string option"
  sys_stat :: "string \<Rightarrow> stat_t option"

text \<open>An optional sign and the decimal digits \<open>fscanf\<close> takes for a number, after white space.\<close>

definition digits_value :: "string \<Rightarrow> nat" where
  "digits_value ds = foldl (\<lambda>n c. 10 * n + (of_char c - 48)) 0 ds"

definition scan_number :: "string \<Rightarrow> int option" where
  "scan_number s =
     (let s = dropWhile isspace s;
          neg = (take 1 s = ''-'');
          ds = takeWhile isdigit (if take 1 s \<in> {''-'', ''+''} then drop 1 s else s)
      in if ds = [] then None else Some (if neg then - int (digits_value ds) else int (digits_value ds)))"

text \<open>\<open>%llu\<close>: the largest value when the digits overflow, a negative number modulo \<open>2 ^ 64\<close>. \<open>%d\<close>: cut to \<open>long\<close>, then to \<open>int\<close>.\<close>

definition scan_llu :: "string \<Rightarrow> 64 word option" where
  "scan_llu s = map_option (\<lambda>i. if \<bar>i\<bar> < 2 ^ 64 then word_of_int i else - 1) (scan_number s)"

definition scan_d :: "string \<Rightarrow> 32 word option" where
  "scan_d s = map_option (\<lambda>i. word_of_int (max INTMAX_MIN (min INTMAX_MAX i))) (scan_number s)"

text \<open>A line of a file, read with \<open>fgets\<close> into an array of 64 that was empty.\<close>

definition trim_string :: "string \<Rightarrow> string" where
  "trim_string s = rev (dropWhile (\<lambda>c. c \<in> {CHR 0x0A, CHR 0x0D, CHR '' ''}) (rev s))"

definition read_line64 :: "string option \<Rightarrow> string" where
  "read_line64 content = (case content of None \<Rightarrow> [] | Some s \<Rightarrow> trim_string (fst (fgets 64 s)))"

section \<open>The devices\<close>

abbreviation (input) MAX_DEVICES :: nat where "MAX_DEVICES \<equiv> 64"
abbreviation (input) DEV_NAME_LEN :: nat where "DEV_NAME_LEN \<equiv> 256"
abbreviation (input) DEV_MODEL_LEN :: nat where "DEV_MODEL_LEN \<equiv> 128"
abbreviation (input) DEV_PATH_LEN :: nat where "DEV_PATH_LEN \<equiv> 512"

record tui_device =
  dev_name :: string
  dev_path :: string
  dev_model :: string
  size_bytes :: "64 word"
  is_removable :: bool
  is_system_root :: bool
  mountpoint :: string

text \<open>One line of \<open>/proc/mounts\<close>.\<close>

definition mount_line :: "(string \<Rightarrow> stat_t option) \<Rightarrow> stat_t \<Rightarrow> string \<Rightarrow> tui_device \<Rightarrow> tui_device" where
  "mount_line stat dev_st line dev =
     (case sscanf_two line of
        None \<Rightarrow> dev
      | Some (m_dev, m_point) \<Rightarrow>
          (case stat m_dev of
             None \<Rightarrow> dev
           | Some m_st \<Rightarrow>
               if s_isblk m_st \<and> dev_match (dev_path dev) dev_st m_dev m_st then
                 let dev = (if mountpoint dev = [] then dev\<lparr>mountpoint := snprintf DEV_PATH_LEN (take 255 m_point)\<rparr> else dev)
                 in if m_point \<in> set system_paths then dev\<lparr>is_system_root := True\<rparr> else dev
               else dev))"

definition check_mount_status :: "tui_sys \<Rightarrow> tui_device \<Rightarrow> tui_device" where
  "check_mount_status sys dev =
     (case proc_mounts sys of
        None \<Rightarrow> dev
      | Some mounts \<Rightarrow>
          (case sys_stat sys (dev_path dev) of
             None \<Rightarrow> dev
           | Some dev_st \<Rightarrow>
               if \<not> s_isblk dev_st then dev
               else fold (mount_line (sys_stat sys) dev_st) (fgets_lines mounts) dev))"

text \<open>The attributes of one entry of \<open>/sys/block\<close>; \<open>None\<close> for an entry that is skipped.\<close>

definition sys_attr :: "tui_sys \<Rightarrow> string \<Rightarrow> string \<Rightarrow> string option" where
  "sys_attr sys name attr = sys_file sys (snprintf 512 (''/sys/block/'' @ name @ attr))"

definition device_model :: "tui_sys \<Rightarrow> string \<Rightarrow> string" where
  "device_model sys name =
     (let vendor = read_line64 (sys_attr sys name ''/device/vendor'');
          model = read_line64 (sys_attr sys name ''/device/model'');
          model = (if model = [] then read_line64 (sys_attr sys name ''/../model'') else model)
      in snprintf DEV_MODEL_LEN
           (if vendor \<noteq> [] \<and> model \<noteq> [] then vendor @ '' '' @ model
            else if model \<noteq> [] then model
            else ''Disk Device ('' @ take 100 (snprintf DEV_NAME_LEN name) @ '')''))"

definition device_entry :: "tui_sys \<Rightarrow> string \<Rightarrow> tui_device option" where
  "device_entry sys name =
     (if at_nul name 0 = CHR ''.'' then None
      else if take 4 name = ''loop'' \<or> take 3 name = ''ram'' then None
      else
        let sectors = (case sys_attr sys name ''/size'' of None \<Rightarrow> None | Some s \<Rightarrow> scan_llu s);
            size = (case sectors of Some n \<Rightarrow> n * 512 | None \<Rightarrow> 0)
        in if size = 0 then None
           else
             let rem = (case sys_attr sys name ''/removable'' of None \<Rightarrow> None | Some s \<Rightarrow> scan_d s)
             in Some (check_mount_status sys
                  \<lparr>dev_name = snprintf DEV_NAME_LEN name, dev_path = snprintf DEV_PATH_LEN (''/dev/'' @ name),
                   dev_model = device_model sys name, size_bytes = size, is_removable = (rem = Some 1),
                   is_system_root = False, mountpoint = []\<rparr>))"

fun scan_entries :: "tui_sys \<Rightarrow> nat \<Rightarrow> string list \<Rightarrow> tui_device list" where
  "scan_entries sys room [] = []"
| "scan_entries sys room (name # names) =
     (if room = 0 then []
      else case device_entry sys name of
             None \<Rightarrow> scan_entries sys room names
           | Some dev \<Rightarrow> dev # scan_entries sys (room - 1) names)"

definition tui_scan_devices :: "tui_sys \<Rightarrow> nat \<Rightarrow> tui_device list" where
  "tui_scan_devices sys max_dev = (case sys_block sys of None \<Rightarrow> [] | Some names \<Rightarrow> scan_entries sys max_dev names)"

section \<open>What the scan finds\<close>

lemma mount_line_frame [simp]:
  "dev_path (mount_line stat st line dev) = dev_path dev" "dev_name (mount_line stat st line dev) = dev_name dev"
  "size_bytes (mount_line stat st line dev) = size_bytes dev"
  by (auto simp: mount_line_def Let_def split: option.splits)

lemma mount_lines_frame:
  "dev_path (fold (mount_line stat st) ls dev) = dev_path dev" "dev_name (fold (mount_line stat st) ls dev) = dev_name dev"
  "size_bytes (fold (mount_line stat st) ls dev) = size_bytes dev"
  by (induction ls arbitrary: dev) simp_all

lemma check_mount_frame [simp]:
  "dev_path (check_mount_status sys dev) = dev_path dev" "dev_name (check_mount_status sys dev) = dev_name dev"
  "size_bytes (check_mount_status sys dev) = size_bytes dev"
  by (auto simp: check_mount_status_def mount_lines_frame split: option.splits)

lemma mount_line_root:
  "is_system_root (mount_line stat st line dev) \<longleftrightarrow>
     is_system_root dev \<or> scan_mounts stat (dev_path dev) st [line] \<noteq> None"
  by (auto simp: mount_line_def Let_def split: option.splits)

lemma scan_mounts_Cons:
  "scan_mounts stat path st (line # ls) \<noteq> None \<longleftrightarrow>
     scan_mounts stat path st [line] \<noteq> None \<or> scan_mounts stat path st ls \<noteq> None"
  by (auto split: option.splits if_splits)

lemma mount_lines_root:
  "is_system_root (fold (mount_line stat st) ls dev) \<longleftrightarrow>
     is_system_root dev \<or> scan_mounts stat (dev_path dev) st ls \<noteq> None"
proof (induction ls arbitrary: dev)
  case (Cons line ls)
  show ?case
    using Cons.IH [of "mount_line stat st line dev"] scan_mounts_Cons [of stat "dev_path dev" st line ls]
      mount_line_root [of stat st line dev] by simp
qed simp

lemma scan_entries_device:
  "dev \<in> set (scan_entries sys room names) \<Longrightarrow> \<exists>name \<in> set names. device_entry sys name = Some dev"
  by (induction sys room names rule: scan_entries.induct) (auto split: if_splits option.splits)

lemma length_scan_entries: "length (scan_entries sys room names) \<le> room"
  by (induction sys room names rule: scan_entries.induct) (auto split: option.splits)

text \<open>
  The list has room for what is found, and holds real devices only: not empty, no loop device and no RAM disk,
  each with its path under \<open>/dev\<close> (names of at most 255 characters, as the file system has them).
\<close>

theorem tui_scan_devices_real:
  assumes "sys_block sys = Some names" and "\<forall>name \<in> set names. length name \<le> 255"
  shows "length (tui_scan_devices sys n) \<le> n \<and>
    (\<forall>dev \<in> set (tui_scan_devices sys n). size_bytes dev \<noteq> 0 \<and> dev_name dev \<in> set names \<and>
       dev_path dev = ''/dev/'' @ dev_name dev \<and> take 4 (dev_name dev) \<noteq> ''loop'' \<and> take 3 (dev_name dev) \<noteq> ''ram'')"
proof (intro conjI ballI)
  show "length (tui_scan_devices sys n) \<le> n"
    using assms(1) by (simp add: tui_scan_devices_def length_scan_entries)
  fix dev assume "dev \<in> set (tui_scan_devices sys n)"
  then obtain name where n: "name \<in> set names" and d: "device_entry sys name = Some dev"
    using assms(1) by (auto simp: tui_scan_devices_def dest: scan_entries_device)
  have "length name \<le> 255" using n assms(2) by blast
  with d n show "size_bytes dev \<noteq> 0" "dev_name dev \<in> set names" "dev_path dev = ''/dev/'' @ dev_name dev"
    "take 4 (dev_name dev) \<noteq> ''loop''" "take 3 (dev_name dev) \<noteq> ''ram''"
    by (auto simp: device_entry_def Let_def snprintf_def split: if_splits)
qed

text \<open>A system with a disk, its root partition mounted, and a loop device.\<close>

definition sys_ab :: tui_sys where
  "sys_ab = \<lparr>sys_block = Some [''loop0'', ''sda''],
     sys_file = (\<lambda>p. if p = ''/sys/block/sda/size'' then Some (''2048'' @ [CHR 0x0A])
                     else if p = ''/sys/block/sda/device/model'' then Some (''DISK  '' @ [CHR 0x0A]) else None),
     proc_mounts = Some (''/dev/sda1 / ext4 rw 0 0'' @ [CHR 0x0A]),
     sys_stat = (\<lambda>p. if p = ''/dev/sda'' then Some \<lparr>s_isblk = True, st_rdev = (8, 0)\<rparr>
                     else if p = ''/dev/sda1'' then Some \<lparr>s_isblk = True, st_rdev = (8, 1)\<rparr> else None)\<rparr>"

lemma fgets_lines_one: "s \<noteq> [] \<Longrightarrow> fgets 1024 s = (l, []) \<Longrightarrow> fgets_lines s = [l]"
  by (subst fgets_lines.simps) (simp add: fgets_lines.simps [of "[]"])

lemma sys_ab_devices:
  "tui_scan_devices sys_ab 64 =
     [\<lparr>dev_name = ''sda'', dev_path = ''/dev/sda'', dev_model = ''DISK'', size_bytes = 1048576, is_removable = False,
       is_system_root = True, mountpoint = ''/''\<rparr>]"
proof -
  have "fgets_lines (''/dev/sda1 / ext4 rw 0 0'' @ [CHR 0x0A]) = [''/dev/sda1 / ext4 rw 0 0'' @ [CHR 0x0A]]"
    by (rule fgets_lines_one) (simp_all add: fgets_def)
  then show ?thesis
    by (simp add: sys_ab_def tui_scan_devices_def device_entry_def at_nul_def sys_attr_def snprintf_def scan_llu_def
        scan_number_def isspace_def isdigit_def digits_value_def device_model_def read_line64_def fgets_def
        trim_string_def check_mount_status_def mount_line_def sscanf_two_def scan_s_def dev_match_def major_def
        after_slash_def is_partition_of_device_def system_paths_def of_char_def Let_def)
qed

theorem tui_scan_devices_real_witness:
  "length (tui_scan_devices sys_ab 64) \<le> 64 \<and> dev_path (hd (tui_scan_devices sys_ab 64)) = ''/dev/sda''"
  using tui_scan_devices_real [of sys_ab "[''loop0'', ''sda'']" 64] sys_ab_devices by (simp add: sys_ab_def)

text \<open>
  C15: the list and the guard agree: a device is tagged as the system disk exactly when the safety guard of the copy
  (\<open>src/src/io_engine.c\<close>) finds a mounted system path on it.
\<close>

theorem tui_root_tag_is_the_guard:
  assumes "dev \<in> set (tui_scan_devices sys n)"
  shows "is_system_root dev \<longleftrightarrow>
    (\<exists>m. evaluate_target_safety (sys_stat sys) (proc_mounts sys) swaps sz (Some (dev_path dev)) =
       TARGET_SAFETY_MOUNTED_SYSTEM m)"
proof -
  obtain name where d: "device_entry sys name = Some dev"
    using assms by (auto simp: tui_scan_devices_def split: option.splits dest: scan_entries_device)
  then obtain dev0 where dev: "dev = check_mount_status sys dev0" and "\<not> is_system_root dev0"
    by (auto simp: device_entry_def Let_def split: if_splits)
  then show ?thesis
    by (auto simp: evaluate_target_safety_def check_mount_status_def mount_lines_root mount_lines_frame split: option.splits)
qed

theorem tui_root_tag_is_the_guard_witness:
  "\<exists>m. evaluate_target_safety (sys_stat sys_ab) (proc_mounts sys_ab) None 512 (Some ''/dev/sda'') =
     TARGET_SAFETY_MOUNTED_SYSTEM m"
  using tui_root_tag_is_the_guard [of "hd (tui_scan_devices sys_ab 64)" sys_ab 64 None 512] sys_ab_devices by simp

end
