(* ===== verification/TuiPicker.thy ===== *)
theory TuiPicker
  imports TuiDevice "HOL-Library.Multiset" "HOL-Library.List_Lexorder" "HOL-Library.Char_ord"
begin

text \<open>
  The dialogs of \<open>src/src/tui/tui_file_picker.c\<close>: choosing a block device, choosing a file while walking through
  directories, and choosing a program for a pipeline. What the user does is an argument: the keys \<open>wgetch\<close> returns
  and the lines \<open>wgetnstr\<close> returns, each consumed in order. The file system stays as it is while a dialog is open.
  The drawing is left out; \<open>qsort\<close> is a parameter.
\<close>

section \<open>Input\<close>

datatype tui_key =
  KEY_UP | KEY_DOWN | KEY_LEFT | KEY_RIGHT | KEY_BTAB | KEY_ENTER | KEY_CHAR char | KEY_OTHER

record ui =
  keys :: "tui_key list"
  typed :: "string list"

text \<open>A dialog is done, waits for input that does not come, or accesses an array out of bounds.\<close>

datatype 'a dialog = Done 'a ui | Waits | OutOfBounds

fun dialog_bind :: "'a dialog \<Rightarrow> ('a \<Rightarrow> ui \<Rightarrow> 'b dialog) \<Rightarrow> 'b dialog" where
  "dialog_bind (Done a u) f = f a u"
| "dialog_bind Waits f = Waits"
| "dialog_bind OutOfBounds f = OutOfBounds"

text \<open>\<open>wgetnstr (w, buf, n)\<close>: the line typed, at most \<open>n\<close> characters of it; what was in \<open>buf\<close> is overwritten.\<close>

definition wgetnstr :: "string \<Rightarrow> nat \<Rightarrow> ui \<Rightarrow> string dialog" where
  "wgetnstr buf n u = (case typed u of [] \<Rightarrow> Waits | l # ls \<Rightarrow> Done (take n l) (u\<lparr>typed := ls\<rparr>))"

definition esc_key :: "tui_key \<Rightarrow> bool" where
  "esc_key k \<longleftrightarrow> k \<in> {KEY_CHAR CHR 0x1B, KEY_CHAR CHR ''q'', KEY_CHAR CHR ''Q''}"

definition enter_key :: "tui_key \<Rightarrow> bool" where
  "enter_key k \<longleftrightarrow> k \<in> {KEY_CHAR CHR 0x0A, KEY_ENTER}"

section \<open>The order of the entries\<close>

record file_entry =
  fe_name :: string
  is_dir :: bool
  fe_size :: "64 word"

fun strcmp :: "string \<Rightarrow> string \<Rightarrow> int" where
  "strcmp [] [] = 0"
| "strcmp [] (b # bs) = - 1"
| "strcmp (a # as) [] = 1"
| "strcmp (a # as) (b # bs) =
     (if a = b then strcmp as bs else if (of_char a :: nat) < of_char b then - 1 else 1)"

definition compare_entries :: "file_entry \<Rightarrow> file_entry \<Rightarrow> int" where
  "compare_entries fa fb =
     (if streq (fe_name fa) ''..'' then - 1
      else if streq (fe_name fb) ''..'' then 1
      else if is_dir fa \<and> \<not> is_dir fb then - 1
      else if \<not> is_dir fa \<and> is_dir fb then 1
      else strcmp (fe_name fa) (fe_name fb))"

text \<open>What C promises of \<open>qsort\<close> for a comparison that orders the different elements consistently.\<close>

definition orders :: "('a \<Rightarrow> 'a \<Rightarrow> int) \<Rightarrow> 'a set \<Rightarrow> bool" where
  "orders cmp A \<longleftrightarrow>
     (\<forall>a \<in> A. \<forall>b \<in> A. a \<noteq> b \<longrightarrow> (cmp a b < 0 \<longleftrightarrow> 0 < cmp b a)) \<and>
     (\<forall>a \<in> A. \<forall>b \<in> A. \<forall>c \<in> A. a \<noteq> b \<longrightarrow> b \<noteq> c \<longrightarrow> a \<noteq> c \<longrightarrow> cmp a b \<le> 0 \<longrightarrow> cmp b c \<le> 0 \<longrightarrow> cmp a c \<le> 0)"

type_synonym qsort = "(file_entry \<Rightarrow> file_entry \<Rightarrow> int) \<Rightarrow> file_entry list \<Rightarrow> file_entry list"

definition qsort_ok :: "qsort \<Rightarrow> bool" where
  "qsort_ok qsort \<longleftrightarrow>
     (\<forall>cmp xs. distinct xs \<longrightarrow> orders cmp (set xs) \<longrightarrow>
        mset (qsort cmp xs) = mset xs \<and> sorted_wrt (\<lambda>a b. cmp a b \<le> 0) (qsort cmp xs))"

section \<open>Choosing a block device\<close>

fun pick_device_loop :: "tui_device list \<Rightarrow> nat \<Rightarrow> nat \<Rightarrow> tui_key list \<Rightarrow> string list \<Rightarrow> string option dialog" where
  "pick_device_loop devs out_len selected [] ls = Waits"
| "pick_device_loop devs out_len selected (ch # ks) ls =
     (if esc_key ch then Done None \<lparr>keys = ks, typed = ls\<rparr>
      else if ch = KEY_UP \<and> 0 < selected then pick_device_loop devs out_len (selected - 1) ks ls
      else if ch = KEY_DOWN \<and> selected + 1 < length devs then pick_device_loop devs out_len (selected + 1) ks ls
      else if enter_key ch then
        (if selected < length devs
         then Done (Some (snprintf out_len (dev_path (devs ! selected)))) \<lparr>keys = ks, typed = ls\<rparr>
         else OutOfBounds)
      else pick_device_loop devs out_len selected ks ls)"

text \<open>\<open>Some path\<close> for a result of 0 with \<open>path\<close> in \<open>out_selected\<close>, \<open>None\<close> for \<open>-1\<close>.\<close>

definition tui_pick_device :: "tui_sys \<Rightarrow> nat \<Rightarrow> ui \<Rightarrow> string option dialog" where
  "tui_pick_device sys out_len u =
     (let devs = tui_scan_devices sys MAX_DEVICES
      in if length devs = 0 then Done None u else pick_device_loop devs out_len 0 (keys u) (typed u))"

section \<open>Choosing a file\<close>

text \<open>
  The file system: what \<open>readdir\<close> lists in a directory (\<open>None\<close> if it cannot be opened), and \<open>stat\<close>: is it a
  directory, and its size.
\<close>

record tui_fs =
  fs_dir :: "string \<Rightarrow> string list option"
  fs_stat :: "string \<Rightarrow> (bool \<times> 64 word) option"
  fs_cwd :: "string option"

abbreviation (input) MAX_ENTRIES :: nat where "MAX_ENTRIES \<equiv> 512"

definition new_entry :: "tui_fs \<Rightarrow> string \<Rightarrow> string \<Rightarrow> file_entry" where
  "new_entry fs cur_dir d_name =
     (let full = snprintf 1400 (take 1000 (if streq cur_dir ''/'' then [] else cur_dir) @ ''/'' @ take 255 d_name)
      in case fs_stat fs full of
           Some (dir, sz) \<Rightarrow> \<lparr>fe_name = snprintf 256 d_name, is_dir = dir, fe_size = sz\<rparr>
         | None \<Rightarrow> \<lparr>fe_name = snprintf 256 d_name, is_dir = False, fe_size = 0\<rparr>)"

definition listed :: "string \<Rightarrow> string \<Rightarrow> bool" where
  "listed cur_dir d_name \<longleftrightarrow> \<not> streq d_name ''.'' \<and> \<not> (streq cur_dir ''/'' \<and> streq d_name ''..'')"

definition read_entries :: "tui_fs \<Rightarrow> string \<Rightarrow> file_entry list" where
  "read_entries fs cur_dir =
     (case fs_dir fs cur_dir of
        None \<Rightarrow> []
      | Some names \<Rightarrow> map (new_entry fs cur_dir) (take MAX_ENTRIES (filter (listed cur_dir) names)))"

text \<open>Where \<open>strrchr (p, '/')\<close> points.\<close>

definition last_slash :: "string \<Rightarrow> nat option" where
  "last_slash p =
     (if CHR ''/'' \<in> set p then Some (length p - 1 - length (takeWhile (\<lambda>c. c \<noteq> CHR ''/'') (rev p))) else None)"

text \<open>Going up: the path is cut at its last slash, which stays if it is the first character.\<close>

definition parent_dir :: "string \<Rightarrow> string" where
  "parent_dir p = (case last_slash p of None \<Rightarrow> p | Some i \<Rightarrow> if i = 0 then take 1 p else take i p)"

definition enter_dir :: "string \<Rightarrow> string \<Rightarrow> string" where
  "enter_dir cur_dir name =
     (if streq name ''..'' then parent_dir cur_dir
      else if streq cur_dir ''/'' then snprintf 1024 (''/'' @ name)
      else cur_dir @ snprintf (1024 - length cur_dir) (''/'' @ name))"

definition join_path :: "string \<Rightarrow> string \<Rightarrow> string" where
  "join_path dir name = (if streq dir ''/'' then ''/'' @ name else dir @ ''/'' @ name)"

definition new_file_path :: "nat \<Rightarrow> string \<Rightarrow> string \<Rightarrow> string" where
  "new_file_path out_len dir name =
     snprintf out_len (if streq dir ''/'' then ''/'' @ take 255 name else take 500 dir @ ''/'' @ take 255 name)"

definition prompt_new_file :: "string \<Rightarrow> nat \<Rightarrow> ui \<Rightarrow> string option dialog" where
  "prompt_new_file dir out_len u =
     dialog_bind (wgetnstr [] 255 u)
       (\<lambda>name u. Done (if name = [] then None else Some (new_file_path out_len dir name)) u)"

text \<open>\<open>getcwd (buf, size)\<close> fails if the path does not fit.\<close>

definition getcwd :: "tui_fs \<Rightarrow> nat \<Rightarrow> string option" where
  "getcwd fs sz = (case fs_cwd fs of Some d \<Rightarrow> if length d < sz then Some d else None | None \<Rightarrow> None)"

definition start_dir :: "tui_fs \<Rightarrow> string option \<Rightarrow> string" where
  "start_dir fs start_path =
     (let here = (case getcwd fs 1024 of Some d \<Rightarrow> d | None \<Rightarrow> ''/'');
          cur_dir = (case start_path of
                       Some p \<Rightarrow> if at_nul p 0 = CHR ''/'' then snprintf 1024 p else here
                     | None \<Rightarrow> here)
      in case fs_stat fs cur_dir of
           Some (dir, _) \<Rightarrow> if \<not> dir then parent_dir cur_dir else cur_dir
         | None \<Rightarrow> cur_dir)"

text \<open>At the top of each turn the selection is moved into the list, and the window of 15 lines to the selection.\<close>

definition clamp_selected :: "nat \<Rightarrow> nat \<Rightarrow> nat" where
  "clamp_selected selected n_entries = (if n_entries \<le> selected \<and> 0 < n_entries then n_entries - 1 else selected)"

definition scroll_to :: "nat \<Rightarrow> nat \<Rightarrow> nat" where
  "scroll_to selected scroll_offset =
     (if selected < scroll_offset then selected
      else if scroll_offset + 15 \<le> selected then selected - 15 + 1
      else scroll_offset)"

record pick_state =
  cur_dir :: string
  selected :: nat
  scroll_offset :: nat

text \<open>What a turn of the loop comes to: the dialog is left, goes on, waits for a line, or has read out of bounds.\<close>

datatype turn = Leave "string option" "string list" | Stay pick_state "string list" | Blocked | Broken

definition pick_file_turn :: "tui_fs \<Rightarrow> qsort \<Rightarrow> nat \<Rightarrow> pick_state \<Rightarrow> tui_key \<Rightarrow> string list \<Rightarrow> turn" where
  "pick_file_turn fs qsort out_len st ch ls =
     (let entries = qsort compare_entries (read_entries fs (cur_dir st));
          n_entries = length entries;
          sel = clamp_selected (selected st) n_entries;
          st = st\<lparr>selected := sel, scroll_offset := scroll_to sel (scroll_offset st)\<rparr>
      in if esc_key ch then Leave None ls
         else if ch = KEY_CHAR CHR ''n'' \<or> ch = KEY_CHAR CHR ''N'' then
           (case prompt_new_file (cur_dir st) out_len \<lparr>keys = [], typed = ls\<rparr> of
              Done (Some path) u \<Rightarrow> Leave (Some path) (typed u)
            | Done None u \<Rightarrow> Stay st (typed u)
            | Waits \<Rightarrow> Blocked
            | OutOfBounds \<Rightarrow> Broken)
         else if ch = KEY_UP \<and> 0 < sel then Stay (st\<lparr>selected := sel - 1\<rparr>) ls
         else if ch = KEY_DOWN \<and> sel + 1 < n_entries then Stay (st\<lparr>selected := sel + 1\<rparr>) ls
         else if enter_key ch then
           (if n_entries = 0 then Stay st ls
            else if \<not> sel < n_entries then Broken
            else if is_dir (entries ! sel)
              then Stay \<lparr>cur_dir = enter_dir (cur_dir st) (fe_name (entries ! sel)), selected = 0, scroll_offset = 0\<rparr> ls
            else Leave (Some (snprintf out_len (join_path (cur_dir st) (fe_name (entries ! sel))))) ls)
         else Stay st ls)"

fun pick_file_loop :: "tui_fs \<Rightarrow> qsort \<Rightarrow> nat \<Rightarrow> pick_state \<Rightarrow> tui_key list \<Rightarrow> string list \<Rightarrow> string option dialog" where
  "pick_file_loop fs qsort out_len st [] ls = Waits"
| "pick_file_loop fs qsort out_len st (ch # ks) ls =
     (case pick_file_turn fs qsort out_len st ch ls of
        Leave r ls' \<Rightarrow> Done r \<lparr>keys = ks, typed = ls'\<rparr>
      | Stay st' ls' \<Rightarrow> pick_file_loop fs qsort out_len st' ks ls'
      | Blocked \<Rightarrow> Waits
      | Broken \<Rightarrow> OutOfBounds)"

definition tui_pick_file :: "tui_fs \<Rightarrow> qsort \<Rightarrow> string option \<Rightarrow> nat \<Rightarrow> ui \<Rightarrow> string option dialog" where
  "tui_pick_file fs qsort start_path out_len u =
     pick_file_loop fs qsort out_len \<lparr>cur_dir = start_dir fs start_path, selected = 0, scroll_offset = 0\<rparr> (keys u) (typed u)"

section \<open>Choosing a program\<close>

definition presets_in :: "string list" where
  "presets_in = [''stdin'', ''zstd -dc backup.img.zst'', ''gzip -dc backup.img.gz'', ''xz -dc backup.img.xz'',
     ''curl -sL https://example.com/image.iso'', ''ssh user@host \"cat /dev/sda\"'', []]"

definition presets_out :: "string list" where
  "presets_out = [''stdout'', ''zstd -c > backup.img.zst'', ''gzip -c > backup.img.gz'', ''xz -c > backup.img.xz'',
     ''ssh user@host \"dd of=/dev/sda\"'', []]"

text \<open>After the choice the line is edited: \<open>input\<close> holds the preset when \<open>wgetnstr\<close> is called.\<close>

fun pick_pipe_loop :: "string list \<Rightarrow> nat \<Rightarrow> nat \<Rightarrow> tui_key list \<Rightarrow> string list \<Rightarrow> string option dialog" where
  "pick_pipe_loop presets out_len sel [] ls = Waits"
| "pick_pipe_loop presets out_len sel (ch # ks) ls =
     (if esc_key ch then Done None \<lparr>keys = ks, typed = ls\<rparr>
      else if ch = KEY_UP \<and> 0 < sel then pick_pipe_loop presets out_len (sel - 1) ks ls
      else if ch = KEY_DOWN \<and> sel + 1 < length presets then pick_pipe_loop presets out_len (sel + 1) ks ls
      else if enter_key ch then
        (if sel < length presets
         then dialog_bind (wgetnstr (presets ! sel) 255 \<lparr>keys = ks, typed = ls\<rparr>)
                (\<lambda>input u. Done (if input \<noteq> [] then Some (snprintf out_len input) else None) u)
         else OutOfBounds)
      else pick_pipe_loop presets out_len sel ks ls)"

definition tui_pick_pipe :: "bool \<Rightarrow> nat \<Rightarrow> ui \<Rightarrow> string option dialog" where
  "tui_pick_pipe is_input out_len u =
     pick_pipe_loop (if is_input then presets_in else presets_out) out_len 0 (keys u) (typed u)"

section \<open>Bounds\<close>

lemma pick_device_bounds: "sel < length devs \<Longrightarrow> pick_device_loop devs n sel ks ls \<noteq> OutOfBounds"
  by (induction devs n sel ks ls rule: pick_device_loop.induct) auto

lemma pick_pipe_bounds: "sel < length ps \<Longrightarrow> pick_pipe_loop ps n sel ks ls \<noteq> OutOfBounds"
  by (induction ps n sel ks ls rule: pick_pipe_loop.induct) (auto simp: wgetnstr_def split: list.splits)

lemma clamp_selected_less: "0 < n \<Longrightarrow> clamp_selected s n < n"
  by (simp add: clamp_selected_def)

text \<open>The outcomes of a turn.\<close>

lemma new_file_cases:
  "prompt_new_file dir n \<lparr>keys = ks, typed = ls\<rparr> =
     (case ls of [] \<Rightarrow> Waits
      | l # ls' \<Rightarrow> Done (if take 255 l = [] then None else Some (new_file_path n dir (take 255 l))) \<lparr>keys = ks, typed = ls'\<rparr>)"
  by (cases ls) (simp_all add: prompt_new_file_def wgetnstr_def)

lemma turn_not_broken: "pick_file_turn fs qs n st ch ls \<noteq> Broken"
  by (simp add: pick_file_turn_def Let_def clamp_selected_less new_file_cases split: list.split)

lemma pick_file_bounds: "pick_file_loop fs qs n st ks ls \<noteq> OutOfBounds"
  by (induction fs qs n st ks ls rule: pick_file_loop.induct) (auto simp: turn_not_broken split: turn.split)

text \<open>Whatever keys are pressed, no dialog looks outside the list it shows.\<close>

theorem tui_dialogs_in_bounds:
  "tui_pick_device sys n u \<noteq> OutOfBounds \<and> tui_pick_file fs qs start n u \<noteq> OutOfBounds \<and> tui_pick_pipe b n u \<noteq> OutOfBounds"
  by (simp add: tui_pick_device_def Let_def pick_device_bounds tui_pick_file_def pick_file_bounds tui_pick_pipe_def
      pick_pipe_bounds presets_in_def presets_out_def)

section \<open>The order of the listing\<close>

lemma strcmp_less: "strcmp a b < 0 \<longleftrightarrow> a < b"
  by (induction a b rule: strcmp.induct) (auto simp: less_char_def)

lemma strcmp_zero: "strcmp a b = 0 \<longleftrightarrow> a = b"
  by (induction a b rule: strcmp.induct) auto

text \<open>The parent first, then the directories, then the files; by name within each kind.\<close>

definition entry_rank :: "file_entry \<Rightarrow> nat" where
  "entry_rank e = (if fe_name e = ''..'' then 0 else if is_dir e then 1 else 2)"

definition listed_before :: "file_entry \<Rightarrow> file_entry \<Rightarrow> bool" where
  "listed_before a b \<longleftrightarrow> entry_rank a < entry_rank b \<or> entry_rank a = entry_rank b \<and> fe_name a < fe_name b"

lemma compare_before:
  assumes "fe_name a \<noteq> fe_name b"
  shows "compare_entries a b < 0 \<longleftrightarrow> listed_before a b" "compare_entries a b \<le> 0 \<longleftrightarrow> listed_before a b"
    "0 < compare_entries a b \<longleftrightarrow> listed_before b a"
proof -
  have l: "strcmp (fe_name a) (fe_name b) < 0 \<longleftrightarrow> fe_name a < fe_name b" by (rule strcmp_less)
  have z: "strcmp (fe_name a) (fe_name b) \<noteq> 0" using assms by (simp add: strcmp_zero)
  have g: "0 < strcmp (fe_name a) (fe_name b) \<longleftrightarrow> fe_name b < fe_name a"
    using l z assms by (metis linorder_neqE not_less_iff_gr_or_eq)
  show "compare_entries a b < 0 \<longleftrightarrow> listed_before a b" "0 < compare_entries a b \<longleftrightarrow> listed_before b a"
    using assms by (auto simp: compare_entries_def streq_def listed_before_def entry_rank_def l g)
  show "compare_entries a b \<le> 0 \<longleftrightarrow> listed_before a b"
    using assms z l by (auto simp: compare_entries_def streq_def listed_before_def entry_rank_def le_less)
qed

lemma listed_before_trans: "listed_before a b \<Longrightarrow> listed_before b c \<Longrightarrow> listed_before a c"
  by (auto simp: listed_before_def)

lemma compare_orders:
  assumes "inj_on fe_name A"
  shows "orders compare_entries A"
proof -
  have n: "a \<in> A \<Longrightarrow> b \<in> A \<Longrightarrow> a \<noteq> b \<Longrightarrow> fe_name a \<noteq> fe_name b" for a b
    using assms by (auto dest: inj_onD)
  show ?thesis
    unfolding orders_def
  proof (intro conjI ballI impI)
    fix a b assume "a \<in> A" "b \<in> A" "a \<noteq> b"
    with n have "fe_name a \<noteq> fe_name b" "fe_name b \<noteq> fe_name a" by blast+
    then show "(compare_entries a b < 0) = (0 < compare_entries b a)" by (simp add: compare_before)
  next
    fix a b c assume abc: "a \<in> A" "b \<in> A" "c \<in> A" "a \<noteq> b" "b \<noteq> c" "a \<noteq> c"
      and le: "compare_entries a b \<le> 0" "compare_entries b c \<le> 0"
    then have "fe_name a \<noteq> fe_name b" "fe_name b \<noteq> fe_name c" "fe_name a \<noteq> fe_name c" using n by blast+
    with le show "compare_entries a c \<le> 0" using listed_before_trans [of a b c] by (simp add: compare_before)
  qed
qed

text \<open>A directory lists every name once; a name is not empty, has no slash and at most 255 characters.\<close>

definition fs_ok :: "tui_fs \<Rightarrow> bool" where
  "fs_ok fs \<longleftrightarrow>
     (\<forall>d names. fs_dir fs d = Some names \<longrightarrow>
        distinct names \<and> (\<forall>n \<in> set names. n \<noteq> [] \<and> length n \<le> 255 \<and> CHR ''/'' \<notin> set n))"

lemma fe_name_new_entry: "fe_name (new_entry fs d n) = snprintf 256 n"
  by (simp add: new_entry_def Let_def split: option.split)

lemma read_entries_names:
  "fs_ok fs \<Longrightarrow> fs_dir fs d = Some names \<Longrightarrow>
     map fe_name (read_entries fs d) = take MAX_ENTRIES (filter (listed d) names)"
  by (auto simp: read_entries_def fs_ok_def fe_name_new_entry snprintf_def comp_def intro!: map_idI dest!: in_set_takeD)

lemma read_entries_distinct: "fs_ok fs \<Longrightarrow> distinct (map fe_name (read_entries fs d))"
proof (cases "fs_dir fs d")
  case (Some names)
  assume "fs_ok fs"
  with Some have "distinct names" by (simp add: fs_ok_def)
  then show ?thesis using read_entries_names [OF \<open>fs_ok fs\<close> Some] by (simp add: distinct_take)
qed (simp add: read_entries_def)

lemma sorted_entries:
  assumes "fs_ok fs" and "qsort_ok qs"
  shows "mset (qs compare_entries (read_entries fs d)) = mset (read_entries fs d)"
    and "sorted_wrt listed_before (qs compare_entries (read_entries fs d))"
proof -
  let ?xs = "read_entries fs d" and ?ys = "qs compare_entries (read_entries fs d)"
  have d: "distinct (map fe_name ?xs)" by (rule read_entries_distinct [OF assms(1)])
  then have "inj_on fe_name (set ?xs)" "distinct ?xs" by (auto simp: distinct_map)
  then have m: "mset ?ys = mset ?xs" and s: "sorted_wrt (\<lambda>a b. compare_entries a b \<le> 0) ?ys"
    using assms(2) compare_orders unfolding qsort_ok_def by blast+
  then show "mset ?ys = mset ?xs" by simp
  have dy: "distinct (map fe_name ?ys)"
    using d m by (metis mset_map mset_eq_imp_distinct_iff)
  show "sorted_wrt listed_before ?ys"
    unfolding sorted_wrt_iff_nth_less
  proof (intro allI impI)
    fix i j assume ij: "i < j" "j < length ?ys"
    then have "compare_entries (?ys ! i) (?ys ! j) \<le> 0" using s by (simp add: sorted_wrt_iff_nth_less)
    moreover have "fe_name (?ys ! i) \<noteq> fe_name (?ys ! j)"
      using nth_eq_iff_index_eq [OF dy, of i j] ij by simp
    ultimately show "listed_before (?ys ! i) (?ys ! j)" by (simp add: compare_before)
  qed
qed

text \<open>
  C39: the listing of a directory has every entry once, the parent first, then the directories, then the files, each
  by name. The comparison given to \<open>qsort\<close> is consistent on the entries of a directory, which its contract asks for.
\<close>

theorem tui_listing_sorted:
  assumes "fs_ok fs" and "qsort_ok qs"
  shows "orders compare_entries (set (read_entries fs d)) \<and>
    mset (qs compare_entries (read_entries fs d)) = mset (read_entries fs d) \<and>
    sorted_wrt listed_before (qs compare_entries (read_entries fs d))"
  using sorted_entries [OF assms] compare_orders read_entries_distinct [OF assms(1)] by (simp add: distinct_map)

text \<open>A sort of this kind, and a small file system, for the witnesses.\<close>

fun ins :: "('a \<Rightarrow> 'a \<Rightarrow> int) \<Rightarrow> 'a \<Rightarrow> 'a list \<Rightarrow> 'a list" where
  "ins cmp x [] = [x]"
| "ins cmp x (y # ys) = (if cmp x y \<le> 0 then x # y # ys else y # ins cmp x ys)"

definition isort :: qsort where "isort cmp xs = foldr (ins cmp) xs []"

lemma mset_ins [simp]: "mset (ins cmp x xs) = add_mset x (mset xs)"
  by (induction xs) auto

lemma set_ins [simp]: "set (ins cmp x xs) = insert x (set xs)"
  by (induction xs) auto

lemma orders_subset: "orders cmp B \<Longrightarrow> A \<subseteq> B \<Longrightarrow> orders cmp A"
  unfolding orders_def by (meson subsetD)

lemma orders_swap: "orders cmp A \<Longrightarrow> a \<in> A \<Longrightarrow> b \<in> A \<Longrightarrow> a \<noteq> b \<Longrightarrow> \<not> cmp a b \<le> 0 \<Longrightarrow> cmp b a < 0"
  unfolding orders_def by (simp add: not_le)

lemma orders_trans:
  "orders cmp A \<Longrightarrow> a \<in> A \<Longrightarrow> b \<in> A \<Longrightarrow> c \<in> A \<Longrightarrow> a \<noteq> b \<Longrightarrow> b \<noteq> c \<Longrightarrow> a \<noteq> c \<Longrightarrow>
     cmp a b \<le> 0 \<Longrightarrow> cmp b c \<le> 0 \<Longrightarrow> cmp a c \<le> 0"
  unfolding orders_def by blast

lemma sorted_ins:
  "orders cmp (insert x (set xs)) \<Longrightarrow> distinct (x # xs) \<Longrightarrow> sorted_wrt (\<lambda>a b. cmp a b \<le> 0) xs \<Longrightarrow>
     sorted_wrt (\<lambda>a b. cmp a b \<le> 0) (ins cmp x xs)"
proof (induction xs)
  case (Cons y ys)
  have o': "orders cmp (insert x (set ys))" by (rule orders_subset [OF Cons.prems(1)]) auto
  show ?case
  proof (cases "cmp x y \<le> 0")
    case True
    have "cmp x z \<le> 0" if "z \<in> set ys" for z
    proof -
      have "cmp y z \<le> 0" "z \<noteq> x" "z \<noteq> y" "x \<noteq> y" using that Cons.prems by auto
      then show ?thesis using orders_trans [OF Cons.prems(1), of x y z] True that by auto
    qed
    with True Cons.prems(3) show ?thesis by auto
  next
    case False
    moreover have "x \<noteq> y" using Cons.prems(2) by auto
    ultimately have "cmp y x < 0" using orders_swap [OF Cons.prems(1), of x y] by auto
    with False Cons.IH [OF o'] Cons.prems show ?thesis by auto
  qed
qed simp

lemma qsort_ok_isort: "qsort_ok isort"
proof -
  have "mset (foldr (ins cmp) xs []) = mset xs \<and> sorted_wrt (\<lambda>a b. cmp a b \<le> 0) (foldr (ins cmp) xs [])"
    if "distinct xs" "orders cmp (set xs)" for cmp and xs :: "file_entry list"
    using that
  proof (induction xs)
    case (Cons x xs)
    have o': "orders cmp (set xs)" by (rule orders_subset [OF Cons.prems(2)]) auto
    have ih: "mset (foldr (ins cmp) xs []) = mset xs" "sorted_wrt (\<lambda>a b. cmp a b \<le> 0) (foldr (ins cmp) xs [])"
      using Cons.IH [OF _ o'] Cons.prems(1) by auto
    then have "set (foldr (ins cmp) xs []) = set xs" "distinct (foldr (ins cmp) xs [])"
      using Cons.prems(1) by (metis set_mset_mset, metis distinct.simps(2) mset_eq_imp_distinct_iff)
    then show ?case using ih Cons.prems sorted_ins [of cmp x "foldr (ins cmp) xs []"] by simp
  qed simp
  then show ?thesis by (simp add: qsort_ok_def isort_def)
qed

definition fs_ab :: tui_fs where
  "fs_ab = \<lparr>fs_dir = (\<lambda>d. if d = ''/'' then Some [''.'', ''img'', ''..'', ''a.txt'']
                          else if d = ''/img'' then Some [''z.iso'', ''..'', ''b.iso''] else None),
     fs_stat = (\<lambda>p. if p \<in> {''/'', ''/img'', ''/img/..''} then Some (True, 0)
                    else if p \<in> {''/a.txt'', ''/img/z.iso'', ''/img/b.iso''} then Some (False, 7) else None),
     fs_cwd = Some ''/''\<rparr>"

lemma fs_ok_ab: "fs_ok fs_ab"
  by (auto simp: fs_ok_def fs_ab_def split: if_splits)

theorem tui_listing_sorted_witness:
  "map fe_name (read_entries fs_ab ''/img'') = [''z.iso'', ''..'', ''b.iso''] \<and>
   sorted_wrt listed_before (isort compare_entries (read_entries fs_ab ''/img''))"
  using tui_listing_sorted [OF fs_ok_ab qsort_ok_isort, of "''/img''"]
    read_entries_names [OF fs_ok_ab, of "''/img''"] by (simp add: fs_ab_def listed_def streq_def)

section \<open>Walking through directories\<close>

lemma last_slash_append:
  "CHR ''/'' \<notin> set n \<Longrightarrow> last_slash (d @ CHR ''/'' # n) = Some (length d)"
proof -
  assume "CHR ''/'' \<notin> set n"
  then have "takeWhile (\<lambda>c. c \<noteq> CHR ''/'') (rev (d @ CHR ''/'' # n)) = rev n"
    by (simp, subst takeWhile_append2) auto
  then show ?thesis by (simp add: last_slash_def)
qed

text \<open>
  Going into a directory and up again leads back, from the root and from below, as long as the path fits the
  buffer of 1024.
\<close>

theorem tui_enter_then_up:
  assumes "name \<noteq> []" and "name \<noteq> ''..''" and "CHR ''/'' \<notin> set name" and "dir \<noteq> []"
    and "length dir + length name < 1023"
  shows "enter_dir (enter_dir dir name) ''..'' = dir"
proof (cases "dir = ''/''")
  case True
  have "last_slash (''/'' @ name) = Some 0" using last_slash_append [OF assms(3), of "[]"] by simp
  then show ?thesis using True assms by (simp add: enter_dir_def streq_def snprintf_def parent_dir_def)
next
  case False
  have "enter_dir dir name = dir @ ''/'' @ name"
    using False assms by (simp add: enter_dir_def streq_def snprintf_def)
  then show ?thesis using assms last_slash_append [OF assms(3), of dir] by (simp add: enter_dir_def streq_def parent_dir_def)
qed

theorem tui_enter_then_up_witness: "enter_dir (enter_dir ''/home/user'' ''img'') ''..'' = ''/home/user''"
  by (rule tui_enter_then_up) simp_all

text \<open>The directories one gets to from \<open>s\<close> by entering what is listed.\<close>

inductive walk :: "tui_fs \<Rightarrow> string \<Rightarrow> string \<Rightarrow> bool" for fs s where
  start: "walk fs s s"
| enter: "walk fs s d \<Longrightarrow> e \<in> set (read_entries fs d) \<Longrightarrow> is_dir e \<Longrightarrow> walk fs s (enter_dir d (fe_name e))"

text \<open>A path the dialog may return in directory \<open>d\<close>: a file listed there, or a new name typed.\<close>

definition offered :: "tui_fs \<Rightarrow> nat \<Rightarrow> string list \<Rightarrow> string \<Rightarrow> string \<Rightarrow> bool" where
  "offered fs out_len ls d path \<longleftrightarrow>
     (\<exists>e \<in> set (read_entries fs d). \<not> is_dir e \<and> path = snprintf out_len (join_path d (fe_name e))) \<or>
     (\<exists>l \<in> set ls. take 255 l \<noteq> [] \<and> path = new_file_path out_len d (take 255 l))"

lemma turn_leaves:
  assumes "fs_ok fs" and "qsort_ok qs" and "pick_file_turn fs qs n st ch ls = Leave (Some path) ls'"
  shows "offered fs n ls (cur_dir st) path"
proof -
  have s: "set (qs compare_entries (read_entries fs d)) = set (read_entries fs d)" for d
    using sorted_entries(1) [OF assms(1,2)] by (metis set_mset_mset)
  have nth: "i < length (qs compare_entries (read_entries fs d)) \<Longrightarrow>
      qs compare_entries (read_entries fs d) ! i \<in> set (read_entries fs d)" for i d
    using s by (metis nth_mem)
  show ?thesis
    using assms(3) nth
    by (auto simp: pick_file_turn_def Let_def new_file_cases offered_def split: if_splits list.splits)
qed

lemma turn_stays:
  assumes "fs_ok fs" and "qsort_ok qs" and "pick_file_turn fs qs n st ch ls = Stay st' ls'"
    and "walk fs s (cur_dir st)"
  shows "walk fs s (cur_dir st') \<and> set ls' \<subseteq> set ls"
proof -
  have s: "set (qs compare_entries (read_entries fs d)) = set (read_entries fs d)" for d
    using sorted_entries(1) [OF assms(1,2)] by (metis set_mset_mset)
  have nth: "i < length (qs compare_entries (read_entries fs d)) \<Longrightarrow>
      qs compare_entries (read_entries fs d) ! i \<in> set (read_entries fs d)" for i d
    using s by (metis nth_mem)
  show ?thesis
    using assms(3,4)
    by (auto simp: pick_file_turn_def Let_def new_file_cases intro!: walk.enter [OF assms(4)] nth split: if_splits list.splits)
qed

lemma pick_file_loop_offers:
  "pick_file_loop fs qs n st ks ls = Done (Some path) u \<Longrightarrow> fs_ok fs \<Longrightarrow> qsort_ok qs \<Longrightarrow> walk fs s (cur_dir st) \<Longrightarrow>
     \<exists>d. walk fs s d \<and> offered fs n ls d path"
proof (induction fs qs n st ks ls rule: pick_file_loop.induct)
  case (2 fs qs n st ch ks ls)
  show ?case
  proof (cases "pick_file_turn fs qs n st ch ls")
    case (Leave r ls')
    with "2.prems" turn_leaves [of fs qs n st ch ls path ls'] show ?thesis by auto
  next
    case (Stay st' ls')
    from turn_stays [OF "2.prems"(2,3) Stay "2.prems"(4)] have w: "walk fs s (cur_dir st')" and l: "set ls' \<subseteq> set ls" by auto
    obtain d where "walk fs s d" "offered fs n ls' d path"
      using "2.IH" [OF Stay _ "2.prems"(2,3) w] "2.prems"(1) Stay by auto
    then show ?thesis using l by (auto simp: offered_def)
  qed (use "2.prems"(1) in auto)
qed simp

text \<open>
  C17: the path the file dialog returns is one it offered: a file, not a directory, listed in a directory reached from
  the start by entering directories that were listed, or a new name typed in such a directory; cut to the buffer.
\<close>

theorem tui_pick_file_offered:
  assumes "fs_ok fs" and "qsort_ok qs" and "tui_pick_file fs qs start n u = Done (Some path) u'"
  shows "\<exists>d. walk fs (start_dir fs start) d \<and> offered fs n (typed u) d path"
  using pick_file_loop_offers [OF _ assms(1,2), of n _ "keys u" "typed u" path u' "start_dir fs start"] assms(3) walk.start
  by (simp add: tui_pick_file_def)

theorem tui_pick_file_offered_witness:
  "\<exists>d. walk fs_ab ''/'' d \<and> offered fs_ab 512 [] d ''/img/b.iso''"
proof -
  have "tui_pick_file fs_ab isort None 512 \<lparr>keys = [KEY_ENTER, KEY_DOWN, KEY_ENTER], typed = []\<rparr> =
      Done (Some ''/img/b.iso'') \<lparr>keys = [], typed = []\<rparr>"
    by code_simp
  moreover have "start_dir fs_ab None = ''/''" by (simp add: start_dir_def getcwd_def fs_ab_def)
  ultimately show ?thesis
    using tui_pick_file_offered [OF fs_ok_ab qsort_ok_isort, of None 512 "\<lparr>keys = [KEY_ENTER, KEY_DOWN, KEY_ENTER], typed = []\<rparr>"]
    by simp
qed

section \<open>The presets and the locked disk\<close>

lemma pick_pipe_downs:
  "sel + i < length ps \<Longrightarrow>
     pick_pipe_loop ps n sel (replicate i KEY_DOWN @ ks) ls = pick_pipe_loop ps n (sel + i) ks ls"
  by (induction i arbitrary: sel) (simp_all add: esc_key_def)

text \<open>
  No preset of the pipeline dialog can be taken over. The code copies the preset into the buffer and then lets
  \<open>wgetnstr\<close> overwrite it: with any preset selected, an empty line cancels the dialog, and a line typed is the
  result whatever the preset was.
\<close>

theorem tui_presets_are_lost:
  assumes "i < length (if b then presets_in else presets_out)"
  shows "tui_pick_pipe b n \<lparr>keys = replicate i KEY_DOWN @ [KEY_ENTER], typed = [l]\<rparr> =
    Done (if take 255 l = [] then None else Some (snprintf n (take 255 l))) \<lparr>keys = [], typed = []\<rparr>"
  using assms pick_pipe_downs [of 0 i "if b then presets_in else presets_out" n "[KEY_ENTER]" "[l]"]
  by (simp add: tui_pick_pipe_def wgetnstr_def esc_key_def enter_key_def)

theorem tui_presets_are_lost_witness:
  "tui_pick_pipe True 512 \<lparr>keys = [KEY_DOWN, KEY_ENTER], typed = [[]]\<rparr> = Done None \<lparr>keys = [], typed = []\<rparr>"
  using tui_presets_are_lost [of 1 True 512 "[]"] by (simp add: presets_in_def)

lemma pick_device_downs:
  "sel + i < length devs \<Longrightarrow>
     pick_device_loop devs n sel (replicate i KEY_DOWN @ ks) ls = pick_device_loop devs n (sel + i) ks ls"
  by (induction i arbitrary: sel) (simp_all add: esc_key_def)

text \<open>
  The device dialog returns the device under the cursor, every device of the list can be chosen, and the one
  shown as locked (\<open>[ROOT GESPERRT]\<close>) is no exception.
\<close>

theorem tui_pick_device_chooses:
  assumes "i < length (tui_scan_devices sys MAX_DEVICES)"
  shows "tui_pick_device sys n \<lparr>keys = replicate i KEY_DOWN @ [KEY_ENTER], typed = []\<rparr> =
    Done (Some (snprintf n (dev_path (tui_scan_devices sys MAX_DEVICES ! i)))) \<lparr>keys = [], typed = []\<rparr>"
  using assms pick_device_downs [of 0 i "tui_scan_devices sys MAX_DEVICES" n "[KEY_ENTER]" "[]"]
  by (auto simp: tui_pick_device_def esc_key_def enter_key_def Let_def)

theorem tui_pick_device_chooses_witness:
  "is_system_root (hd (tui_scan_devices sys_ab 64)) \<and>
   tui_pick_device sys_ab 512 \<lparr>keys = [KEY_ENTER], typed = []\<rparr> = Done (Some ''/dev/sda'') \<lparr>keys = [], typed = []\<rparr>"
  using tui_pick_device_chooses [of 0 sys_ab 512] by (simp add: sys_ab_devices snprintf_def)

end
