(* ===== verification/TuiMain.thy ===== *)
theory TuiMain
  imports TuiCommand TuiPicker DryRun
begin

text \<open>
  The main program of the text interface, \<open>src/src/tui/tui_main.c\<close>: one turn of its loop per key, the dialogs a
  field opens, starting \<open>blkcp\<close> and reading its output, the dry run, the clipboard. The terminal, the programs
  started and the file system are arguments; drawing is left out.
\<close>

section \<open>The world of the program\<close>

text \<open>
  What the program does to the outside, in order: commands it runs (with the target of the form and whether it is a
  dry run), texts it gives to another program or writes into a file, and what the user answered to the warning.
\<close>

datatype tui_event =
  Ran string bool string | PipedTo string string | Saved string string | Answered string bool

text \<open>
  \<open>w_run n cmd\<close>: output and wait status of the \<open>n\<close>-th command started with \<open>popen\<close>, \<open>None\<close> if that fails.
  \<open>w_pipe\<close>: whether a program that is given a text ends with status 0, \<open>None\<close> if it cannot be started.
  \<open>w_writable\<close>: whether \<open>fopen (path, "w")\<close> succeeds.
\<close>

record tui_world =
  w_ui :: ui
  w_sys :: tui_sys
  w_fs :: tui_fs
  w_run :: "nat \<Rightarrow> string \<Rightarrow> (string \<times> int) option"
  w_pipe :: "string \<Rightarrow> bool option"
  w_home :: "string option"
  w_writable :: "string \<Rightarrow> bool"
  w_log :: "tui_event list"

definition log_event :: "tui_event \<Rightarrow> tui_world \<Rightarrow> tui_world" where
  "log_event e w = w\<lparr>w_log := w_log w @ [e]\<rparr>"

text \<open>An action ends in a world, waits there for input that does not come, or has read out of bounds.\<close>

datatype 'a act = Fin 'a tui_world | Wait tui_world | Bad tui_world

fun act_bind :: "'a act \<Rightarrow> ('a \<Rightarrow> tui_world \<Rightarrow> 'b act) \<Rightarrow> 'b act" where
  "act_bind (Fin a w) f = f a w"
| "act_bind (Wait w) f = Wait w"
| "act_bind (Bad w) f = Bad w"

definition run_dialog :: "(ui \<Rightarrow> 'a dialog) \<Rightarrow> tui_world \<Rightarrow> 'a act" where
  "run_dialog d w = (case d (w_ui w) of Done a u \<Rightarrow> Fin a (w\<lparr>w_ui := u\<rparr>) | Waits \<Rightarrow> Wait w | OutOfBounds \<Rightarrow> Bad w)"

section \<open>Small dialogs\<close>

text \<open>The line replaces the target unless it is empty.\<close>

definition edit_text_modal :: "string \<Rightarrow> nat \<Rightarrow> tui_world \<Rightarrow> string act" where
  "edit_text_modal target target_len w =
     act_bind (run_dialog (wgetnstr (snprintf 512 target) (target_len - 1)) w)
       (\<lambda>input w. Fin (if input \<noteq> [] then snprintf target_len input else target) w)"

fun confirm_loop :: "tui_key list \<Rightarrow> (bool \<times> tui_key list) option" where
  "confirm_loop [] = None"
| "confirm_loop (ch # ks) =
     (if ch \<in> {KEY_CHAR CHR ''j'', KEY_CHAR CHR ''J'', KEY_CHAR CHR ''y'', KEY_CHAR CHR ''Y''} then Some (True, ks)
      else if ch \<in> {KEY_CHAR CHR ''n'', KEY_CHAR CHR ''N'', KEY_CHAR CHR 0x1B, KEY_CHAR CHR ''q''} then Some (False, ks)
      else confirm_loop ks)"

definition confirm_safety_modal :: "string \<Rightarrow> tui_world \<Rightarrow> bool act" where
  "confirm_safety_modal target w =
     (case confirm_loop (keys (w_ui w)) of
        None \<Rightarrow> Wait w
      | Some (b, ks) \<Rightarrow> Fin b (log_event (Answered target b) (w\<lparr>w_ui := (w_ui w)\<lparr>keys := ks\<rparr>\<rparr>)))"

definition any_key :: "tui_world \<Rightarrow> unit act" where
  "any_key w = (case keys (w_ui w) of [] \<Rightarrow> Wait w | k # ks \<Rightarrow> Fin () (w\<lparr>w_ui := (w_ui w)\<lparr>keys := ks\<rparr>\<rparr>))"

section \<open>The clipboard\<close>

text \<open>\<open>popen (prog, "w")\<close>, the text, \<open>pclose\<close>: whether it ended with status 0.\<close>

definition pipe_to :: "string \<Rightarrow> string \<Rightarrow> tui_world \<Rightarrow> bool \<times> tui_world" where
  "pipe_to prog cmd w =
     (case w_pipe w prog of None \<Rightarrow> (False, w) | Some ok \<Rightarrow> (ok, log_event (PipedTo prog cmd) w))"

definition save_script :: "tui_form \<Rightarrow> string \<Rightarrow> tui_world \<Rightarrow> tui_form \<times> tui_world" where
  "save_script form cmd w =
     (let path = snprintf 512 ((case w_home w of Some h \<Rightarrow> h | None \<Rightarrow> ''/tmp'') @ ''/blkcp_command.sh'')
      in if w_writable w path
         then (set_msg (''Gespeichert in: '' @ take 80 path) form,
               log_event (Saved path (''#!/bin/sh'' @ [CHR 0x0A] @ cmd @ [CHR 0x0A])) w)
         else (set_msg (''Befehl: '' @ take 90 cmd) form, w))"

definition copy_to_clipboard :: "tui_form \<Rightarrow> string \<Rightarrow> tui_world \<Rightarrow> tui_form \<times> tui_world" where
  "copy_to_clipboard form cmd w =
     (case pipe_to ''wl-copy 2>/dev/null'' cmd w of
        (True, w) \<Rightarrow> (set_msg ''Befehl in Wayland-Zwischenablage kopiert!'' form, w)
      | (False, w) \<Rightarrow>
          (case pipe_to ''xclip -selection clipboard 2>/dev/null'' cmd w of
             (True, w) \<Rightarrow> (set_msg ''Befehl in X11-Zwischenablage kopiert!'' form, w)
           | (False, w) \<Rightarrow> save_script form cmd w))"

section \<open>Running blkcp\<close>

text \<open>The lines \<open>fgets (line, 512, fp)\<close> returns, and \<open>strstr\<close>.\<close>

function output_lines :: "string \<Rightarrow> string list" where
  "output_lines s = (if s = [] then [] else case fgets 512 s of (l, r) \<Rightarrow> l # output_lines r)"
  by pat_completeness auto
termination
proof (relation "measure length")
  fix s l r assume "s \<noteq> []" "(l, r) = fgets 512 s"
  then show "(r, s) \<in> measure length" by (cases s) (auto simp: fgets_def Let_def)
qed simp

declare output_lines.simps [simp del]

fun strstr :: "string \<Rightarrow> string \<Rightarrow> bool" where
  "strstr [] needle \<longleftrightarrow> needle = []"
| "strstr (c # cs) needle \<longleftrightarrow> take (length needle) (c # cs) = needle \<or> strstr cs needle"

definition full_bin :: "tui_world \<Rightarrow> string" where
  "full_bin w = (case getcwd (w_fs w) 512 of Some cwd \<Rightarrow> snprintf 600 (take 500 cwd @ ''/blkcp'') | None \<Rightarrow> ''./blkcp'')"

definition full_cmd :: "tui_form \<Rightarrow> tui_world \<Rightarrow> string" where
  "full_cmd form w = snprintf 2048 (tui_build_command form (Some (full_bin w)) 1600 @ '' 2>&1'')"

definition missing_path :: "tui_form \<Rightarrow> bool" where
  "missing_path form \<longleftrightarrow> if_path form = [] \<or> of_path form = []"

definition popen_read :: "string \<Rightarrow> bool \<Rightarrow> string \<Rightarrow> tui_world \<Rightarrow> (string list \<times> int) option \<times> tui_world" where
  "popen_read target dry cmd w =
     (case w_run w (length (w_log w)) cmd of
        None \<Rightarrow> (None, w)
      | Some (output, status) \<Rightarrow> (Some (output_lines output, status), log_event (Ran target dry cmd) w))"

text \<open>The plan is collected as long as it fits in 4096 bytes.\<close>

definition plan_text_of :: "string list \<Rightarrow> string" where
  "plan_text_of ls = foldl (\<lambda>buf l. if length buf + length l < 4095 then buf @ l else buf) [] ls"

definition execute_dry_run_simulation :: "tui_form \<Rightarrow> tui_world \<Rightarrow> tui_form act" where
  "execute_dry_run_simulation form w =
     (if missing_path form
      then Fin (set_msg ''FEHLER: Bitte Input (-i) und Output (-o) angeben!'' form) w
      else
        let cmd = full_cmd (form\<lparr>opt_dry_run := True\<rparr>) w;
            form = set_msg ''Simuliere Ausfuehrungsplan (Dry-Run)...'' form
        in case popen_read (of_path form) True cmd w of
             (None, w) \<Rightarrow> Fin (set_msg ''Fehler beim Starten der Simulation!'' form) w
           | (Some (ls, _), w) \<Rightarrow>
               if plan_text_of ls \<noteq> []
               then act_bind (any_key w)
                      (\<lambda>_ w. Fin (set_msg (if list_ex (\<lambda>l. strstr l ''BLOCKED'') ls
                                           then ''Dry-Run: Ziel MUESSTE mit -f uebersteuert werden (BLOCKED)!''
                                           else ''Dry-Run Plan OK: 0 Bytes geschrieben (Sicher).'') form) w)
               else Fin (set_msg ''Dry-Run Simulation beendet.'' form) w)"

definition skip_prefix :: "string \<Rightarrow> string \<Rightarrow> string option" where
  "skip_prefix pre s = (if take (length pre) s = pre then Some (drop (length pre) s) else None)"

text \<open>One line of the output: the form, and the last message that looks like an error.\<close>

definition job_line :: "string \<Rightarrow> tui_form \<times> string \<Rightarrow> tui_form \<times> string" where
  "job_line raw st =
     (case st of
        (form, last_err) \<Rightarrow>
          let line = takeWhile (\<lambda>c. c \<noteq> CHR 0x0A) raw
          in if take 8 line = ''sha256: ''
             then (form\<lparr>sha256_result := snprintf 65 (take 64 (drop 8 line))\<rparr>, last_err)
             else if strstr line ''copied'' \<or> strstr line ''kopiert''
             then ((set_msg (take 68 line) form)\<lparr>progress_pct := 75\<rparr>, last_err)
             else if strstr line ''SAFETY GUARD''
             then (form, snprintf 256 ''Safety Guard: Ziel enthaelt gemountetes Root!'')
             else
               let p = (case skip_prefix ''./blkcp: '' line of
                          Some p \<Rightarrow> p
                        | None \<Rightarrow> (case skip_prefix ''blkcp: '' line of Some p \<Rightarrow> p | None \<Rightarrow> line));
                   p = dropWhile (\<lambda>c. c = CHR '' '') p
               in (form, if p \<noteq> [] then snprintf 256 (take 200 p) else last_err))"

definition WEXITSTATUS :: "int \<Rightarrow> int" where "WEXITSTATUS status = status div 256 mod 256"

definition job_finished :: "int \<Rightarrow> tui_form \<times> string \<Rightarrow> tui_form" where
  "job_finished status st =
     (case st of
        (form, last_err) \<Rightarrow>
          let form = form\<lparr>running := False\<rparr>
          in if status = 0
             then let form = form\<lparr>progress_pct := 100\<rparr>
                  in if status_msg form = [] \<or> strstr (status_msg form) ''Kopieren laeuft''
                     then set_msg ''Erfolgreich abgeschlossen (100%)!'' form else form
             else let form = form\<lparr>progress_pct := 0\<rparr>
                  in if last_err \<noteq> [] then set_msg (''FEHLER: '' @ take 54 last_err) form
                     else set_msg (''FEHLER: Kopieren fehlgeschlagen (Exit '' @ fmt_jd (WEXITSTATUS status) @ '')'') form)"

definition run_job :: "tui_form \<Rightarrow> tui_world \<Rightarrow> tui_form act" where
  "run_job form w =
     (let cmd = full_cmd form w;
          form = (set_msg ''Kopieren laeuft... bitte warten.'' form)
                   \<lparr>progress_pct := 10, running := True, sha256_result := []\<rparr>
      in case popen_read (of_path form) False cmd w of
           (None, w) \<Rightarrow> Fin (set_msg ''Fehler beim Starten von blkcp!'' (form\<lparr>running := False\<rparr>)) w
         | (Some (ls, status), w) \<Rightarrow> Fin (job_finished status (fold job_line ls (form, []))) w)"

definition block_device :: "tui_world \<Rightarrow> string \<Rightarrow> bool" where
  "block_device w path = (case sys_stat (w_sys w) path of Some st \<Rightarrow> s_isblk st | None \<Rightarrow> False)"

definition execute_blkcp_job :: "tui_form \<Rightarrow> tui_world \<Rightarrow> tui_form act" where
  "execute_blkcp_job form w =
     (if missing_path form
      then Fin (set_msg ''FEHLER: Bitte Input (-i) und Output (-o) angeben!'' form) w
      else if opt_dry_run form then execute_dry_run_simulation form w
      else if block_device w (of_path form)
      then act_bind (confirm_safety_modal (of_path form) w)
             (\<lambda>confirmed w. if \<not> confirmed then Fin (set_msg ''Abgebrochen durch Benutzer.'' form) w else run_job form w)
      else run_job form w)"

section \<open>The keys\<close>

definition next_engine :: "tui_engine_mode \<Rightarrow> tui_engine_mode" where
  "next_engine e = engine_modes ! ((position engine_modes e + 1) mod position engine_modes TUI_ENGINE_COUNT)"

text \<open>What space does to the field in focus, and enter to the fields without a dialog.\<close>

definition toggle_field :: "tui_form \<Rightarrow> tui_form" where
  "toggle_field form =
     (case active_field form of
        FIELD_ENGINE \<Rightarrow> form\<lparr>fm_engine := next_engine (fm_engine form)\<rparr>
      | FIELD_OPT_AUTOTUNE \<Rightarrow> form\<lparr>opt_autotune := \<not> opt_autotune form\<rparr>
      | FIELD_OPT_SHA256 \<Rightarrow> form\<lparr>opt_sha256 := \<not> opt_sha256 form\<rparr>
      | FIELD_OPT_DIRECT \<Rightarrow> form\<lparr>opt_direct := \<not> opt_direct form\<rparr>
      | FIELD_OPT_FORCE \<Rightarrow> form\<lparr>opt_force := \<not> opt_force form\<rparr>
      | FIELD_OPT_SPARSE \<Rightarrow> form\<lparr>opt_sparse := \<not> opt_sparse form\<rparr>
      | FIELD_OPT_SYNC \<Rightarrow> form\<lparr>opt_sync := \<not> opt_sync form\<rparr>
      | FIELD_OPT_DRY_RUN \<Rightarrow> form\<lparr>opt_dry_run := \<not> opt_dry_run form\<rparr>
      | FIELD_STATUS \<Rightarrow> form\<lparr>status_mode := (status_mode form + 1) mod 4\<rparr>
      | _ \<Rightarrow> form)"

text \<open>A picker's answer: the path, and that the stream is a file or a pipe; nothing if it was left.\<close>

definition picked :: "string option act \<Rightarrow> (string \<Rightarrow> tui_form) \<Rightarrow> tui_form \<Rightarrow> tui_form act" where
  "picked a f form = act_bind a (\<lambda>r w. Fin (case r of Some p \<Rightarrow> f p | None \<Rightarrow> form) w)"

definition nonempty :: "string \<Rightarrow> string option" where
  "nonempty p = (if p \<noteq> [] then Some p else None)"

definition set_if_path :: "string \<Rightarrow> tui_form \<Rightarrow> tui_form" where
  "set_if_path p form = (let form = form\<lparr>if_path := p\<rparr> in if at_nul p 0 = CHR ''|'' then form\<lparr>if_is_pipe := True\<rparr> else form)"

definition set_of_path :: "string \<Rightarrow> tui_form \<Rightarrow> tui_form" where
  "set_of_path p form = (let form = form\<lparr>of_path := p\<rparr> in if at_nul p 0 = CHR ''|'' then form\<lparr>of_is_pipe := True\<rparr> else form)"

text \<open>Enter. The result says whether the program goes on.\<close>

definition press_enter :: "qsort \<Rightarrow> tui_form \<Rightarrow> tui_world \<Rightarrow> (bool \<times> tui_form) act" where
  "press_enter qsort form w =
     (let stay = (\<lambda>form w. Fin (True, form) w);
          edit = (\<lambda>old sz upd. act_bind (edit_text_modal old sz w) (\<lambda>s. stay (upd s)))
      in case active_field form of
           FIELD_IF \<Rightarrow> edit (if_path form) sizeof_path (\<lambda>s. set_if_path s form)
         | FIELD_IF_SEARCH_FILE \<Rightarrow>
             act_bind (picked (run_dialog (tui_pick_file (w_fs w) qsort (nonempty (if_path form)) sizeof_path) w)
                         (\<lambda>p. form\<lparr>if_path := p, if_is_pipe := False\<rparr>) form) stay
         | FIELD_IF_SEARCH_DEV \<Rightarrow>
             act_bind (picked (run_dialog (tui_pick_device (w_sys w) sizeof_path) w)
                         (\<lambda>p. form\<lparr>if_path := p, if_is_pipe := False\<rparr>) form) stay
         | FIELD_IF_SEARCH_PIPE \<Rightarrow>
             act_bind (picked (run_dialog (tui_pick_pipe True sizeof_path) w)
                         (\<lambda>p. form\<lparr>if_path := p, if_is_pipe := True\<rparr>) form) stay
         | FIELD_OF \<Rightarrow> edit (of_path form) sizeof_path (\<lambda>s. set_of_path s form)
         | FIELD_OF_SEARCH_FILE \<Rightarrow>
             act_bind (picked (run_dialog (tui_pick_file (w_fs w) qsort (nonempty (of_path form)) sizeof_path) w)
                         (\<lambda>p. form\<lparr>of_path := p, of_is_pipe := False\<rparr>) form) stay
         | FIELD_OF_SEARCH_DEV \<Rightarrow>
             act_bind (picked (run_dialog (tui_pick_device (w_sys w) sizeof_path) w)
                         (\<lambda>p. form\<lparr>of_path := p, of_is_pipe := False\<rparr>) form) stay
         | FIELD_OF_SEARCH_PIPE \<Rightarrow>
             act_bind (picked (run_dialog (tui_pick_pipe False sizeof_path) w)
                         (\<lambda>p. form\<lparr>of_path := p, of_is_pipe := True\<rparr>) form) stay
         | FIELD_QUEUE_DEPTH \<Rightarrow> edit (queue_depth form) sizeof_queue_depth (\<lambda>s. form\<lparr>queue_depth := s\<rparr>)
         | FIELD_BS \<Rightarrow> edit (fm_bs form) sizeof_number (\<lambda>s. form\<lparr>fm_bs := s\<rparr>)
         | FIELD_LIMIT \<Rightarrow> edit (fm_limit form) sizeof_number (\<lambda>s. form\<lparr>fm_limit := s\<rparr>)
         | FIELD_COUNT \<Rightarrow> edit (fm_count form) sizeof_number (\<lambda>s. form\<lparr>fm_count := s\<rparr>)
         | FIELD_SKIP \<Rightarrow> edit (fm_skip form) sizeof_number (\<lambda>s. form\<lparr>fm_skip := s\<rparr>)
         | FIELD_SEEK \<Rightarrow> edit (fm_seek form) sizeof_number (\<lambda>s. form\<lparr>fm_seek := s\<rparr>)
         | FIELD_BTN_START \<Rightarrow> act_bind (execute_blkcp_job form w) stay
         | FIELD_BTN_SIMULATE \<Rightarrow> act_bind (execute_dry_run_simulation form w) stay
         | FIELD_BTN_COPY \<Rightarrow>
             (case copy_to_clipboard form (tui_build_command form (Some ''./blkcp'') 1024) w of (form, w) \<Rightarrow> stay form w)
         | FIELD_BTN_QUIT \<Rightarrow> Fin (False, form) w
         | _ \<Rightarrow> stay (toggle_field form) w)"

definition press_key :: "qsort \<Rightarrow> tui_key \<Rightarrow> tui_form \<Rightarrow> tui_world \<Rightarrow> (bool \<times> tui_form) act" where
  "press_key qsort ch form w =
     (let focus = (\<lambda>f. Fin (True, form\<lparr>active_field := f (active_field form)\<rparr>) w)
      in case ch of
           KEY_UP \<Rightarrow> focus tui_nav_up
         | KEY_DOWN \<Rightarrow> focus tui_nav_down
         | KEY_LEFT \<Rightarrow> focus tui_nav_left
         | KEY_RIGHT \<Rightarrow> focus tui_nav_right
         | KEY_BTAB \<Rightarrow> focus tab_prev
         | KEY_ENTER \<Rightarrow> press_enter qsort form w
         | KEY_CHAR c \<Rightarrow>
             if c = CHR 0x09 then focus tab_next
             else if c = CHR '' '' then Fin (True, toggle_field form) w
             else if c = CHR 0x0A then press_enter qsort form w
             else if c \<in> {CHR ''c'', CHR ''C''} then
               (case copy_to_clipboard form (tui_build_command form (Some ''./blkcp'') 1024) w of (form, w) \<Rightarrow> Fin (True, form) w)
             else if c \<in> {CHR ''s'', CHR ''S'', CHR ''d'', CHR ''D''}
               then act_bind (execute_dry_run_simulation form w) (\<lambda>form. Fin (True, form))
             else if c \<in> {CHR ''q'', CHR ''Q'', CHR 0x1B} then Fin (False, form) w
             else Fin (True, form) w
         | KEY_OTHER \<Rightarrow> Fin (True, form) w)"

text \<open>The loop of \<open>main\<close>; each turn takes at least one key, so the number of keys is fuel enough.\<close>

fun tui_loop :: "nat \<Rightarrow> qsort \<Rightarrow> tui_form \<Rightarrow> tui_world \<Rightarrow> tui_form act option" where
  "tui_loop 0 qsort form w = None"
| "tui_loop (Suc fuel) qsort form w =
     (case keys (w_ui w) of
        [] \<Rightarrow> Some (Wait w)
      | ch # ks \<Rightarrow>
          (case press_key qsort ch form (w\<lparr>w_ui := (w_ui w)\<lparr>keys := ks\<rparr>\<rparr>) of
             Fin (True, form') w' \<Rightarrow> tui_loop fuel qsort form' w'
           | Fin (False, form') w' \<Rightarrow> Some (Fin form' w')
           | Wait w' \<Rightarrow> Some (Wait w')
           | Bad w' \<Rightarrow> Some (Bad w')))"

text \<open>\<open>main\<close>: a terminal that is too small is refused; the exit status otherwise is 0.\<close>

definition tui_main :: "nat \<Rightarrow> nat \<Rightarrow> qsort \<Rightarrow> tui_world \<Rightarrow> int act option" where
  "tui_main terminal_rows terminal_cols qsort w =
     (if terminal_rows < 30 \<or> terminal_cols < 80 then Some (Fin EXIT_FAILURE w)
      else map_option (\<lambda>a. act_bind a (\<lambda>_ w. Fin EXIT_SUCCESS w))
             (tui_loop (Suc (length (keys (w_ui w)))) qsort tui_init_form w))"

section \<open>What every turn keeps\<close>

text \<open>The types of the form: every string fits its array, and every number is one of its enumeration.\<close>

definition form_wf :: "tui_form \<Rightarrow> bool" where
  "form_wf form \<longleftrightarrow>
     length (if_path form) < sizeof_path \<and> length (of_path form) < sizeof_path \<and>
     length (queue_depth form) < sizeof_queue_depth \<and>
     list_all (\<lambda>s. length s < sizeof_number) [fm_bs form, fm_limit form, fm_count form, fm_skip form, fm_seek form] \<and>
     length (sha256_result form) < 65 \<and> length (status_msg form) < sizeof_status_msg \<and>
     fm_engine form \<noteq> TUI_ENGINE_COUNT \<and> 0 \<le> status_mode form \<and> status_mode form < 4 \<and>
     active_field form \<noteq> FIELD_COUNT_TOTAL"

text \<open>
  The log is in order: a copy (not a dry run) onto a block device is started only right after the user has
  answered the warning for that very device with yes.
\<close>

definition confirmed_at :: "tui_sys \<Rightarrow> tui_event list \<Rightarrow> tui_event \<Rightarrow> bool" where
  "confirmed_at sys before e =
     (case e of
        Ran p False cmd \<Rightarrow>
          (case sys_stat sys p of Some st \<Rightarrow> s_isblk st | None \<Rightarrow> False) \<longrightarrow> before \<noteq> [] \<and> last before = Answered p True
      | _ \<Rightarrow> True)"

definition runs_confirmed :: "tui_sys \<Rightarrow> tui_event list \<Rightarrow> bool" where
  "runs_confirmed sys es \<longleftrightarrow> list_all (\<lambda>i. confirmed_at sys (take i es) (es ! i)) [0..<length es]"

lemma runs_confirmed_snoc:
  "runs_confirmed sys (es @ [e]) \<longleftrightarrow> runs_confirmed sys es \<and> confirmed_at sys es e"
  by (auto simp: runs_confirmed_def nth_append list_all_iff)

lemma runs_confirmed_Nil [simp]: "runs_confirmed sys []"
  by (simp add: runs_confirmed_def)

text \<open>What the world keeps: the system and its log in order; keys are only taken.\<close>

definition world_step :: "tui_world \<Rightarrow> tui_world \<Rightarrow> bool" where
  "world_step w w' \<longleftrightarrow>
     w_sys w' = w_sys w \<and> (runs_confirmed (w_sys w) (w_log w) \<longrightarrow> runs_confirmed (w_sys w') (w_log w')) \<and>
     length (keys (w_ui w')) \<le> length (keys (w_ui w))"

lemma world_step_refl [simp]: "world_step w w"
  by (simp add: world_step_def)

lemma world_step_trans: "world_step a b \<Longrightarrow> world_step b c \<Longrightarrow> world_step a c"
  by (auto simp: world_step_def)

text \<open>\<open>keeps w P a\<close>: the action reads nothing out of bounds, and ends or waits in a world that \<open>w\<close> steps to.\<close>

fun keeps :: "tui_world \<Rightarrow> ('a \<Rightarrow> bool) \<Rightarrow> 'a act \<Rightarrow> bool" where
  "keeps w P (Fin a w') \<longleftrightarrow> P a \<and> world_step w w'"
| "keeps w P (Wait w') \<longleftrightarrow> world_step w w'"
| "keeps w P (Bad w') \<longleftrightarrow> False"

lemma keeps_bind:
  assumes "keeps w P m" and "\<And>a w'. m = Fin a w' \<Longrightarrow> P a \<Longrightarrow> keeps w' Q (f a w')"
  shows "keeps w Q (act_bind m f)"
proof (cases m)
  case (Fin a w')
  then have p: "P a" and s: "world_step w w'" using assms(1) by auto
  have "keeps w' Q (f a w')" by (rule assms(2) [OF Fin p])
  then have "keeps w Q (f a w')" using world_step_trans [OF s] by (cases "f a w'") auto
  then show ?thesis using Fin by simp
qed (use assms(1) in auto)

lemma length_snprintf: "0 < n \<Longrightarrow> length (snprintf n s) < n"
  by (auto simp: snprintf_def min_def)

lemma form_wf_frame [simp]:
  "form_wf (form\<lparr>progress_pct := r\<rparr>) = form_wf form" "form_wf (form\<lparr>running := b\<rparr>) = form_wf form"
  "form_wf (form\<lparr>opt_autotune := b\<rparr>) = form_wf form" "form_wf (form\<lparr>opt_sha256 := b\<rparr>) = form_wf form"
  "form_wf (form\<lparr>opt_direct := b\<rparr>) = form_wf form" "form_wf (form\<lparr>opt_force := b\<rparr>) = form_wf form"
  "form_wf (form\<lparr>opt_sparse := b\<rparr>) = form_wf form" "form_wf (form\<lparr>opt_sync := b\<rparr>) = form_wf form"
  "form_wf (form\<lparr>opt_dry_run := b\<rparr>) = form_wf form"
  "form_wf (form\<lparr>if_is_pipe := b\<rparr>) = form_wf form" "form_wf (form\<lparr>of_is_pipe := b\<rparr>) = form_wf form"
  by (simp_all add: form_wf_def)

lemma form_wf_set:
  "form_wf form \<Longrightarrow> length s < 512 \<Longrightarrow> form_wf (form\<lparr>if_path := s\<rparr>)"
  "form_wf form \<Longrightarrow> length s < 512 \<Longrightarrow> form_wf (form\<lparr>of_path := s\<rparr>)"
  "form_wf form \<Longrightarrow> length s < 32 \<Longrightarrow> form_wf (form\<lparr>queue_depth := s\<rparr>)"
  "form_wf form \<Longrightarrow> length s < 64 \<Longrightarrow> form_wf (form\<lparr>fm_bs := s\<rparr>)"
  "form_wf form \<Longrightarrow> length s < 64 \<Longrightarrow> form_wf (form\<lparr>fm_limit := s\<rparr>)"
  "form_wf form \<Longrightarrow> length s < 64 \<Longrightarrow> form_wf (form\<lparr>fm_count := s\<rparr>)"
  "form_wf form \<Longrightarrow> length s < 64 \<Longrightarrow> form_wf (form\<lparr>fm_skip := s\<rparr>)"
  "form_wf form \<Longrightarrow> length s < 64 \<Longrightarrow> form_wf (form\<lparr>fm_seek := s\<rparr>)"
  "form_wf form \<Longrightarrow> length s < 65 \<Longrightarrow> form_wf (form\<lparr>sha256_result := s\<rparr>)"
  "form_wf form \<Longrightarrow> f \<noteq> FIELD_COUNT_TOTAL \<Longrightarrow> form_wf (form\<lparr>active_field := f\<rparr>)"
  by (simp_all add: form_wf_def)

lemma form_wf_msg [simp]: "form_wf form \<Longrightarrow> form_wf (set_msg m form)"
  by (simp add: form_wf_def set_msg_def length_snprintf)

lemma set_msg_paths [simp]: "of_path (set_msg m form) = of_path form" "if_path (set_msg m form) = if_path form"
  by (simp_all add: set_msg_def)

lemma form_wf_init: "form_wf tui_init_form"
  by (simp add: form_wf_def tui_init_form_def snprintf_def)

lemma next_engine_real: "e \<noteq> TUI_ENGINE_COUNT \<Longrightarrow> next_engine e \<noteq> TUI_ENGINE_COUNT"
  by (cases e) (simp_all add: next_engine_def engine_modes_def)

lemma toggle_wf: "form_wf form \<Longrightarrow> form_wf (toggle_field form)"
  by (cases "active_field form") (simp_all add: toggle_field_def form_wf_def next_engine_real)

lemma tabs_real: "f \<noteq> FIELD_COUNT_TOTAL \<Longrightarrow> tab_next f \<noteq> FIELD_COUNT_TOTAL \<and> tab_prev f \<noteq> FIELD_COUNT_TOTAL"
  by (cases f) (simp_all add: tab_next_def tab_prev_def field_ids_def)

lemma arrows_real:
  assumes "f \<noteq> FIELD_COUNT_TOTAL"
  shows "tui_nav_up f \<noteq> FIELD_COUNT_TOTAL" "tui_nav_down f \<noteq> FIELD_COUNT_TOTAL"
    "tui_nav_left f \<noteq> FIELD_COUNT_TOTAL" "tui_nav_right f \<noteq> FIELD_COUNT_TOTAL"
  using arrow_real [OF _ assms] arrow.intros [of f] by blast+

section \<open>The dialogs keep it\<close>

text \<open>A picker only takes keys, and what it returns fits the array it was given.\<close>

definition picks_within :: "nat \<Rightarrow> tui_key list \<Rightarrow> string option dialog \<Rightarrow> bool" where
  "picks_within n ks d \<longleftrightarrow>
     (case d of
        Done r u \<Rightarrow> length (keys u) \<le> length ks \<and> (case r of Some p \<Rightarrow> length p < n | None \<Rightarrow> True)
      | Waits \<Rightarrow> True
      | OutOfBounds \<Rightarrow> False)"

lemma picks_within_mono: "picks_within n ks d \<Longrightarrow> length ks \<le> length ks' \<Longrightarrow> picks_within n ks' d"
  by (auto simp: picks_within_def split: dialog.splits)

lemma pick_device_within:
  "0 < n \<Longrightarrow> sel < length devs \<Longrightarrow> picks_within n ks (pick_device_loop devs n sel ks ls)"
proof (induction devs n sel ks ls rule: pick_device_loop.induct)
  case (2 devs n sel ch ks ls)
  show ?case
    by (subst pick_device_loop.simps)
      (use "2.prems" "2.IH" in \<open>auto intro: picks_within_mono [of _ ks] simp: picks_within_def [of _ _ "Done _ _"] length_snprintf\<close>)
qed (simp add: picks_within_def)

lemma pick_pipe_within:
  "0 < n \<Longrightarrow> sel < length ps \<Longrightarrow> picks_within n ks (pick_pipe_loop ps n sel ks ls)"
proof (induction ps n sel ks ls rule: pick_pipe_loop.induct)
  case (2 ps n sel ch ks ls)
  show ?case
    by (subst pick_pipe_loop.simps)
      (use "2.prems" "2.IH" in \<open>auto intro: picks_within_mono [of _ ks] simp: picks_within_def [of _ _ "Done _ _"]
         picks_within_def [of _ _ Waits] wgetnstr_def length_snprintf split: list.splits\<close>)
qed (simp add: picks_within_def)

lemma turn_leaves_short:
  "0 < n \<Longrightarrow> pick_file_turn fs qs n st ch ls = Leave (Some p) ls' \<Longrightarrow> length p < n"
  by (auto simp: pick_file_turn_def Let_def new_file_cases new_file_path_def length_snprintf
      split: if_splits list.splits)

lemma pick_file_within: "0 < n \<Longrightarrow> picks_within n ks (pick_file_loop fs qs n st ks ls)"
proof (induction fs qs n st ks ls rule: pick_file_loop.induct)
  case (2 fs qs n st ch ks ls)
  show ?case
  proof (cases "pick_file_turn fs qs n st ch ls")
    case (Leave r ls')
    then show ?thesis using turn_leaves_short [OF "2.prems"] by (auto simp: picks_within_def split: option.split)
  next
    case (Stay st' ls')
    then show ?thesis using "2.IH" [OF Stay "2.prems"] by (auto intro: picks_within_mono)
  qed (simp_all add: turn_not_broken, simp add: picks_within_def)
qed (simp add: picks_within_def)

lemma pickers_within:
  assumes "0 < n"
  shows "picks_within n (keys u) (tui_pick_device sys n u)" "picks_within n (keys u) (tui_pick_file fs qs start n u)"
    "picks_within n (keys u) (tui_pick_pipe b n u)"
  using assms
  by (auto simp: tui_pick_device_def Let_def pick_device_within tui_pick_file_def pick_file_within tui_pick_pipe_def
      pick_pipe_within presets_in_def presets_out_def picks_within_def [of _ _ "Done _ _"])

lemma run_dialog_keeps:
  assumes "picks_within n (keys (w_ui w)) (d (w_ui w))"
  shows "keeps w (\<lambda>r. case r of Some p \<Rightarrow> length p < n | None \<Rightarrow> True) (run_dialog d w)"
  using assms by (auto simp: run_dialog_def picks_within_def world_step_def split: dialog.splits)

lemma picked_keeps:
  assumes "keeps w (\<lambda>r. case r of Some p \<Rightarrow> length p < n | None \<Rightarrow> True) a"
    and "form_wf form" and "\<And>p. length p < n \<Longrightarrow> form_wf (f p)"
  shows "keeps w form_wf (picked a f form)"
  unfolding picked_def by (rule keeps_bind [OF assms(1)]) (use assms(2,3) in \<open>auto split: option.split\<close>)

lemma edit_keeps:
  assumes "0 < n" and "length s < n"
  shows "keeps w (\<lambda>r. length r < n) (edit_text_modal s n w)"
proof -
  have "keeps w (\<lambda>_. True) (run_dialog (wgetnstr (snprintf 512 s) (n - 1)) w)"
    by (auto simp: run_dialog_def wgetnstr_def world_step_def split: list.split)
  then show ?thesis unfolding edit_text_modal_def
    by (rule keeps_bind) (use assms in \<open>simp add: length_snprintf\<close>)
qed

lemma confirm_loop_shorter: "confirm_loop ks = Some (b, ks') \<Longrightarrow> length ks' \<le> length ks"
  by (induction ks) (auto split: if_splits)

text \<open>After the warning the log ends with the answer.\<close>

lemma confirm_keeps:
  "keeps w (\<lambda>_. True) (confirm_safety_modal t w)"
  "confirm_safety_modal t w = Fin b w' \<Longrightarrow> w_log w' = w_log w @ [Answered t b] \<and> w_sys w' = w_sys w"
  by (auto simp: confirm_safety_modal_def log_event_def world_step_def runs_confirmed_snoc confirmed_at_def
      dest: confirm_loop_shorter split: option.splits)

lemma any_key_keeps: "keeps w (\<lambda>_. True) (any_key w)"
  by (auto simp: any_key_def world_step_def split: list.split)

lemma log_other: "confirmed_at (w_sys w) (w_log w) e \<Longrightarrow> world_step w (log_event e w)"
  by (simp add: world_step_def log_event_def runs_confirmed_snoc)

lemma pipe_to_step: "pipe_to prog cmd w = (ok, w') \<Longrightarrow> world_step w w'"
  by (auto simp: pipe_to_def confirmed_at_def intro: log_other split: option.splits)

lemma save_script_keeps: "save_script form cmd w = (form', w') \<Longrightarrow> form_wf form \<Longrightarrow> form_wf form' \<and> world_step w w'"
  by (auto simp: save_script_def Let_def confirmed_at_def intro: log_other split: if_splits)

lemma clipboard_keeps:
  assumes "copy_to_clipboard form cmd w = (form', w')" and "form_wf form"
  shows "form_wf form' \<and> world_step w w'"
proof -
  obtain ok1 w1 where 1: "pipe_to ''wl-copy 2>/dev/null'' cmd w = (ok1, w1)" by fastforce
  obtain ok2 w2 where 2: "pipe_to ''xclip -selection clipboard 2>/dev/null'' cmd w1 = (ok2, w2)" by fastforce
  note s1 = pipe_to_step [OF 1] and s2 = world_step_trans [OF pipe_to_step [OF 1] pipe_to_step [OF 2]]
  show ?thesis
    using assms s1 s2 world_step_trans [OF s2] save_script_keeps [of form cmd w2 form' w']
    by (cases ok1; cases ok2) (auto simp: copy_to_clipboard_def 1 2)
qed

section \<open>The jobs keep it\<close>

lemma job_line_wf: "form_wf (fst st) \<Longrightarrow> form_wf (fst (job_line l st))"
  by (auto simp: job_line_def Let_def form_wf_set length_snprintf split: prod.split)

lemma job_lines_wf: "form_wf (fst st) \<Longrightarrow> form_wf (fst (fold job_line ls st))"
  by (induction ls arbitrary: st) (simp_all add: job_line_wf)

lemma job_finished_wf: "form_wf (fst st) \<Longrightarrow> form_wf (job_finished status st)"
  by (auto simp: job_finished_def Let_def split: prod.split)

text \<open>Starting a command adds one event to the log, or nothing.\<close>

lemma popen_read_step:
  assumes "popen_read p dry cmd w = (r, w')" and "confirmed_at (w_sys w) (w_log w) (Ran p dry cmd)"
  shows "world_step w w'"
  using assms by (auto simp: popen_read_def intro: log_other split: option.splits)

lemma dry_run_keeps:
  assumes "form_wf form"
  shows "keeps w form_wf (execute_dry_run_simulation form w)"
proof -
  let ?cmd = "full_cmd (form\<lparr>opt_dry_run := True\<rparr>) w"
  obtain r w' where p: "popen_read (of_path form) True ?cmd w = (r, w')" by fastforce
  have s: "world_step w w'" by (rule popen_read_step [OF p]) (simp add: confirmed_at_def)
  have k: "keeps w (\<lambda>_. True) (any_key w')"
    using any_key_keeps [of w'] world_step_trans [OF s] by (cases "any_key w'") auto
  have "keeps w form_wf (act_bind (any_key w') (\<lambda>_ w. Fin (set_msg m f) w))" if "form_wf f" for m f
    by (rule keeps_bind [OF k]) (use that in simp)
  then show ?thesis
    using assms s by (auto simp: execute_dry_run_simulation_def Let_def p split: option.split)
qed

lemma run_job_keeps:
  assumes "form_wf form" and "block_device w (of_path form) \<Longrightarrow> w_log w \<noteq> [] \<and> last (w_log w) = Answered (of_path form) True"
  shows "keeps w form_wf (run_job form w)"
proof -
  obtain r w' where p: "popen_read (of_path form) False (full_cmd form w) w = (r, w')" by fastforce
  have s: "world_step w w'"
    by (rule popen_read_step [OF p]) (use assms(2) in \<open>auto simp: confirmed_at_def block_device_def\<close>)
  have f: "form_wf ((set_msg m form)\<lparr>progress_pct := 10, running := True, sha256_result := []\<rparr>)" for m
    by (simp add: form_wf_set assms(1))
  show ?thesis
    using s assms(1) f by (auto simp: run_job_def p Let_def form_wf_set intro!: job_finished_wf job_lines_wf split: option.split)
qed

lemma job_keeps:
  assumes "form_wf form"
  shows "keeps w form_wf (execute_blkcp_job form w)"
proof -
  have c: "keeps w form_wf (act_bind (confirm_safety_modal (of_path form) w)
      (\<lambda>confirmed w. if \<not> confirmed then Fin (set_msg m form) w else run_job form w))" for m
    by (rule keeps_bind [OF confirm_keeps(1)])
      (use assms confirm_keeps(2) in \<open>auto simp: run_job_keeps\<close>)
  show ?thesis
    using assms c dry_run_keeps [OF assms] run_job_keeps [OF assms, of w] by (auto simp: execute_blkcp_job_def)
qed

lemma keeps_mono: "keeps w P m \<Longrightarrow> (\<And>a. P a \<Longrightarrow> Q a) \<Longrightarrow> keeps w Q m"
  by (cases m) auto

lemma edit_field_keeps:
  assumes "length old < n" and "0 < n" and "\<And>s. length s < n \<Longrightarrow> form_wf (upd s)"
  shows "keeps w (\<lambda>(b, f). form_wf f) (act_bind (edit_text_modal old n w) (\<lambda>s. Fin (True, upd s)))"
  by (rule keeps_bind [OF edit_keeps [OF assms(2,1)]]) (simp add: assms(3))

lemma pick_field_keeps:
  assumes "picks_within 512 (keys (w_ui w)) (d (w_ui w))" and "form_wf form" and "\<And>p. length p < 512 \<Longrightarrow> form_wf (f p)"
  shows "keeps w (\<lambda>(b, f). form_wf f) (act_bind (picked (run_dialog d w) f form) (\<lambda>form. Fin (True, form)))"
proof -
  have "keeps w (\<lambda>r. case r of Some p \<Rightarrow> length p < 512 | None \<Rightarrow> True) (run_dialog d w)"
    by (rule run_dialog_keeps) (rule assms(1))
  from picked_keeps [OF this assms(2,3)] show ?thesis by (rule keeps_bind) simp_all
qed

lemma job_field_keeps:
  "keeps w form_wf m \<Longrightarrow> keeps w (\<lambda>(b, f). form_wf f) (act_bind m (\<lambda>form. Fin (True, form)))"
  by (erule keeps_bind) simp

lemma clip_field_keeps:
  "form_wf form \<Longrightarrow> keeps w (\<lambda>(b, f). form_wf f) (case copy_to_clipboard form cmd w of (form, w) \<Rightarrow> Fin (True, form) w)"
  by (cases "copy_to_clipboard form cmd w") (use clipboard_keeps [of form cmd w] in auto)

lemma enter_keeps:
  assumes "form_wf form"
  shows "keeps w (\<lambda>(b, f). form_wf f) (press_enter qs form w)"
proof -
  note wf = form_wf_set [OF assms]
  have l: "length (if_path form) < 512" "length (of_path form) < 512" "length (queue_depth form) < 32"
    "length (fm_bs form) < 64" "length (fm_limit form) < 64" "length (fm_count form) < 64" "length (fm_skip form) < 64"
    "length (fm_seek form) < 64"
    using assms by (auto simp: form_wf_def)
  note e = edit_field_keeps [OF l(1)] edit_field_keeps [OF l(2)] edit_field_keeps [OF l(3)] edit_field_keeps [OF l(4)]
    edit_field_keeps [OF l(5)] edit_field_keeps [OF l(6)] edit_field_keeps [OF l(7)] edit_field_keeps [OF l(8)]
  show ?thesis
    by (cases "active_field form")
      (simp_all add: press_enter_def Let_def assms toggle_wf wf set_if_path_def set_of_path_def e pickers_within
        pick_field_keeps job_field_keeps job_keeps dry_run_keeps clip_field_keeps)
qed

lemma press_keeps:
  assumes "form_wf form"
  shows "keeps w (\<lambda>(b, f). form_wf f) (press_key qs ch form w)"
proof -
  have f: "active_field form \<noteq> FIELD_COUNT_TOTAL" using assms by (simp add: form_wf_def)
  note [simp] = arrows_real [OF f] tabs_real [OF f] form_wf_set(10) [OF assms]
  show ?thesis
    by (cases ch) (simp_all add: press_key_def Let_def assms toggle_wf enter_keeps job_field_keeps dry_run_keeps clip_field_keeps)
qed

lemma loop_keeps:
  "length (keys (w_ui w)) < fuel \<Longrightarrow> form_wf form \<Longrightarrow>
     \<exists>a. tui_loop fuel qs form w = Some a \<and> keeps w form_wf a"
proof (induction fuel arbitrary: form w)
  case (Suc fuel)
  show ?case
  proof (cases "keys (w_ui w)")
    case (Cons ch ks)
    let ?w = "w\<lparr>w_ui := (w_ui w)\<lparr>keys := ks\<rparr>\<rparr>"
    have w: "world_step w ?w" using Cons by (simp add: world_step_def)
    have k: "keeps ?w (\<lambda>(b, f). form_wf f) (press_key qs ch form ?w)" by (rule press_keeps [OF Suc.prems(2)])
    show ?thesis
    proof (cases "press_key qs ch form ?w")
      case (Fin r w')
      obtain b form' where r: "r = (b, form')" by fastforce
      have s: "world_step w w'" and f: "form_wf form'" using k Fin r world_step_trans [OF w] by auto
      have l: "length (keys (w_ui w')) < fuel" using k Fin Suc.prems(1) Cons by (auto simp: world_step_def)
      obtain a where a: "tui_loop fuel qs form' w' = Some a" and ka: "keeps w' form_wf a" using Suc.IH [OF l f] by blast
      have "keeps w form_wf a" using ka world_step_trans [OF s] by (cases a) auto
      then show ?thesis using Cons Fin r a s f by (cases b) auto
    qed (use Cons k world_step_trans [OF w] in auto)
  qed simp
qed simp

section \<open>What the program does\<close>

text \<open>A world for the witnesses: the disk of theory TuiDevice, and programs that print nothing and succeed.\<close>

definition world_ab :: "tui_key list \<Rightarrow> string list \<Rightarrow> tui_world" where
  "world_ab ks ls = \<lparr>w_ui = \<lparr>keys = ks, typed = ls\<rparr>, w_sys = sys_ab, w_fs = fs_ab, w_run = (\<lambda>n cmd. Some ([], 0)),
     w_pipe = (\<lambda>prog. None), w_home = None, w_writable = (\<lambda>p. False), w_log = []\<rparr>"

text \<open>
  C14: the types of the form hold after every key, whatever dialog it opens and whatever is typed, chosen or printed
  by the programs it runs: no string overruns its array, and engine, status and focus stay inside their enumerations.
\<close>

theorem tui_keys_keep_types:
  assumes "form_wf form" and "press_key qs ch form w = Fin (b, form') w'"
  shows "form_wf form'"
  using press_keeps [OF assms(1), of w qs ch] assms(2) by simp

theorem tui_keys_keep_types_witness:
  "form_wf (tui_init_form\<lparr>active_field := FIELD_BTN_START\<rparr>)"
  using tui_keys_keep_types [OF form_wf_init, of isort KEY_UP "world_ab [] []" True] by (simp add: press_key_def tui_init_form_def)

text \<open>
  C19: the program comes to an end with its keys: given finitely many, it has quit or waits for the next one; it never
  reads outside an array.
\<close>

theorem tui_main_ends:
  "\<exists>a. tui_main terminal_rows terminal_cols qs w = Some a \<and> (\<forall>w'. a \<noteq> Bad w')"
proof -
  obtain a where "tui_loop (Suc (length (keys (w_ui w)))) qs tui_init_form w = Some a" and "keeps w form_wf a"
    using loop_keeps [OF lessI form_wf_init] by blast
  then show ?thesis by (cases a) (simp_all add: tui_main_def)
qed

text \<open>
  C13: nothing is written to a disk unasked: whenever a copy is started (not a dry run) whose target is a block
  device, the last thing before it was the warning for this device, answered with yes; and the answer counts as yes
  only if one of the keys j and y was pressed before any key that says no.
\<close>

theorem tui_asks_before_writing:
  assumes "tui_main terminal_rows terminal_cols qs w = Some a" and "a = Fin status w' \<or> a = Wait w'" and "w_log w = []"
  shows "runs_confirmed (w_sys w) (w_log w') \<and>
    (\<forall>ks ks'. confirm_loop ks = Some (True, ks') \<longrightarrow>
       (\<exists>before k. ks = before @ k # ks' \<and> k \<in> {KEY_CHAR CHR ''j'', KEY_CHAR CHR ''J'', KEY_CHAR CHR ''y'', KEY_CHAR CHR ''Y''} \<and>
          set before \<inter> {KEY_CHAR CHR ''n'', KEY_CHAR CHR ''N'', KEY_CHAR CHR 0x1B, KEY_CHAR CHR ''q''} = {}))"
proof (intro conjI allI impI)
  obtain a' where l: "tui_loop (Suc (length (keys (w_ui w)))) qs tui_init_form w = Some a'" and k: "keeps w form_wf a'"
    using loop_keeps [OF lessI form_wf_init] by blast
  have "world_step w w'"
    using assms(1,2) l k by (cases a') (auto simp: tui_main_def split: if_splits)
  then show "runs_confirmed (w_sys w) (w_log w')" using assms(3) by (auto simp: world_step_def)
next
  fix ks ks' assume "confirm_loop ks = Some (True, ks')"
  then show "\<exists>before k. ks = before @ k # ks' \<and> k \<in> {KEY_CHAR CHR ''j'', KEY_CHAR CHR ''J'', KEY_CHAR CHR ''y'', KEY_CHAR CHR ''Y''} \<and>
      set before \<inter> {KEY_CHAR CHR ''n'', KEY_CHAR CHR ''N'', KEY_CHAR CHR 0x1B, KEY_CHAR CHR ''q''} = {}"
  proof (induction ks)
    case (Cons k ks)
    show ?case
    proof (cases "k \<in> {KEY_CHAR CHR ''j'', KEY_CHAR CHR ''J'', KEY_CHAR CHR ''y'', KEY_CHAR CHR ''Y''}")
      case True
      then have "ks' = ks" using Cons.prems by auto
      with True show ?thesis by (intro exI [of _ "[]"]) auto
    next
      case False
      then have no: "k \<notin> {KEY_CHAR CHR ''n'', KEY_CHAR CHR ''N'', KEY_CHAR CHR 0x1B, KEY_CHAR CHR ''q''}"
        and c: "confirm_loop ks = Some (True, ks')" using Cons.prems by (auto split: if_splits)
      from Cons.IH [OF c] obtain before y where "ks = before @ y # ks'"
        "y \<in> {KEY_CHAR CHR ''j'', KEY_CHAR CHR ''J'', KEY_CHAR CHR ''y'', KEY_CHAR CHR ''Y''}"
        "set before \<inter> {KEY_CHAR CHR ''n'', KEY_CHAR CHR ''N'', KEY_CHAR CHR 0x1B, KEY_CHAR CHR ''q''} = {}" by blast
      with no show ?thesis by (intro exI [of _ "k # before"] exI [of _ y]) auto
    qed
  qed simp
qed

text \<open>The user types two paths, starts the copy, says yes, and quits.\<close>

definition copy_keys :: "tui_key list" where
  "copy_keys = [KEY_ENTER, KEY_DOWN, KEY_ENTER, KEY_UP, KEY_UP, KEY_ENTER, KEY_CHAR CHR ''j'', KEY_CHAR CHR ''q'']"

definition log_of :: "int act option \<Rightarrow> tui_event list" where
  "log_of a = (case a of Some (Fin s w) \<Rightarrow> w_log w | _ \<Rightarrow> [])"

lemma copy_keys_log:
  "log_of (tui_main 30 80 isort (world_ab copy_keys [''in.img'', ''/dev/sda''])) =
     [Answered ''/dev/sda'' True, Ran ''/dev/sda'' False ''//blkcp -i \"in.img\" -o \"/dev/sda\" -b auto -p 2>&1'']"
  by code_simp

theorem tui_asks_before_writing_witness:
  "\<exists>w'. tui_main 30 80 isort (world_ab copy_keys [''in.img'', ''/dev/sda'']) = Some (Fin 0 w') \<and>
     length (w_log w') = 2 \<and> runs_confirmed sys_ab (w_log w')"
proof -
  have "(case tui_main 30 80 isort (world_ab copy_keys [''in.img'', ''/dev/sda'']) of Some (Fin s w) \<Rightarrow> s = 0 | _ \<Rightarrow> False)"
    by code_simp
  then obtain w' where m: "tui_main 30 80 isort (world_ab copy_keys [''in.img'', ''/dev/sda'']) = Some (Fin 0 w')"
    by (auto split: option.splits act.splits)
  then have "length (w_log w') = 2" using copy_keys_log by (simp add: log_of_def)
  then show ?thesis using m tui_asks_before_writing [OF m] by (auto simp: world_ab_def)
qed

text \<open>
  A pipe once chosen stays a pipe: typing the path of a file into the output field afterwards leaves
  \<open>of_is_pipe\<close> set, and the command pipes the data into a program of that name instead of writing to the file.
\<close>

theorem tui_typed_path_stays_pipe:
  assumes "active_field form = FIELD_OF" and "of_is_pipe form" and "l \<notin> {[], ''stdout'', ''-''}" and "length l < 500"
  shows "\<exists>form' w'. press_enter qs form (world_ab [] [l]) = Fin (True, form') w' \<and> of_path form' = l \<and>
    of_is_pipe form' \<and> snd (output_pieces form') = [] \<and> fst (output_pieces form') = '' | '' @ l"
proof -
  have "take 511 l = l" "l \<noteq> []" "take 500 l = l" "length l < 597" using assms(3,4) by auto
  then show ?thesis
    using assms by (auto simp: press_enter_def Let_def edit_text_modal_def run_dialog_def wgetnstr_def world_ab_def
        set_of_path_def snprintf_def output_pieces_def streq_def)
qed

theorem tui_typed_path_stays_pipe_witness:
  "\<exists>form' w'. press_enter isort (tui_init_form\<lparr>active_field := FIELD_OF, of_is_pipe := True\<rparr>) (world_ab [] [''disk.img'']) =
       Fin (True, form') w' \<and> of_path form' = ''disk.img'' \<and> of_is_pipe form' \<and> snd (output_pieces form') = [] \<and>
     fst (output_pieces form') = '' | disk.img''"
  using tui_typed_path_stays_pipe [of "tui_init_form\<lparr>active_field := FIELD_OF, of_is_pipe := True\<rparr>" "''disk.img''" isort]
  by simp



end
