(* ===== verification/Report.thy ===== *)
theory Report
  imports DryRun "HOL-Library.Log_Nat"
begin

text \<open>
  The text of the reports, \<open>src/src/stats.c\<close>: the line of the transfer, the progress and the summary as JSON, the
  digest. The events of theory Context say which report is made; here is what each of them prints. Messages are
  untranslated; the decimal point is the locale's. \<open>human_readable\<close>, which abbreviates a size, and
  \<open>blks_digest_to_base64\<close> are library functions and parameters.
\<close>

section \<open>Floating-point numbers\<close>

text \<open>
  A \<open>double\<close> is the rational it stands for; \<open>dbl\<close> rounds to the nearest one, ties to even. The values here are 0
  or between a billionth and \<open>10 ^ 25\<close>, far from where a double under- or overflows.
\<close>

definition pow2 :: "int \<Rightarrow> rat" where
  "pow2 e = (if 0 \<le> e then 2 ^ nat e else 1 / 2 ^ nat (- e))"

definition nearest :: "rat \<Rightarrow> int" where
  "nearest x =
     (let f = \<lfloor>x\<rfloor>; d = x - of_int f
      in if d < 1 / 2 then f else if 1 / 2 < d then f + 1 else if even f then f else f + 1)"

definition exponent :: "rat \<Rightarrow> int" where
  "exponent x = (case quotient_of x of (p, q) \<Rightarrow> let b = bitlen p - bitlen q in if pow2 b \<le> x then b else b - 1)"

definition dbl :: "rat \<Rightarrow> rat" where
  "dbl x = (if x = 0 then 0 else let e = exponent \<bar>x\<bar> - 52 in of_int (nearest (x / pow2 e)) * pow2 e)"

definition xtime_precision :: int where "xtime_precision = 1000000000"

text \<open>The seconds since the start and the bytes per second, both 0 before the clock has moved.\<close>

definition delta_secs :: "dd_stats \<Rightarrow> int \<Rightarrow> rat" where
  "delta_secs st now =
     (if start_time st < now then dbl (dbl (of_int (now - start_time st)) / dbl (of_int xtime_precision)) else 0)"

definition speed_bps :: "dd_stats \<Rightarrow> int \<Rightarrow> rat" where
  "speed_bps st now =
     (if start_time st < now \<and> dbl (1 / 1000000) < delta_secs st now
      then dbl (dbl (of_int (w_bytes st)) / delta_secs st now) else 0)"

section \<open>printf of a double\<close>

definition pad_left :: "nat \<Rightarrow> string \<Rightarrow> string" where
  "pad_left n s = replicate (n - length s) (CHR ''0'') @ s"

text \<open>\<open>%.nf\<close>, with the decimal point \<open>dp\<close>.\<close>

definition fixed_digits :: "char \<Rightarrow> nat \<Rightarrow> nat \<Rightarrow> string" where
  "fixed_digits dp n m =
     digits (m div 10 ^ n) @ (if n = 0 then [] else dp # pad_left n (digits (m mod 10 ^ n)))"

definition fmt_f :: "char \<Rightarrow> nat \<Rightarrow> rat \<Rightarrow> string" where
  "fmt_f dp n x = (if x < 0 then ''-'' else []) @ fixed_digits dp n (nat (nearest (\<bar>x\<bar> * 10 ^ n)))"

text \<open>\<open>%g\<close>: six significant digits, trailing zeros dropped, with an exponent if it is below -4 or above 5.\<close>

definition pow10 :: "int \<Rightarrow> rat" where
  "pow10 e = (if 0 \<le> e then 10 ^ nat e else 1 / 10 ^ nat (- e))"

definition dec_exponent :: "rat \<Rightarrow> int" where
  "dec_exponent x =
     (case quotient_of x of (p, q) \<Rightarrow>
        let d = int (length (digits (nat p))) - int (length (digits (nat q))) in if pow10 d \<le> x then d else d - 1)"

definition strip_zeros :: "char \<Rightarrow> string \<Rightarrow> string" where
  "strip_zeros dp s =
     (if dp \<in> set s
      then (let t = rev (dropWhile (\<lambda>c. c = CHR ''0'') (rev s)) in if t \<noteq> [] \<and> last t = dp then butlast t else t)
      else s)"

definition fmt_g :: "char \<Rightarrow> rat \<Rightarrow> string" where
  "fmt_g dp x =
     (if x = 0 then ''0''
      else
        let y = \<bar>x\<bar>; e0 = dec_exponent y; m0 = nearest (y / pow10 (e0 - 5));
            (e, m) = (if m0 = 1000000 then (e0 + 1, 100000) else (e0, m0))
        in (if x < 0 then ''-'' else []) @
           (if - 4 \<le> e \<and> e < 6 then strip_zeros dp (fixed_digits dp (nat (5 - e)) (nat m))
            else strip_zeros dp (fixed_digits dp 5 (nat m)) @ ''e'' @ (if e < 0 then ''-'' else ''+'') @
              pad_left 2 (digits (nat \<bar>e\<bar>))))"

section \<open>The line of the transfer\<close>

text \<open>
  \<open>human n iec a b\<close>: \<open>human_readable (n, buf, opts, a, b)\<close>, with \<open>human_base_1024\<close> or not; \<open>base64\<close>: the text of a
  BLKS digest.
\<close>

record report_env =
  human :: "int \<Rightarrow> bool \<Rightarrow> int \<Rightarrow> int \<Rightarrow> string"
  base64 :: "byte list \<Rightarrow> string"
  point :: char

definition abbreviation_lacks_prefix :: "string \<Rightarrow> bool" where
  "abbreviation_lacks_prefix message \<longleftrightarrow> 2 \<le> length message \<and> message ! (length message - 2) = CHR '' ''"

definition bytes_per_second :: "report_env \<Rightarrow> dd_stats \<Rightarrow> int \<Rightarrow> string" where
  "bytes_per_second E st now =
     (if start_time st < now then human E (w_bytes st) False xtime_precision (now - start_time st) @ ''/s''
      else ''Infinity B/s'')"

definition delta_s_buf :: "report_env \<Rightarrow> dd_stats \<Rightarrow> bool \<Rightarrow> int \<Rightarrow> string" where
  "delta_s_buf E st progress now =
     take 23 ((if progress then fmt_f (point E) 0 (delta_secs st now) else fmt_g (point E) (delta_secs st now)) @ '' s'')"

definition xfer_line :: "report_env \<Rightarrow> dd_stats \<Rightarrow> bool \<Rightarrow> int \<Rightarrow> string" where
  "xfer_line E st progress now =
     (let w = w_bytes st; si = human E w False 1 1; iec = human E w True 1 1;
          rest = '' copied, '' @ delta_s_buf E st progress now @ '', '' @ bytes_per_second E st now
      in if abbreviation_lacks_prefix si then fmt_jd w @ (if w = 1 then '' byte'' else '' bytes'') @ rest
         else if abbreviation_lacks_prefix iec then fmt_jd w @ '' bytes ('' @ si @ '')'' @ rest
         else fmt_jd w @ '' bytes ('' @ si @ '', '' @ iec @ '')'' @ rest)"

text \<open>
  \<open>dd_print_xfer_stats (stats, &len, time)\<close>: what is printed, and the new length. In the progress display the
  line overwrites the last one, whose rest is blanked out.
\<close>

definition dd_print_xfer_stats :: "report_env \<Rightarrow> dd_stats \<Rightarrow> bool \<Rightarrow> int \<Rightarrow> string \<times> int" where
  "dd_print_xfer_stats E st progress now =
     (let line = xfer_line E st progress now; len = int (length line)
      in if progress then (CHR 0x0D # line @ replicate (nat (progress_len st - len)) (CHR '' ''), len)
         else (line @ [CHR 0x0A], progress_len st))"

section \<open>The reports as JSON\<close>

definition format_json_double :: "report_env \<Rightarrow> rat \<Rightarrow> nat \<Rightarrow> string" where
  "format_json_double E x decimals =
     map (\<lambda>c. if c = CHR '','' then CHR ''.'' else c) (take 31 (fmt_f (point E) decimals x))"

definition percent_done :: "dd_stats \<Rightarrow> int \<Rightarrow> rat" where
  "percent_done st tot = min 100 (dbl (dbl (dbl (of_int (w_bytes st)) * 100) / dbl (of_int tot)))"

definition eta_secs :: "dd_stats \<Rightarrow> int \<Rightarrow> int \<Rightarrow> rat" where
  "eta_secs st tot now =
     (if 0 < speed_bps st now \<and> w_bytes st < tot then dbl (dbl (of_int (tot - w_bytes st)) / speed_bps st now) else 0)"

definition dd_print_json_progress :: "report_env \<Rightarrow> dd_stats \<Rightarrow> int \<Rightarrow> int \<Rightarrow> string" where
  "dd_print_json_progress E st tot now =
     (let delta = format_json_double E (delta_secs st now) 2; speed = format_json_double E (speed_bps st now) 0
      in if 0 < tot
         then ''{\"event\":\"progress\",\"copied_bytes\":'' @ fmt_jd (w_bytes st) @ '',\"total_bytes\":'' @ fmt_jd tot @
           '',\"percent\":'' @ format_json_double E (percent_done st tot) 2 @ '',\"speed_bps\":'' @ speed @
           '',\"elapsed_s\":'' @ delta @ '',\"eta_s\":'' @ format_json_double E (eta_secs st tot now) 1 @ ''}'' @ [CHR 0x0A]
         else ''{\"event\":\"progress\",\"copied_bytes\":'' @ fmt_jd (w_bytes st) @
           '',\"total_bytes\":null,\"percent\":null,\"speed_bps\":'' @ speed @ '',\"elapsed_s\":'' @ delta @ '',\"eta_s\":null}'' @ [CHR 0x0A])"

text \<open>\<open>%02x\<close> of the first 32 bytes of the digest.\<close>

definition hex_digit :: "nat \<Rightarrow> char" where "hex_digit n = ''0123456789abcdef'' ! n"

definition hex2 :: "byte \<Rightarrow> string" where
  "hex2 b = [hex_digit (unat b div 16), hex_digit (unat b mod 16)]"

definition hex_text :: "byte list \<Rightarrow> string" where
  "hex_text dig = concat (map hex2 (take 32 dig))"

definition digest_text :: "report_env \<Rightarrow> dd_hash_algo \<Rightarrow> byte list \<Rightarrow> string" where
  "digest_text E algo dig = (if algo = HASH_ALGO_BLKS then base64 E dig else hex_text dig)"

definition pipeline_buf :: "dd_stats \<Rightarrow> string" where
  "pipeline_buf st =
     take 127 (if 0 < async_capacity st
               then ''{\"capacity\":'' @ fmt_zu (async_capacity st) @ '',\"reader_stalls\":'' @ fmt_zu (async_reader_stalls st) @
                 '',\"writer_stalls\":'' @ fmt_zu (async_writer_stalls st) @ ''}''
               else ''null'')"

definition algo_name :: "dd_hash_algo \<Rightarrow> string" where
  "algo_name algo =
     (if algo = HASH_ALGO_BLAKE3 then ''blake3'' else if algo = HASH_ALGO_BLKS then ''blks'' else ''sha256'')"

definition checksum_obj :: "report_env \<Rightarrow> dd_hash_algo \<Rightarrow> byte list option \<Rightarrow> string" where
  "checksum_obj E algo dig =
     take 127 (case dig of
                 Some d \<Rightarrow> ''{\"algorithm\":\"'' @ algo_name algo @ ''\",\"digest\":\"'' @ digest_text E algo d @ ''\"}''
               | None \<Rightarrow> ''null'')"

text \<open>\<open>dd_print_json_summary_ext (stats, digest, has_digest, algo)\<close>; the digest is \<open>None\<close> without \<open>has_digest\<close>.\<close>

definition dd_print_json_summary_ext ::
  "report_env \<Rightarrow> dd_stats \<Rightarrow> byte list option \<Rightarrow> dd_hash_algo \<Rightarrow> int \<Rightarrow> string" where
  "dd_print_json_summary_ext E st dig algo now =
     ''{\"event\":\"finished\",\"copied_bytes\":'' @ fmt_jd (w_bytes st)
     @ '',\"records_in\":{\"full\":'' @ fmt_jd (r_full st) @ '',\"partial\":'' @ fmt_jd (r_partial st)
     @ '',\"truncated\":'' @ fmt_jd (r_truncate st) @ ''},\"records_out\":{\"full\":'' @ fmt_jd (w_full st)
     @ '',\"partial\":'' @ fmt_jd (w_partial st)
     @ ''},\"elapsed_s\":'' @ format_json_double E (delta_secs st now) 4
     @ '',\"avg_speed_bps\":'' @ format_json_double E (speed_bps st now) 0
     @ '',\"pipeline\":'' @ pipeline_buf st @ '',\"checksum\":'' @ checksum_obj E algo dig
     @ '',\"sha256\":'' @ (case dig of Some d \<Rightarrow> ''\"'' @ digest_text E algo d @ ''\"'' | None \<Rightarrow> ''null'')
     @ ''}'' @ [CHR 0x0A]"

section \<open>What a run prints at its end\<close>

definition dd_print_hash_algo :: "report_env \<Rightarrow> byte list \<Rightarrow> dd_hash_algo \<Rightarrow> string" where
  "dd_print_hash_algo E dig algo =
     (if algo = HASH_ALGO_BLKS then DryRun.ln (''blks:   '' @ base64 E dig)
      else DryRun.ln ((if algo = HASH_ALGO_BLAKE3 then ''blake3'' else ''sha256'') @ '': '' @ hex_text dig))"

text \<open>The text \<open>dd_print_stats\<close> writes; \<open>dd_print_stats\<close> of theory Context is its effect on the state.\<close>

definition stats_text :: "report_env \<Rightarrow> 'h st \<Rightarrow> string" where
  "stats_text E s =
     (case s of (ctx, k) \<Rightarrow>
        let st = stats ctx; now = fst (gethrxtime k) in
        if is_json (cfg ctx)
        then dd_print_json_summary_ext E st (if sha_computed ctx then Some (sha_digest ctx) else None) (ctx_hash_algo ctx) now
        else
          (if status_level (cfg ctx) \<noteq> STATUS_NONE then
             (if 0 < progress_len st then [CHR 0x0A] else []) @
             DryRun.ln (fmt_jd (r_full st) @ ''+'' @ fmt_jd (r_partial st) @ '' records in'') @
             DryRun.ln (fmt_jd (w_full st) @ ''+'' @ fmt_jd (w_partial st) @ '' records out'') @
             (if r_truncate st \<noteq> 0
              then DryRun.ln (fmt_jd (r_truncate st) @ (if r_truncate st = 1 then '' truncated record'' else '' truncated records''))
              else []) @
             (if status_level (cfg ctx) \<noteq> STATUS_NOXFER then fst (dd_print_xfer_stats E (st\<lparr>progress_len := 0\<rparr>) False now) else [])
           else []) @
          (if sha_computed ctx then dd_print_hash_algo E (sha_digest ctx) (ctx_hash_algo ctx) else []))"

end
