(* ===== verification/ReportRead.thy ===== *)
theory ReportRead
  imports Report
begin

text \<open>
  A reader of JSON, and that the reports of theory Report are JSON: read back, they give the counters, the time and
  the digest, also in a locale whose decimal point is a comma, which \<open>format_json_double\<close> replaces.
\<close>

section \<open>A reader of JSON\<close>

text \<open>Without arrays, escapes and exponents, which the reports do not have. A number stays the text it is.\<close>

datatype json = JNull | JNum string | JStr string | JObj "(string \<times> json) list"

definition is_digit :: "char \<Rightarrow> bool" where "is_digit c \<longleftrightarrow> c \<in> set ''0123456789''"

definition json_number :: "string \<Rightarrow> bool" where
  "json_number t \<longleftrightarrow>
     (let t = (if take 1 t = ''-'' then tl t else t); i = takeWhile is_digit t; r = dropWhile is_digit t
      in i \<noteq> [] \<and> (hd i = CHR ''0'' \<longrightarrow> tl i = []) \<and>
         (r = [] \<or> hd r = CHR ''.'' \<and> tl r \<noteq> [] \<and> list_all is_digit (tl r)))"

definition plain_char :: "char \<Rightarrow> bool" where
  "plain_char c \<longleftrightarrow> c \<noteq> CHR 0x22 \<and> c \<noteq> CHR 0x5C \<and> 32 \<le> (of_char c :: nat)"

definition read_quoted :: "string \<Rightarrow> (string \<times> string) option" where
  "read_quoted s =
     (case s of
        [] \<Rightarrow> None
      | c # cs \<Rightarrow>
          if c = CHR 0x22 \<and> take 1 (dropWhile plain_char cs) = [CHR 0x22]
          then Some (takeWhile plain_char cs, tl (dropWhile plain_char cs)) else None)"

definition expect :: "char \<Rightarrow> string \<Rightarrow> string option" where
  "expect c s = (case s of [] \<Rightarrow> None | d # ds \<Rightarrow> if d = c then Some ds else None)"

definition number_char :: "char \<Rightarrow> bool" where "number_char c \<longleftrightarrow> is_digit c \<or> c = CHR ''-'' \<or> c = CHR ''.''"

fun read_json :: "nat \<Rightarrow> string \<Rightarrow> (json \<times> string) option"
  and read_members :: "nat \<Rightarrow> string \<Rightarrow> ((string \<times> json) list \<times> string) option" where
  "read_json 0 s = None"
| "read_json (Suc n) s =
     (if take 2 s = ''{}'' then Some (JObj [], drop 2 s)
      else if take 1 s = ''{'' then map_option (apfst JObj) (read_members n (tl s))
      else if take 1 s = [CHR 0x22] then map_option (apfst JStr) (read_quoted s)
      else if take 4 s = ''null'' then Some (JNull, drop 4 s)
      else let t = takeWhile number_char s in if json_number t then Some (JNum t, dropWhile number_char s) else None)"
| "read_members 0 s = None"
| "read_members (Suc n) s =
     Option.bind (read_quoted s) (\<lambda>(k, s).
     Option.bind (expect (CHR '':'') s) (\<lambda>s.
     Option.bind (read_json n s) (\<lambda>(v, s).
       if take 1 s = '','' then map_option (apfst (Cons (k, v))) (read_members n (tl s))
       else map_option (Pair [(k, v)]) (expect (CHR ''}'') s))))"

definition read_line :: "string \<Rightarrow> json option" where
  "read_line s = (case read_json (length s) s of Some (v, r) \<Rightarrow> if r = [CHR 0x0A] then Some v else None | None \<Rightarrow> None)"

fun json_at :: "string list \<Rightarrow> json \<Rightarrow> json option" where
  "json_at [] v = Some v"
| "json_at (k # ks) (JObj ms) = Option.bind (map_of ms k) (json_at ks)"
| "json_at (k # ks) v = None"

text \<open>The value of a number.\<close>

definition digit_value :: "char \<Rightarrow> nat" where "digit_value c = of_char c - 48"

definition digits_value :: "string \<Rightarrow> nat" where
  "digits_value ds = fold (\<lambda>c n. n * 10 + digit_value c) ds 0"

definition number_value :: "string \<Rightarrow> rat" where
  "number_value t =
     (let u = (if take 1 t = ''-'' then tl t else t); i = takeWhile is_digit u; f = tl (dropWhile is_digit u)
      in (if take 1 t = ''-'' then - 1 else 1) * (of_nat (digits_value (i @ f)) / 10 ^ length f))"

section \<open>The reader undoes the printer\<close>

fun json_text :: "json \<Rightarrow> string" and members_text :: "(string \<times> json) list \<Rightarrow> string" where
  "json_text JNull = ''null''"
| "json_text (JNum t) = t"
| "json_text (JStr s) = CHR 0x22 # s @ [CHR 0x22]"
| "json_text (JObj ms) = ''{'' @ members_text ms"
| "members_text [] = ''}''"
| "members_text ((k, v) # ms) =
     CHR 0x22 # k @ CHR 0x22 # CHR '':'' # json_text v @ (if ms = [] then ''}'' else CHR '','' # members_text ms)"

fun json_ok :: "json \<Rightarrow> bool" and members_ok :: "(string \<times> json) list \<Rightarrow> bool" where
  "json_ok JNull = True"
| "json_ok (JNum t) = (json_number t \<and> list_all number_char t)"
| "json_ok (JStr s) = list_all plain_char s"
| "json_ok (JObj ms) = members_ok ms"
| "members_ok [] = True"
| "members_ok ((k, v) # ms) = (list_all plain_char k \<and> json_ok v \<and> members_ok ms)"

lemma plain_facts [simp]: "\<not> plain_char CHR 0x22" "\<not> number_char CHR ''}''" "\<not> number_char CHR '',''" "\<not> number_char CHR 0x0A"
  by (simp_all add: plain_char_def number_char_def is_digit_def)

lemma plain_letter [simp]:
  "plain_char CHR ''a''" "plain_char CHR ''b''" "plain_char CHR ''c''" "plain_char CHR ''d''" "plain_char CHR ''e''" "plain_char CHR ''f''"
  "plain_char CHR ''g''" "plain_char CHR ''h''" "plain_char CHR ''i''" "plain_char CHR ''j''" "plain_char CHR ''k''" "plain_char CHR ''l''"
  "plain_char CHR ''m''" "plain_char CHR ''n''" "plain_char CHR ''o''" "plain_char CHR ''p''" "plain_char CHR ''q''" "plain_char CHR ''r''"
  "plain_char CHR ''s''" "plain_char CHR ''t''" "plain_char CHR ''u''" "plain_char CHR ''v''" "plain_char CHR ''w''" "plain_char CHR ''x''"
  "plain_char CHR ''y''" "plain_char CHR ''z''" "plain_char CHR ''_''" "plain_char CHR ''2''" "plain_char CHR ''3''" "plain_char CHR ''5''"
  "plain_char CHR ''6''" "plain_char CHR ''8''"
  by (simp_all add: plain_char_def)

lemma read_quoted_quoted: "list_all plain_char k \<Longrightarrow> read_quoted (CHR 0x22 # k @ CHR 0x22 # s) = Some (k, s)"
  by (simp add: read_quoted_def list_all_iff)

lemma number_starts:
  assumes "json_number t" "list_all number_char t"
  obtains c cs where "t = c # cs" "c \<noteq> CHR ''{''" "c \<noteq> CHR 0x22" "c \<noteq> CHR ''n''"
proof (cases t)
  case Nil
  then show ?thesis using assms(1) by (simp add: json_number_def)
next
  case (Cons c cs)
  then show ?thesis using assms(2) that [OF Cons] by (auto simp: number_char_def is_digit_def)
qed

lemma read_text:
  "json_ok v \<Longrightarrow> r = [] \<or> \<not> number_char (hd r) \<Longrightarrow> 0 < n \<Longrightarrow> length (json_text v) \<le> n \<Longrightarrow>
    read_json n (json_text v @ r) = Some (v, r)"
  "members_ok ms \<Longrightarrow> ms \<noteq> [] \<Longrightarrow> 0 < n \<Longrightarrow> length (members_text ms) \<le> n \<Longrightarrow>
    read_members n (members_text ms @ r) = Some (ms, r)"
proof (induction v and ms arbitrary: n r and n r rule: json_text_members_text.induct)
  case 1
  then show ?case by (cases n) simp_all
next
  case (2 t)
  have r: "takeWhile number_char (t @ r) = t" "dropWhile number_char (t @ r) = r"
    using 2 by (cases r; simp add: list_all_iff takeWhile_append dropWhile_append)+
  obtain c cs where "t = c # cs" "c \<noteq> CHR ''{''" "c \<noteq> CHR 0x22" "c \<noteq> CHR ''n''"
    using number_starts 2(1) by auto
  then show ?case using 2 r by (cases n) (simp_all add: Let_def)
next
  case (3 s)
  then show ?case using read_quoted_quoted [of s r] by (cases n) simp_all
next
  case (4 ms)
  obtain m where n: "n = Suc m" using 4(4) by (cases n) auto
  show ?case
  proof (cases ms)
    case Nil
    then show ?thesis using n by simp
  next
    case (Cons kv l)
    obtain k v where "kv = (k, v)" by (cases kv)
    then have h: "hd (members_text ms) = CHR 0x22" "members_text ms \<noteq> []" using Cons by simp_all
    then have "take 2 (json_text (JObj ms) @ r) \<noteq> ''{}''" by (cases "members_text ms") auto
    moreover have "read_members m (members_text ms @ r) = Some (ms, r)"
      using 4(1) [of m r] 4(2,5) n Cons h(2) by (cases m) simp_all
    ultimately show ?thesis using n by simp
  qed
next
  case 5
  then show ?case by simp
next
  case (6 k v ms)
  obtain m where n: "n = Suc m" using 6(5) by (cases n) auto
  let ?rest = "(if ms = [] then ''}'' else CHR '','' # members_text ms) @ r"
  have v: "read_json m (json_text v @ ?rest) = Some (v, ?rest)"
    using 6(1) [of ?rest m] 6(3,6) n by simp
  have k: "read_quoted (members_text ((k, v) # ms) @ r) = Some (k, CHR '':'' # json_text v @ ?rest)"
    using 6(3) read_quoted_quoted [of k "CHR '':'' # json_text v @ ?rest"] by simp
  show ?case
  proof (cases "ms = []")
    case True
    then show ?thesis using n k v by (simp add: expect_def)
  next
    case False
    then have "read_members m (members_text ms @ r) = Some (ms, r)"
      using 6(2) [of m r] 6(3,6) n by (cases ms) auto
    then show ?thesis using n k v False by (simp add: expect_def)
  qed
qed

lemma json_text_pos: "json_ok v \<Longrightarrow> 0 < length (json_text v)"
  by (cases v) (auto simp: json_number_def)

lemma read_line_text: "json_ok v \<Longrightarrow> read_line (json_text v @ [CHR 0x0A]) = Some v"
  using read_text(1) [of v "[CHR 0x0A]" "length (json_text v @ [CHR 0x0A])"] json_text_pos [of v]
  by (simp add: read_line_def)

section \<open>Numbers\<close>

lemma digit_less: "n < 10 \<Longrightarrow> ''0123456789'' ! n \<in> set ''0123456789'' \<and> digit_value (''0123456789'' ! n) = n"
  by (auto simp: digit_value_def less_Suc_eq numeral_eq_Suc)

lemma digit_zero: "n < 10 \<Longrightarrow> ''0123456789'' ! n = CHR ''0'' \<longleftrightarrow> n = 0"
  by (auto simp: less_Suc_eq numeral_eq_Suc)

lemma digits_nonempty [simp]: "digits n \<noteq> []"
  by (subst digits.simps) simp

lemma digits_are: "list_all is_digit (digits n)"
proof (induction n rule: digits.induct)
  case (1 n)
  have "is_digit (''0123456789'' ! (n mod 10))" "n < 10 \<Longrightarrow> is_digit (''0123456789'' ! n)"
    using digit_less [of "n mod 10"] digit_less [of n] pos_mod_bound [of 10 n] unfolding is_digit_def by (simp_all del: set_simps)
  with 1 show ?case by (subst digits.simps) (simp del: nth_Cons_numeral)
qed

lemma digits_value_append: "digits_value (a @ b) = digits_value a * 10 ^ length b + digits_value b"
proof -
  let ?f = "\<lambda>c n. n * 10 + digit_value c"
  have "fold ?f b m = m * 10 ^ length b + fold ?f b 0" for m
  proof (induction b arbitrary: m)
    case (Cons c b)
    have "fold ?f (c # b) m = (m * 10 + digit_value c) * 10 ^ length b + fold ?f b 0"
      using Cons [of "m * 10 + digit_value c"] by simp
    moreover have "fold ?f (c # b) 0 = digit_value c * 10 ^ length b + fold ?f b 0"
      using Cons [of "digit_value c"] by simp
    ultimately show ?case by (simp add: algebra_simps)
  qed simp
  then show ?thesis unfolding digits_value_def fold_append comp_apply by blast
qed

lemma digits_value_digits [simp]: "digits_value (digits n) = n"
proof (induction n rule: digits.induct)
  case (1 n)
  show ?case
  proof (cases "n < 10")
    case True
    then show ?thesis using digit_less [of n] by (subst digits.simps) (simp add: digits_value_def del: set_simps)
  next
    case False
    have "digits_value [c] = digit_value c" for c by (simp add: digits_value_def)
    then show ?thesis
      using False 1 digit_less [of "n mod 10"] by (subst digits.simps) (simp add: digits_value_append del: set_simps)
  qed
qed

lemma digits_zero: "hd (digits n) = CHR ''0'' \<longleftrightarrow> n = 0"
proof (induction n rule: digits.induct)
  case (1 n)
  have "n \<noteq> 0" if "\<not> n < 10" using that by simp
  then show ?case using 1 digit_zero [of n] by (subst digits.simps) (simp add: div_eq_0_iff)
qed

lemma no_leading_zero: "hd (digits n) = CHR ''0'' \<Longrightarrow> tl (digits n) = []"
  unfolding digits_zero by (subst digits.simps) simp

lemma length_digits: "n < 10 ^ k \<Longrightarrow> 0 < k \<Longrightarrow> length (digits n) \<le> k"
proof (induction k arbitrary: n)
  case (Suc k)
  show ?case
  proof (cases "n < 10")
    case True
    then show ?thesis by (subst digits.simps) simp
  next
    case False
    then have "0 < k" using Suc.prems by (cases k) auto
    moreover have "n div 10 < 10 ^ k" using Suc.prems(1) by (simp add: less_mult_imp_div_less)
    ultimately show ?thesis using Suc.IH [of "n div 10"] False by (subst digits.simps) simp
  qed
qed simp

lemma pad_left_props:
  "list_all is_digit s \<Longrightarrow> list_all is_digit (pad_left n s)" "length s \<le> n \<Longrightarrow> length (pad_left n s) = n"
  "digits_value (pad_left n s) = digits_value s"
proof -
  have "digits_value (replicate m (CHR ''0'')) = 0" for m
    by (induction m) (simp_all add: digits_value_def digit_value_def)
  then show "digits_value (pad_left n s) = digits_value s" by (simp add: pad_left_def digits_value_append)
  show "list_all is_digit s \<Longrightarrow> list_all is_digit (pad_left n s)"
    by (simp add: pad_left_def list_all_length, simp add: is_digit_def nth_append list_all_length)
qed (simp add: pad_left_def)

text \<open>A sign, digits and perhaps a fraction are a number, and its value.\<close>

lemma number_parts:
  assumes "list_all is_digit i" "i \<noteq> []" "hd i = CHR ''0'' \<Longrightarrow> tl i = []" "list_all is_digit f"
  shows "json_number ((if neg then ''-'' else []) @ i @ (if f = [] then [] else CHR ''.'' # f))" (is "json_number ?t")
    and "number_value ((if neg then ''-'' else []) @ i @ (if f = [] then [] else CHR ''.'' # f)) =
      (if neg then - 1 else 1) * (of_nat (digits_value (i @ f)) / 10 ^ length f)"
    and "list_all number_char ((if neg then ''-'' else []) @ i @ (if f = [] then [] else CHR ''.'' # f))"
proof -
  have dot: "\<not> is_digit CHR ''.''" "\<not> is_digit CHR ''-''" by (simp_all add: is_digit_def)
  have t: "takeWhile is_digit (i @ (if f = [] then [] else CHR ''.'' # f)) = i"
      "dropWhile is_digit (i @ (if f = [] then [] else CHR ''.'' # f)) = (if f = [] then [] else CHR ''.'' # f)"
    using assms(1) dot by (auto simp: list_all_iff)
  have sign: "take 1 ?t = ''-'' \<longleftrightarrow> neg" using assms(1,2) dot by (cases i) auto
  have u: "(if take 1 ?t = ''-'' then tl ?t else ?t) = i @ (if f = [] then [] else CHR ''.'' # f)"
    unfolding sign by (cases neg) simp_all
  show "json_number ?t" using assms(2-4) unfolding json_number_def Let_def u t by simp
  show "number_value ?t = (if neg then - 1 else 1) * (of_nat (digits_value (i @ f)) / 10 ^ length f)"
    unfolding number_value_def Let_def u t unfolding sign by simp
  show "list_all number_char ?t" using assms(1,4) by (auto simp: list_all_iff number_char_def)
qed

lemma int_number: "json_number (fmt_jd i)" "number_value (fmt_jd i) = of_int i" "list_all number_char (fmt_jd i)"
proof -
  note p = number_parts [OF digits_are digits_nonempty, of "nat \<bar>i\<bar>" "[]" "i < 0", OF no_leading_zero]
  have e: "fmt_jd i = (if i < 0 then ''-'' else []) @ digits (nat \<bar>i\<bar>)" by (simp add: fmt_jd_def)
  show "json_number (fmt_jd i)" "number_value (fmt_jd i) = of_int i" "list_all number_char (fmt_jd i)"
    using p unfolding e by (auto simp: list_all_iff)
qed

lemma fixed_number:
  "json_number (fixed_digits (CHR ''.'') n m)" "number_value (fixed_digits (CHR ''.'') n m) = of_nat m / 10 ^ n"
  "list_all number_char (fixed_digits (CHR ''.'') n m)"
proof -
  define f where "f = (if n = 0 then [] else pad_left n (digits (m mod 10 ^ n)))"
  have l: "n \<noteq> 0 \<Longrightarrow> length (pad_left n (digits (m mod 10 ^ n))) = n"
    by (simp add: pad_left_props(2) length_digits)
  then have f: "list_all is_digit f" "length f = n" "digits_value f = m mod 10 ^ n" "f = [] \<longleftrightarrow> n = 0"
    by (auto simp: f_def pad_left_props digits_are digits_value_def [of "[]"] simp flip: length_0_conv)
  have e: "fixed_digits (CHR ''.'') n m = (if False then ''-'' else []) @ digits (m div 10 ^ n) @ (if f = [] then [] else CHR ''.'' # f)"
    using f(4) by (simp add: fixed_digits_def f_def)
  note p = number_parts [OF digits_are digits_nonempty, of "m div 10 ^ n" f False, OF no_leading_zero f(1)]
  show "json_number (fixed_digits (CHR ''.'') n m)" unfolding e by (rule p(1))
  show "list_all number_char (fixed_digits (CHR ''.'') n m)" unfolding e by (rule p(3))
  have "digits_value (digits (m div 10 ^ n) @ f) = m"
    using div_mult_mod_eq [of m "10 ^ n"] unfolding digits_value_append f(2,3) digits_value_digits .
  then show "number_value (fixed_digits (CHR ''.'') n m) = of_nat m / 10 ^ n" unfolding e using p(2) f(2) by simp
qed

lemma fixed_length: "m < 10 ^ (k + n) \<Longrightarrow> 0 < k \<Longrightarrow> length (fixed_digits dp n m) \<le> k + n + 1"
  using length_digits [of "m div 10 ^ n" k] length_digits [of "m mod 10 ^ n" n] pad_left_props(2) [of "digits (m mod 10 ^ n)" n]
  by (cases "n = 0") (simp_all add: fixed_digits_def power_add less_mult_imp_div_less)

section \<open>Rounding\<close>

lemma nearest_close: "\<bar>of_int (nearest x) - x\<bar> \<le> 1 / 2"
  using of_int_floor_le [of x] floor_less_cancel floor_correct [of x] by (auto simp: nearest_def Let_def abs_le_iff)

lemma nearest_between: "of_int (nearest x) \<le> x + 1 / 2" "x - 1 / 2 \<le> of_int (nearest x)"
  using abs_le_D1 [OF nearest_close [of x]] abs_le_D2 [OF nearest_close [of x]] by linarith+

lemma nearest_nonneg: "0 \<le> x \<Longrightarrow> 0 \<le> nearest x"
  using zero_le_floor [of x] by (auto simp: nearest_def Let_def)

lemma pow2_pos [simp]: "0 < pow2 e" by (simp add: pow2_def)

lemma pow2_add: "pow2 (a + int n) = pow2 a * 2 ^ n"
proof (cases "0 \<le> a")
  case True
  then show ?thesis by (simp add: pow2_def nat_add_distrib power_add)
next
  case False
  show ?thesis
  proof (cases "0 \<le> a + int n")
    case True
    have "n = nat (a + int n) + nat (- a)" using True False by simp
    then have "(2::rat) ^ n = 2 ^ nat (a + int n) * 2 ^ nat (- a)" by (metis power_add)
    then show ?thesis using True False by (simp add: pow2_def)
  next
    case neg: False
    have "nat (- a) = nat (- (a + int n)) + n" using neg False by simp
    then have "(2::rat) ^ nat (- a) = 2 ^ nat (- (a + int n)) * 2 ^ n" by (metis power_add)
    then show ?thesis using neg False by (simp add: pow2_def)
  qed
qed

lemma exponent_le: "0 < x \<Longrightarrow> pow2 (exponent x) \<le> x"
proof -
  assume x: "0 < x"
  obtain p q where pq: "quotient_of x = (p, q)" by (cases "quotient_of x")
  have q: "0 < q" "x = of_int p / of_int q" using quotient_of_denom_pos [OF pq] quotient_of_div [OF pq] by auto
  with x have p: "0 < p" by (simp add: zero_less_divide_iff)
  have "pow2 (bitlen p - bitlen q - 1) \<le> x"
  proof -
    obtain a where a: "bitlen p = int (Suc a)" using p bitlen_nonneg [of p] bitlen_eq_zero_iff [of p]
      by (metis gr0_conv_Suc less_le linorder_not_le nonneg_int_cases of_nat_0_less_iff)
    obtain b where b: "bitlen q = int b" using bitlen_nonneg [of q] nonneg_int_cases by blast
    have lo: "(2::int) ^ a \<le> p" using bitlen_bounds [OF p] a by simp
    have hi: "q < 2 ^ b" using bitlen_bounds [OF q(1)] b by simp
    have "of_int q \<le> (of_int (2 ^ b) :: rat)" using hi by (simp only: of_int_le_iff)
    then have "pow2 (int a - int b) * of_int q \<le> pow2 (int a - int b) * 2 ^ b"
      using less_imp_le [OF pow2_pos] by (intro mult_left_mono) simp_all
    also have "\<dots> = pow2 (int a)" using pow2_add [of "int a - int b" b] by simp
    also have "\<dots> = of_int (2 ^ a)" by (simp add: pow2_def)
    also have "\<dots> \<le> of_int p" using lo by (simp only: of_int_le_iff)
    finally have "pow2 (int a - int b) \<le> x" using q by (simp add: pos_le_divide_eq)
    then show ?thesis using a b by simp
  qed
  then show ?thesis by (simp add: exponent_def pq Let_def)
qed

lemma dbl_bounds: "0 \<le> x \<Longrightarrow> 0 \<le> dbl x" "0 \<le> x \<Longrightarrow> dbl x \<le> 2 * x" "0 \<le> x \<Longrightarrow> x / 2 \<le> dbl x"
proof -
  assume x: "0 \<le> x"
  define e where "e = exponent \<bar>x\<bar> - 52"
  show "0 \<le> dbl x"
    using nearest_nonneg [of "x / pow2 e"] x less_imp_le [OF pow2_pos, of e] by (simp add: dbl_def Let_def e_def)
  have "dbl x \<le> 2 * x \<and> x / 2 \<le> dbl x"
  proof (cases "x = 0")
    case False
    let ?y = "x / pow2 e"
    have "pow2 e * 2 ^ 52 \<le> x" using False exponent_le [of x] x pow2_add [of e 52] by (simp add: e_def)
    moreover have "pow2 e * 1 \<le> pow2 e * 2 ^ 52" using less_imp_le [OF pow2_pos] by (intro mult_left_mono) simp_all
    ultimately have e: "pow2 e \<le> x" by (metis mult_1_right order_trans)
    have "of_int (nearest ?y) * pow2 e \<le> (?y + 1 / 2) * pow2 e" "(?y - 1 / 2) * pow2 e \<le> of_int (nearest ?y) * pow2 e"
      using nearest_between [of ?y] less_imp_le [OF pow2_pos] by (blast intro: mult_right_mono)+
    moreover have "(?y + 1 / 2) * pow2 e = x + pow2 e / 2" "(?y - 1 / 2) * pow2 e = x - pow2 e / 2"
      using pow2_pos [of e] by (simp_all add: distrib_right left_diff_distrib less_imp_neq [symmetric])
    moreover have "dbl x = of_int (nearest ?y) * pow2 e" using False by (simp add: dbl_def Let_def e_def)
    ultimately have "dbl x \<le> x + pow2 e / 2" "x - pow2 e / 2 \<le> dbl x" by simp_all
    then show ?thesis using e pow2_pos [of e] by linarith
  qed (simp add: dbl_def)
  then show "dbl x \<le> 2 * x" "x / 2 \<le> dbl x" by simp_all
qed

section \<open>The numbers of the reports\<close>

definition dot_or_comma :: "report_env \<Rightarrow> bool" where "dot_or_comma E \<longleftrightarrow> point E = CHR ''.'' \<or> point E = CHR '',''"

lemma format_json_double_text:
  assumes "dot_or_comma E" "0 \<le> x" "x < 10 ^ k" "k + n \<le> 29"
  shows "json_number (format_json_double E x n)" "list_all number_char (format_json_double E x n)"
    and "\<bar>number_value (format_json_double E x n) - x\<bar> \<le> 1 / (2 * 10 ^ n)"
proof -
  define m where "m = nat (nearest (x * 10 ^ n))"
  have m: "\<bar>of_nat m - x * 10 ^ n\<bar> \<le> 1 / 2"
    using nearest_close [of "x * 10 ^ n"] nearest_nonneg [of "x * 10 ^ n"] assms(2) by (simp add: m_def)
  have "of_nat m < (10 ^ k * 10 ^ n + 1 :: rat)"
    using abs_le_D1 [OF m] mult_strict_right_mono [OF assms(3) zero_less_power [of 10 n, OF zero_less_numeral]] by linarith
  then have "of_nat m < (of_nat (10 ^ k * 10 ^ n + 1) :: rat)"
    by (simp only: of_nat_add of_nat_mult of_nat_power of_nat_numeral of_nat_1)
  then have "m < 10 ^ k * 10 ^ n + 1" by (simp only: of_nat_less_iff)
  moreover have "(10::nat) ^ (Suc k + n) = 10 * (10 ^ k * 10 ^ n)" by (simp add: power_add)
  moreover have "0 < (10::nat) ^ k * 10 ^ n" by simp
  ultimately have "m < 10 ^ (Suc k + n)" by linarith
  then have l: "length (fixed_digits dp n m) \<le> 31" for dp using fixed_length [of m "Suc k" n dp] assms(4) by simp
  have c: "c \<noteq> CHR '',''" if "is_digit c" for c using that by (auto simp: is_digit_def)
  have id: "map (\<lambda>c. if c = CHR '','' then CHR ''.'' else c) s = s" if "list_all is_digit s" for s
    using that c by (induction s) auto
  have "map (\<lambda>c. if c = CHR '','' then CHR ''.'' else c) (fixed_digits (point E) n m) = fixed_digits (CHR ''.'') n m"
    using assms(1) by (auto simp: dot_or_comma_def fixed_digits_def id digits_are pad_left_props)
  then have t: "format_json_double E x n = fixed_digits (CHR ''.'') n m"
    using l assms(2) by (simp add: format_json_double_def fmt_f_def m_def)
  show "json_number (format_json_double E x n)" "list_all number_char (format_json_double E x n)"
    by (simp_all add: t fixed_number)
  have "of_nat m / 10 ^ n - x = (of_nat m - x * 10 ^ n) / 10 ^ n" by (simp add: diff_divide_distrib)
  then have "\<bar>of_nat m / 10 ^ n - x\<bar> = \<bar>of_nat m - x * 10 ^ n\<bar> / 10 ^ n" by (simp add: abs_divide)
  also have "\<dots> \<le> 1 / 2 / 10 ^ n" by (rule divide_right_mono [OF m]) simp
  finally show "\<bar>number_value (format_json_double E x n) - x\<bar> \<le> 1 / (2 * 10 ^ n)" by (simp add: t fixed_number)
qed

text \<open>The counters and the clock are in their types' ranges.\<close>

definition stats_in_range :: "dd_stats \<Rightarrow> int \<Rightarrow> bool" where
  "stats_in_range st now \<longleftrightarrow> 0 \<le> w_bytes st \<and> w_bytes st < 2 ^ 63 \<and> 0 \<le> start_time st \<and> now < 2 ^ 63"

lemma delta_range: "stats_in_range st now \<Longrightarrow> 0 \<le> delta_secs st now \<and> delta_secs st now < 10 ^ 11"
proof -
  assume s: "stats_in_range st now"
  show ?thesis
  proof (cases "start_time st < now")
    case True
    define d :: rat where "d = of_int (now - start_time st)"
    have "d < of_int (2 ^ 63)" unfolding d_def of_int_less_iff using s by (simp add: stats_in_range_def)
    then have d: "0 < d" "d < 2 ^ 63" using True by (simp_all add: d_def)
    have p: "5 * 10 ^ 8 \<le> dbl (of_int xtime_precision)" using dbl_bounds(3) [of "of_int xtime_precision"] by (simp add: xtime_precision_def)
    have "dbl d / dbl (of_int xtime_precision) \<le> 2 ^ 64 / (5 * 10 ^ 8)"
      using p d dbl_bounds(1,2) [of d] by (intro frac_le) simp_all
    then have "dbl (dbl d / dbl (of_int xtime_precision)) \<le> 2 * (2 ^ 64 / (5 * 10 ^ 8))"
      using dbl_bounds(2) [of "dbl d / dbl (of_int xtime_precision)"] dbl_bounds(1) [of d] d p by (simp add: divide_nonneg_pos)
    moreover have "0 \<le> dbl (dbl d / dbl (of_int xtime_precision))"
      using dbl_bounds(1) [of d] d p by (intro dbl_bounds(1)) (simp add: divide_nonneg_pos)
    ultimately show ?thesis using True by (simp add: delta_secs_def d_def)
  qed (simp add: delta_secs_def)
qed

lemma speed_range: "stats_in_range st now \<Longrightarrow> 0 \<le> speed_bps st now \<and> speed_bps st now < 10 ^ 26"
proof -
  assume s: "stats_in_range st now"
  show ?thesis
  proof (cases "start_time st < now \<and> dbl (1 / 1000000) < delta_secs st now")
    case True
    have "rat_of_int (w_bytes st) < of_int (2 ^ 63)" unfolding of_int_less_iff using s by (simp add: stats_in_range_def)
    then have w: "0 \<le> rat_of_int (w_bytes st)" "rat_of_int (w_bytes st) < 2 ^ 63" using s by (simp_all add: stats_in_range_def)
    have d: "1 / 2000000 \<le> delta_secs st now" using True dbl_bounds(3) [of "1 / 1000000"] by simp
    let ?v = "dbl (of_int (w_bytes st)) / delta_secs st now"
    have "?v \<le> 2 ^ 64 / (1 / 2000000)" using d w dbl_bounds(1,2) [OF w(1)] by (intro frac_le) simp_all
    then have "dbl ?v \<le> 2 * (2 ^ 64 * 2000000)"
      using dbl_bounds(2) [of ?v] dbl_bounds(1) [OF w(1)] d by (simp add: divide_nonneg_pos)
    moreover have "0 \<le> dbl ?v" using dbl_bounds(1) [OF w(1)] d by (intro dbl_bounds(1)) (simp add: divide_nonneg_pos)
    ultimately show ?thesis using True by (simp add: speed_bps_def)
  qed (auto simp: speed_bps_def)
qed

section \<open>The digest\<close>

definition hex_value :: "char \<Rightarrow> nat" where
  "hex_value c = (let n = of_char c in if n < 97 then n - 48 else n - 87)"

fun unhex :: "string \<Rightarrow> byte list" where
  "unhex (a # b # s) = word_of_nat (16 * hex_value a + hex_value b) # unhex s"
| "unhex s = []"

lemma hex_digit_value:
  assumes "n < 16" shows "hex_value (hex_digit n) = n" "plain_char (hex_digit n)" "hex_digit n \<noteq> CHR '' ''"
proof -
  have "list_all (\<lambda>n. hex_value (hex_digit n) = n \<and> plain_char (hex_digit n) \<and> hex_digit n \<noteq> CHR '' '') [0..<16]"
    by (simp add: upt_rec hex_value_def hex_digit_def plain_char_def)
  with assms show "hex_value (hex_digit n) = n" "plain_char (hex_digit n)" "hex_digit n \<noteq> CHR '' ''"
    by (simp_all add: list_all_iff)
qed

lemma unat_byte_div: "unat (b :: byte) div 16 < 16"
  using unsigned_less [where 'a = nat, of b] by (simp add: less_mult_imp_div_less)

lemma hex_text_Cons: "concat (map hex2 (b # bs)) = hex_digit (unat b div 16) # hex_digit (unat b mod 16) # concat (map hex2 bs)"
  by (simp add: hex2_def)

lemma unhex_hex_text [simp]: "unhex (hex_text d) = take 32 d"
proof -
  have "unhex (concat (map hex2 d)) = d" for d
  proof (induction d)
    case (Cons b d)
    then show ?case
      unfolding hex_text_Cons by (simp add: hex_digit_value unat_byte_div)
  qed simp
  then show ?thesis by (simp add: hex_text_def)
qed

lemma hex_text_plain: "list_all plain_char (hex_text d)" "CHR '' '' \<notin> set (hex_text d)" "length (hex_text d) \<le> 64"
proof -
  have "list_all plain_char (concat (map hex2 d)) \<and> CHR '' '' \<notin> set (concat (map hex2 d)) \<and>
      length (concat (map hex2 d)) = 2 * length d" for d
  proof (induction d)
    case (Cons b d)
    then show ?case
      unfolding hex_text_Cons using hex_digit_value [OF unat_byte_div [of b]] hex_digit_value [of "unat b mod 16"] by auto
  qed simp
  then show "list_all plain_char (hex_text d)" "CHR '' '' \<notin> set (hex_text d)" "length (hex_text d) \<le> 64"
    by (simp_all add: hex_text_def)
qed

section \<open>The summary as JSON\<close>

definition summary_json :: "report_env \<Rightarrow> dd_stats \<Rightarrow> byte list option \<Rightarrow> dd_hash_algo \<Rightarrow> int \<Rightarrow> json" where
  "summary_json E st dig algo now =
     JObj
      [(''event'', JStr ''finished''), (''copied_bytes'', JNum (fmt_jd (w_bytes st))),
       (''records_in'', JObj [(''full'', JNum (fmt_jd (r_full st))), (''partial'', JNum (fmt_jd (r_partial st))),
                              (''truncated'', JNum (fmt_jd (r_truncate st)))]),
       (''records_out'', JObj [(''full'', JNum (fmt_jd (w_full st))), (''partial'', JNum (fmt_jd (w_partial st)))]),
       (''elapsed_s'', JNum (format_json_double E (delta_secs st now) 4)),
       (''avg_speed_bps'', JNum (format_json_double E (speed_bps st now) 0)),
       (''pipeline'', if 0 < async_capacity st
                      then JObj [(''capacity'', JNum (fmt_zu (async_capacity st))),
                                 (''reader_stalls'', JNum (fmt_zu (async_reader_stalls st))),
                                 (''writer_stalls'', JNum (fmt_zu (async_writer_stalls st)))]
                      else JNull),
       (''checksum'', case dig of
                        Some d \<Rightarrow> JObj [(''algorithm'', JStr (algo_name algo)), (''digest'', JStr (digest_text E algo d))]
                      | None \<Rightarrow> JNull),
       (''sha256'', case dig of Some d \<Rightarrow> JStr (digest_text E algo d) | None \<Rightarrow> JNull)]"

lemma fmt_zu_jd: "fmt_zu i = fmt_jd (i mod 18446744073709551616)"
  by (simp add: fmt_zu_def fmt_jd_def)

lemma length_fmt_zu: "length (fmt_zu i) \<le> 20"
  unfolding fmt_zu_def by (rule length_digits) (simp_all add: nat_less_iff less_trans [OF pos_mod_bound])

text \<open>The digest's text is 64 plain characters at most; so is that of the library for BLKS.\<close>

definition digest_plain :: "report_env \<Rightarrow> dd_hash_algo \<Rightarrow> byte list option \<Rightarrow> bool" where
  "digest_plain E algo dig \<longleftrightarrow>
     (case dig of None \<Rightarrow> True
      | Some d \<Rightarrow> algo = HASH_ALGO_BLKS \<longrightarrow> list_all plain_char (base64 E d) \<and> length (base64 E d) \<le> 64)"

lemma digest_text_plain:
  "digest_plain E algo (Some d) \<Longrightarrow> list_all plain_char (digest_text E algo d) \<and> length (digest_text E algo d) \<le> 64"
  by (simp add: digest_plain_def digest_text_def hex_text_plain)

lemma summary_text:
  assumes "digest_plain E algo dig"
  shows "dd_print_json_summary_ext E st dig algo now = json_text (summary_json E st dig algo now) @ [CHR 0x0A]"
proof -
  have p: "pipeline_buf st = (if 0 < async_capacity st
      then ''{\"capacity\":'' @ fmt_zu (async_capacity st) @ '',\"reader_stalls\":'' @ fmt_zu (async_reader_stalls st) @
        '',\"writer_stalls\":'' @ fmt_zu (async_writer_stalls st) @ ''}'' else ''null'')"
    using length_fmt_zu [of "async_capacity st"] length_fmt_zu [of "async_reader_stalls st"]
      length_fmt_zu [of "async_writer_stalls st"]
    unfolding pipeline_buf_def by (intro take_all) simp
  have c: "checksum_obj E algo dig = (case dig of
      Some d \<Rightarrow> ''{\"algorithm\":\"'' @ algo_name algo @ ''\",\"digest\":\"'' @ digest_text E algo d @ ''\"}'' | None \<Rightarrow> ''null'')"
  proof (cases dig)
    case (Some d)
    then have "length (digest_text E algo d) \<le> 64" using assms digest_text_plain by blast
    moreover have "length (algo_name algo) \<le> 6" by (simp add: algo_name_def)
    ultimately show ?thesis unfolding checksum_obj_def Some option.case by (intro take_all) simp
  qed (simp add: checksum_obj_def)
  show ?thesis
    unfolding dd_print_json_summary_ext_def p c summary_json_def by (simp split: option.split)
qed

lemma summary_ok:
  assumes "dot_or_comma E" "stats_in_range st now" "digest_plain E algo dig"
  shows "json_ok (summary_json E st dig algo now)"
proof -
  have d: "list_all plain_char (digest_text E algo d)" if "dig = Some d" for d
    using that assms(3) digest_text_plain by blast
  note num = int_number format_json_double_text [OF assms(1) conjunct1 [OF delta_range] conjunct2 [OF delta_range], OF assms(2,2), of 4]
    format_json_double_text [OF assms(1) conjunct1 [OF speed_range] conjunct2 [OF speed_range], OF assms(2,2), of 0]
  show ?thesis
    unfolding summary_json_def using num d by (simp add: fmt_zu_jd algo_name_def split: option.split)
qed

text \<open>What is read at a path: a number, a string.\<close>

definition json_num :: "string list \<Rightarrow> json \<Rightarrow> rat option" where
  "json_num ks v = (case json_at ks v of Some (JNum t) \<Rightarrow> Some (number_value t) | _ \<Rightarrow> None)"

definition json_str :: "string list \<Rightarrow> json \<Rightarrow> string option" where
  "json_str ks v = (case json_at ks v of Some (JStr s) \<Rightarrow> Some s | _ \<Rightarrow> None)"

text \<open>The counters, exactly, and the time and the speed, rounded to the decimals printed.\<close>

definition counters_read :: "dd_stats \<Rightarrow> json \<Rightarrow> bool" where
  "counters_read st v \<longleftrightarrow>
     json_num [''copied_bytes''] v = Some (of_int (w_bytes st)) \<and>
     json_num [''records_in'', ''full''] v = Some (of_int (r_full st)) \<and>
     json_num [''records_in'', ''partial''] v = Some (of_int (r_partial st)) \<and>
     json_num [''records_in'', ''truncated''] v = Some (of_int (r_truncate st)) \<and>
     json_num [''records_out'', ''full''] v = Some (of_int (w_full st)) \<and>
     json_num [''records_out'', ''partial''] v = Some (of_int (w_partial st))"

definition rates_read :: "string \<Rightarrow> nat \<Rightarrow> dd_stats \<Rightarrow> int \<Rightarrow> json \<Rightarrow> bool" where
  "rates_read speed_key n st now v \<longleftrightarrow>
     (case (json_num [''elapsed_s''] v, json_num [speed_key] v) of
        (Some t, Some r) \<Rightarrow> \<bar>t - delta_secs st now\<bar> \<le> 1 / (2 * 10 ^ n) \<and> \<bar>r - speed_bps st now\<bar> \<le> 1 / 2
      | _ \<Rightarrow> False)"

definition digest_read :: "report_env \<Rightarrow> byte list option \<Rightarrow> dd_hash_algo \<Rightarrow> json \<Rightarrow> bool" where
  "digest_read E dig algo v \<longleftrightarrow>
     (case dig of
        None \<Rightarrow> json_at [''checksum''] v = Some JNull
      | Some d \<Rightarrow>
          json_str [''checksum'', ''algorithm''] v = Some (algo_name algo) \<and>
          (if algo = HASH_ALGO_BLKS then json_str [''checksum'', ''digest''] v = Some (base64 E d)
           else map_option unhex (json_str [''checksum'', ''digest''] v) = Some (take 32 d)))"

lemmas json_reading = json_num_def json_str_def counters_read_def rates_read_def digest_read_def

text \<open>
  C12: The summary a program reads with \<open>--json\<close> is a JSON object, in a locale with a decimal point or a decimal
  comma; read back it gives every counter exactly, the time and the speed up to half of the last decimal printed, the
  name of the algorithm and the digest, bit for bit, or null without a digest. No buffer cuts a number or the digest.
\<close>

theorem json_summary_reads_back:
  assumes "dot_or_comma E" "stats_in_range st now" "digest_plain E algo dig"
  shows "\<exists>v. read_line (dd_print_json_summary_ext E st dig algo now) = Some v \<and>
    json_str [''event''] v = Some ''finished'' \<and> counters_read st v \<and>
    rates_read ''avg_speed_bps'' 4 st now v \<and> digest_read E dig algo v"
proof (intro exI conjI)
  let ?v = "summary_json E st dig algo now"
  show "read_line (dd_print_json_summary_ext E st dig algo now) = Some ?v"
    unfolding summary_text [OF assms(3)] by (rule read_line_text [OF summary_ok [OF assms]])
  show "json_str [''event''] ?v = Some ''finished''" "counters_read st ?v"
    by (simp_all add: json_reading summary_json_def int_number)
  show "rates_read ''avg_speed_bps'' 4 st now ?v"
    using format_json_double_text(3) [OF assms(1) conjunct1 [OF delta_range] conjunct2 [OF delta_range], OF assms(2,2), of 4]
      format_json_double_text(3) [OF assms(1) conjunct1 [OF speed_range] conjunct2 [OF speed_range], OF assms(2,2), of 0]
    by (simp add: json_reading summary_json_def)
  show "digest_read E dig algo ?v"
    by (cases dig) (simp_all add: json_reading summary_json_def digest_text_def)
qed

definition comma_env :: report_env where
  "comma_env = \<lparr>human = (\<lambda>n iec a b. fmt_jd n @ '' B''), base64 = (\<lambda>d. replicate 64 (CHR ''A'')), point = CHR '',''\<rparr>"

lemma json_summary_reads_back_witness:
  "\<exists>v. read_line (dd_print_json_summary_ext comma_env (stats0\<lparr>w_bytes := 5, w_partial := 1\<rparr>)
        (Some (replicate 32 7)) HASH_ALGO_BLAKE3 2500000000) = Some v \<and>
    json_num [''copied_bytes''] v = Some 5 \<and>
    map_option unhex (json_str [''checksum'', ''digest''] v) = Some (replicate 32 7)"
proof -
  have "dot_or_comma comma_env" "stats_in_range (stats0\<lparr>w_bytes := 5, w_partial := 1\<rparr>) 2500000000"
    "digest_plain comma_env HASH_ALGO_BLAKE3 (Some (replicate 32 7))"
    by (simp_all add: dot_or_comma_def comma_env_def stats_in_range_def stats0_def digest_plain_def)
  from json_summary_reads_back [OF this] show ?thesis
    by (auto simp: counters_read_def digest_read_def)
qed

section \<open>The progress as JSON\<close>

definition progress_json :: "report_env \<Rightarrow> dd_stats \<Rightarrow> int \<Rightarrow> int \<Rightarrow> json" where
  "progress_json E st tot now =
     JObj
      [(''event'', JStr ''progress''), (''copied_bytes'', JNum (fmt_jd (w_bytes st))),
       (''total_bytes'', if 0 < tot then JNum (fmt_jd tot) else JNull),
       (''percent'', if 0 < tot then JNum (format_json_double E (percent_done st tot) 2) else JNull),
       (''speed_bps'', JNum (format_json_double E (speed_bps st now) 0)),
       (''elapsed_s'', JNum (format_json_double E (delta_secs st now) 2)),
       (''eta_s'', if 0 < tot then JNum (format_json_double E (eta_secs st tot now) 1) else JNull)]"

lemma progress_text: "dd_print_json_progress E st tot now = json_text (progress_json E st tot now) @ [CHR 0x0A]"
  by (simp add: dd_print_json_progress_def progress_json_def Let_def)

lemma percent_range: "0 \<le> w_bytes st \<Longrightarrow> 0 < tot \<Longrightarrow> 0 \<le> percent_done st tot \<and> percent_done st tot \<le> 100"
  unfolding percent_done_def by (auto intro!: dbl_bounds(1) divide_nonneg_nonneg)

text \<open>
  The estimate is not bounded: a copy that has moved a byte in 300 years would need more digits than the buffer holds.
\<close>

theorem json_progress_reads_back:
  assumes "dot_or_comma E" "stats_in_range st now" "0 \<le> eta_secs st tot now" "eta_secs st tot now < 10 ^ 28"
  shows "\<exists>v. read_line (dd_print_json_progress E st tot now) = Some v \<and>
    json_num [''copied_bytes''] v = Some (of_int (w_bytes st)) \<and> rates_read ''speed_bps'' 2 st now v \<and>
    (if 0 < tot
     then json_num [''total_bytes''] v = Some (of_int tot) \<and>
       (\<exists>p. json_num [''percent''] v = Some p \<and> \<bar>p - percent_done st tot\<bar> \<le> 1 / 200) \<and>
       (\<exists>e. json_num [''eta_s''] v = Some e \<and> \<bar>e - eta_secs st tot now\<bar> \<le> 1 / 20)
     else json_at [''total_bytes''] v = Some JNull)"
proof (intro exI conjI)
  let ?v = "progress_json E st tot now"
  note d = format_json_double_text [OF assms(1) conjunct1 [OF delta_range] conjunct2 [OF delta_range], OF assms(2,2), of 2]
  note r = format_json_double_text [OF assms(1) conjunct1 [OF speed_range] conjunct2 [OF speed_range], OF assms(2,2), of 0]
  note e = format_json_double_text [OF assms(1,3,4), of 1]
  have w: "0 \<le> w_bytes st" using assms(2) by (simp add: stats_in_range_def)
  have p: "json_number (format_json_double E (percent_done st tot) 2)"
      "list_all number_char (format_json_double E (percent_done st tot) 2)"
      "\<bar>number_value (format_json_double E (percent_done st tot) 2) - percent_done st tot\<bar> \<le> 1 / (2 * 10 ^ 2)" if "0 < tot"
    using percent_range [OF w that] format_json_double_text [OF assms(1), of "percent_done st tot" 3 2] by simp_all
  have "json_ok ?v" using d r e p by (simp add: progress_json_def int_number)
  then show "read_line (dd_print_json_progress E st tot now) = Some ?v"
    unfolding progress_text by (rule read_line_text)
  show "json_num [''copied_bytes''] ?v = Some (of_int (w_bytes st))"
    by (simp add: json_reading progress_json_def int_number)
  show "rates_read ''speed_bps'' 2 st now ?v" using d(3) r(3) by (simp add: json_reading progress_json_def)
  show "if 0 < tot
     then json_num [''total_bytes''] ?v = Some (of_int tot) \<and>
       (\<exists>p. json_num [''percent''] ?v = Some p \<and> \<bar>p - percent_done st tot\<bar> \<le> 1 / 200) \<and>
       (\<exists>e. json_num [''eta_s''] ?v = Some e \<and> \<bar>e - eta_secs st tot now\<bar> \<le> 1 / 20)
     else json_at [''total_bytes''] ?v = Some JNull"
    using p(3) e(3) by (simp add: json_reading progress_json_def int_number)
qed

end
