(* ===== verification/TuiReport.thy ===== *)
theory TuiReport
  imports TuiMain ReportRead
begin

text \<open>
  The copy and the text interface that started it: what \<open>stats.c\<close> prints (theory Report) is what \<open>tui_main.c\<close> reads
  line by line (theory TuiMain).
\<close>

section \<open>The lines of an output\<close>

lemma fgets_append:
  assumes "z \<noteq> []" "last z = CHR 0x0A"
  shows "fgets sz (z @ y) = (fst (fgets sz z), snd (fgets sz z) @ y)"
proof -
  have nl: "CHR 0x0A \<in> set z" using assms last_in_set by metis
  then have "takeWhile (\<lambda>c. c \<noteq> CHR 0x0A) (z @ y) = takeWhile (\<lambda>c. c \<noteq> CHR 0x0A) z" by (simp add: takeWhile_append1)
  moreover have "length (takeWhile (\<lambda>c. c \<noteq> CHR 0x0A) z) < length z"
    using nl length_takeWhile_le [of "\<lambda>c. c \<noteq> CHR 0x0A" z] takeWhile_eq_all_conv [of "\<lambda>c. c \<noteq> CHR 0x0A" z]
    by (metis (mono_tags, lifting) le_neq_implies_less takeWhile_eq_take take_all_iff order_refl)
  ultimately show ?thesis by (simp add: fgets_def Let_def)
qed

lemma output_lines_append:
  "z = [] \<or> last z = CHR 0x0A \<Longrightarrow> output_lines (z @ y) = output_lines z @ output_lines y"
proof (induction z rule: output_lines.induct)
  case (1 z)
  show ?case
  proof (cases "z = []")
    case True
    then show ?thesis by (simp add: output_lines.simps [of "[]"])
  next
    case False
    obtain l r where f: "fgets 512 z = (l, r)" by fastforce
    then have "z = l @ r" by (auto simp: fgets_def Let_def)
    then have "r = [] \<or> last r = CHR 0x0A" using 1(2) False by (cases "r = []") auto
    then have "output_lines (r @ y) = output_lines r @ output_lines y" using 1(1) False f by simp
    moreover have "fgets 512 (z @ y) = (l, r @ y)" using fgets_append [OF False] 1(2) False f by simp
    ultimately show ?thesis
      using False f by (subst output_lines.simps) (simp add: output_lines.simps [of z])
  qed
qed

lemma output_lines_single:
  "CHR 0x0A \<notin> set s \<Longrightarrow> length s < 511 \<Longrightarrow> output_lines (s @ [CHR 0x0A]) = [s @ [CHR 0x0A]]"
  by (subst output_lines.simps) (simp add: fgets_def Let_def takeWhile_append output_lines.simps [of "[]"])

lemma output_lines_set: "l \<in> set (output_lines s) \<Longrightarrow> set l \<subseteq> set s"
proof (induction s rule: output_lines.induct)
  case (1 s)
  then show ?case
    by (subst (asm) (2) output_lines.simps) (auto simp: fgets_def Let_def split: if_splits dest!: in_set_takeD in_set_dropD)
qed

section \<open>The digest\<close>

definition digest_line :: "string \<Rightarrow> bool" where "digest_line l \<longleftrightarrow> take 8 l = ''sha256: ''"

lemma takeWhile_digest_line: "take 8 (takeWhile P l) = ''sha256: '' \<Longrightarrow> digest_line l"
proof -
  assume a: "take 8 (takeWhile P l) = ''sha256: ''"
  have "length (take 8 (takeWhile P l)) = 8" by (simp only: a) simp
  then have "8 \<le> length (takeWhile P l)" by (simp only: length_take min_def split: if_splits)
  then have "take 8 (takeWhile P l @ dropWhile P l) = take 8 (takeWhile P l)" by (subst take_append) simp
  then show ?thesis using a by (simp add: digest_line_def)
qed

lemma job_line_other: "\<not> digest_line l \<Longrightarrow> sha256_result (fst (job_line l st)) = sha256_result (fst st)"
  using takeWhile_digest_line [of "\<lambda>c. c \<noteq> CHR 0x0A" l]
  by (auto simp: job_line_def Let_def set_msg_def split: prod.split)

lemma job_lines_other:
  "list_all (\<lambda>l. \<not> digest_line l) ls \<Longrightarrow> sha256_result (fst (fold job_line ls st)) = sha256_result (fst st)"
  by (induction ls arbitrary: st) (simp_all add: job_line_other)

lemma job_line_digest:
  "CHR 0x0A \<notin> set s \<Longrightarrow> length s \<le> 64 \<Longrightarrow> sha256_result (fst (job_line (''sha256: '' @ s @ [CHR 0x0A]) st)) = s"
proof -
  assume s: "CHR 0x0A \<notin> set s" "length s \<le> 64"
  have "takeWhile (\<lambda>c. c \<noteq> CHR 0x0A) (s @ [CHR 0x0A]) = s" using s(1) by (simp add: takeWhile_append)
  then show ?thesis using s(2) by (simp add: job_line_def Let_def snprintf_def split: prod.split)
qed

lemma job_finished_digest: "sha256_result (job_finished status st) = sha256_result (fst st)"
  by (auto simp: job_finished_def Let_def set_msg_def split: prod.split)

text \<open>The rest of the report, and what is printed before it, that the line of the digest starts a line.\<close>

definition starts_line :: "string \<Rightarrow> bool" where "starts_line before \<longleftrightarrow> before = [] \<or> last before = CHR 0x0A"

definition clean_before :: "'h dd_context \<Rightarrow> string \<Rightarrow> bool" where
  "clean_before ctx before \<longleftrightarrow>
     (if is_json (cfg ctx) then starts_line before \<and> list_all (\<lambda>l. \<not> digest_line l) (output_lines before)
      else status_level (cfg ctx) = STATUS_NONE \<longrightarrow> starts_line before)"

lemma starts_line_append: "starts_line a \<Longrightarrow> starts_line b \<Longrightarrow> starts_line (a @ b)"
  by (cases "b = []") (auto simp: starts_line_def)

lemma starts_line_ln: "starts_line (a @ DryRun.ln s)"
  by (simp add: starts_line_def DryRun.ln_def)

lemma ends_lines:
  "starts_line (DryRun.ln s)" "starts_line []" "starts_line (fst (dd_print_xfer_stats E st False now))"
  by (simp_all add: starts_line_def DryRun.ln_def dd_print_xfer_stats_def Let_def)

lemma stats_text_digest:
  assumes "\<not> is_json (cfg ctx)" "sha_computed ctx" "ctx_hash_algo ctx = HASH_ALGO_SHA256" "clean_before ctx before"
  obtains z where "before @ stats_text E (ctx, k) = z @ ''sha256: '' @ hex_text (sha_digest ctx) @ [CHR 0x0A]" "starts_line z"
proof -
  have d: "dd_print_hash_algo E (sha_digest ctx) (ctx_hash_algo ctx) = ''sha256: '' @ hex_text (sha_digest ctx) @ [CHR 0x0A]"
    using assms(3) by (simp add: dd_print_hash_algo_def DryRun.ln_def)
  show ?thesis
  proof (cases "status_level (cfg ctx) = STATUS_NONE")
    case True
    then show ?thesis
      using assms d that [of before] by (simp add: stats_text_def Let_def clean_before_def)
  next
    case False
    define X where "X =
        (if r_truncate (stats ctx) \<noteq> 0
         then DryRun.ln (fmt_jd (r_truncate (stats ctx)) @
           (if r_truncate (stats ctx) = 1 then '' truncated record'' else '' truncated records'')) else []) @
        (if status_level (cfg ctx) \<noteq> STATUS_NOXFER
         then fst (dd_print_xfer_stats E (stats ctx\<lparr>progress_len := 0\<rparr>) False (fst (gethrxtime k))) else [])"
    define W where "W = before @ (if 0 < progress_len (stats ctx) then [CHR 0x0A] else []) @
        DryRun.ln (fmt_jd (r_full (stats ctx)) @ ''+'' @ fmt_jd (r_partial (stats ctx)) @ '' records in'') @
        DryRun.ln (fmt_jd (w_full (stats ctx)) @ ''+'' @ fmt_jd (w_partial (stats ctx)) @ '' records out'')"
    have "starts_line X" unfolding X_def by (intro starts_line_append) (simp_all add: ends_lines)
    moreover have "starts_line W" unfolding W_def by (simp only: append_assoc [symmetric] starts_line_ln)
    ultimately have "starts_line (W @ X)" by (rule starts_line_append [rotated])
    moreover have "before @ stats_text E (ctx, k) = (W @ X) @ ''sha256: '' @ hex_text (sha_digest ctx) @ [CHR 0x0A]"
      using assms(1,2) False by (simp add: stats_text_def Let_def d X_def W_def)
    ultimately show ?thesis using that by blast
  qed
qed

text \<open>The JSON summary has no blank, so none of its lines is taken for the line of the digest.\<close>

lemma digits_no_blank: "CHR '' '' \<notin> set (digits n)"
proof -
  have "\<not> is_digit CHR '' ''" by (simp add: is_digit_def)
  then show ?thesis using digits_are [of n] unfolding list_all_iff by blast
qed

lemma fmt_no_blank: "CHR '' '' \<notin> set (fmt_jd i)" "CHR '' '' \<notin> set (fmt_zu i)"
  by (auto simp: fmt_jd_def fmt_zu_def digits_no_blank)

lemma json_double_no_blank: "point E \<noteq> CHR '' '' \<Longrightarrow> CHR '' '' \<notin> set (format_json_double E x n)"
  by (auto simp: format_json_double_def fmt_f_def fixed_digits_def pad_left_def digits_no_blank split: if_splits dest!: in_set_takeD)

lemma summary_no_blank:
  assumes "point E \<noteq> CHR '' ''" "algo \<noteq> HASH_ALGO_BLKS"
  shows "CHR '' '' \<notin> set (dd_print_json_summary_ext E st dig algo now)"
proof -
  have p: "CHR '' '' \<notin> set (pipeline_buf st)"
    by (auto simp: pipeline_buf_def fmt_no_blank dest!: in_set_takeD)
  have c: "CHR '' '' \<notin> set (checksum_obj E algo dig)"
    using assms(2) hex_text_plain(2) by (auto simp: checksum_obj_def algo_name_def digest_text_def dest!: in_set_takeD split: option.splits)
  show ?thesis
    using assms hex_text_plain(2) by (auto simp: dd_print_json_summary_ext_def p c fmt_no_blank json_double_no_blank digest_text_def split: option.splits)
qed

lemma no_blank_lines: "CHR '' '' \<notin> set s \<Longrightarrow> list_all (\<lambda>l. \<not> digest_line l) (output_lines s)"
proof -
  assume s: "CHR '' '' \<notin> set s"
  have "CHR '' '' \<in> set l" if "digest_line l" for l
    using that in_set_takeD [of "CHR '' ''" 8 l] by (simp add: digest_line_def)
  then show ?thesis using s output_lines_set by (fastforce simp: list_all_iff)
qed

text \<open>
  C16: The text interface shows the digest the copy it started has computed: of all the program prints, whatever comes
  before its final report, the interface takes the 64 hexadecimal digits of the SHA-256 digest, for every kind of report
  but JSON, with which no line begins as the interface expects and the field of the digest stays empty.
\<close>

theorem tui_shows_digest:
  assumes "run_job form w = Fin form' w'"
    and "w_run w (length (w_log w)) (full_cmd form w) = Some (before @ stats_text E (ctx, k), status)"
    and "sha_computed ctx" "ctx_hash_algo ctx = HASH_ALGO_SHA256" "clean_before ctx before" "point E \<noteq> CHR '' ''"
  shows "sha256_result form' = (if is_json (cfg ctx) then [] else hex_text (sha_digest ctx))"
proof -
  obtain form0 where f: "form' = job_finished status (fold job_line (output_lines (before @ stats_text E (ctx, k))) (form0, []))"
      and f0: "sha256_result form0 = []"
    using assms(1,2) by (auto simp: run_job_def popen_read_def Let_def split: option.splits)
  show ?thesis
  proof (cases "is_json (cfg ctx)")
    case True
    let ?t = "stats_text E (ctx, k)"
    have "CHR '' '' \<notin> set ?t"
      using True assms(4,6) summary_no_blank by (simp add: stats_text_def Let_def)
    then have "list_all (\<lambda>l. \<not> digest_line l) (output_lines (before @ ?t))"
      using assms(5) True no_blank_lines by (simp add: clean_before_def starts_line_def output_lines_append)
    then show ?thesis using True f0 by (simp add: f job_finished_digest job_lines_other)
  next
    case False
    obtain z where z: "before @ stats_text E (ctx, k) = z @ ''sha256: '' @ hex_text (sha_digest ctx) @ [CHR 0x0A]" "starts_line z"
      using stats_text_digest [OF False assms(3-5)] .
    have "\<not> plain_char CHR 0x0A" by (simp add: plain_char_def)
    then have h: "CHR 0x0A \<notin> set (hex_text (sha_digest ctx))" "length (hex_text (sha_digest ctx)) \<le> 64"
      using hex_text_plain [of "sha_digest ctx"] unfolding list_all_iff by blast+
    let ?l = "''sha256: '' @ hex_text (sha_digest ctx) @ [CHR 0x0A]"
    have "output_lines ?l = [?l]" using output_lines_single [of "''sha256: '' @ hex_text (sha_digest ctx)"] h by simp
    then have "output_lines (before @ stats_text E (ctx, k)) = output_lines z @ [?l]"
      unfolding z(1) using output_lines_append [of z ?l] z(2) unfolding starts_line_def by argo
    then have "sha256_result form' = sha256_result (fst (job_line ?l (fold job_line (output_lines z) (form0, []))))"
      by (simp add: f job_finished_digest)
    then show ?thesis using False job_line_digest [OF h] by (simp only: if_False)
  qed
qed

definition hashed_ctx :: "byte list dd_context" where
  "hashed_ctx = (ctx0 [] 4096 dd_init_default_config)
     \<lparr>sha_computed := True, ctx_hash_algo := HASH_ALGO_SHA256, sha_digest := replicate 32 7\<rparr>"

definition world_hashed :: tui_world where
  "world_hashed = (world_ab [] [])\<lparr>w_run := (\<lambda>_ _. Some (stats_text comma_env (hashed_ctx, file_to_file [1]), 0))\<rparr>"

lemma tui_shows_digest_witness:
  "\<exists>form' w'. run_job form_ab world_hashed = Fin form' w' \<and> sha256_result form' = hex_text (replicate 32 7)"
proof -
  have r: "w_run world_hashed (length (w_log world_hashed)) (full_cmd form_ab world_hashed) =
      Some ([] @ stats_text comma_env (hashed_ctx, file_to_file [1]), 0)"
    by (simp add: world_hashed_def)
  then obtain form' w' where "run_job form_ab world_hashed = Fin form' w'"
    by (simp add: run_job_def popen_read_def Let_def)
  moreover have "sha_computed hashed_ctx" "ctx_hash_algo hashed_ctx = HASH_ALGO_SHA256" "point comma_env \<noteq> CHR '' ''"
      "\<not> is_json (cfg hashed_ctx)" "sha_digest hashed_ctx = replicate 32 7" "clean_before hashed_ctx []"
    by (simp_all add: hashed_ctx_def comma_env_def ctx0_def is_json_def dd_init_default_config_def clean_before_def starts_line_def)
  ultimately show ?thesis using tui_shows_digest [OF _ r] by auto
qed

end
