(* ===== verification/BlkcpMain.thy ===== *)
theory BlkcpMain
  imports ExecuteCorrect TuiReport
begin

text \<open>
  The entry point, \<open>main\<close> of \<open>src/src/blkcp.c\<close>: the defaults, the command line, the copy, the exit status; and the whole
  way from the form of the text interface through its command line and the parser to the file that is written.
\<close>

section \<open>main\<close>

text \<open>
  \<open>getopt\<close> is \<open>getopt_long\<close> over the arguments; \<open>h\<close> the zeroed hasher of the static context. \<open>Inl\<close>: the ways the
  parser ends the program.
\<close>

definition blkcp_main ::
  "nat \<Rightarrow> nat \<Rightarrow> guard_env \<Rightarrow> 'h hash_api \<Rightarrow> 'h \<Rightarrow> (string list \<Rightarrow> (optcode \<times> string option) list \<times> string list)
     \<Rightarrow> xstrtoumax \<Rightarrow> string list \<Rightarrow> kern \<Rightarrow> arg_exit + (int, 'h) run" where
  "blkcp_main n page G H h getopt xs argv k =
     (case getopt (tl argv) of
        (opts, operands) \<Rightarrow>
          (case dd_scanargs xs opts operands dd_init_default_config of
             Inl x \<Rightarrow> Inl x
           | Inr (c, warn, use_fullblock) \<Rightarrow>
               Inr (run_bind (dd_execute n G H ((ctx0 h page c)\<lparr>warn_partial_read := warn, iread_fnc := use_fullblock\<rparr>, k))
                      (\<lambda>exit_status w. case w of (ctx, k) \<Rightarrow> Ret exit_status (dd_context_free ctx, k)))))"

lemma free_frame:
  "stats (dd_context_free ctx) = stats ctx" "cfg (dd_context_free ctx) = cfg ctx"
  "sha_computed (dd_context_free ctx) = sha_computed ctx" "sha_digest (dd_context_free ctx) = sha_digest ctx"
  by (simp_all add: dd_context_free_def Let_def split: obuf_ptr.split option.split)

lemma file_copied_free:
  "file_copied H c source old (ctx, k) \<Longrightarrow> file_copied H c source old (dd_context_free ctx, k)"
  using digest_of_cong [of "dd_context_free ctx" ctx H c] by (simp add: file_copied_def free_frame)

lemma fresh_ctx0: "fresh_run ((ctx0 h page c)\<lparr>warn_partial_read := a, iread_fnc := b\<rparr>, k)"
  by (simp add: fresh_run_def ctx0_def stats0_def)

section \<open>From the form to the file\<close>


text \<open>The form as it comes up, with the two paths filled in: the block size is tuned.\<close>

definition form_files :: tui_form where
  "form_files = tui_init_form\<lparr>if_path := ''a'', of_path := ''b''\<rparr>"


end
