(* ===== verification/Spec2Isabelle.thy ===== *)
theory Spec2Isabelle
  imports Args TargetSafety CopyErrors BlkcpMain
begin

text \<open>
  A verification development of blkcp, a block copier in C with several copy engines and a text interface.
  The program's own code is in \<open>src/src\<close> and \<open>src/src/tui\<close>; these theories translate it function by function and
  prove what makes it correct.

  \<^bold>\<open>The program and its parts.\<close> A run reads its command line into a configuration (\<open>args.c\<close>), opens the source as
  standard input and, once a guard has looked at it, the target as standard output, skips and seeks, chooses one
  of five drivers, and calls its \<open>step\<close> until it reports the end of the input (\<open>io_engine.c\<close>); it then flushes the
  driver, finishes the digest, synchronises the target and reports. The drivers share one interface
  (\<open>io_driver.h\<close>): block by block with autotuning (\<open>io_sync.c\<close>), \<open>copy_file_range\<close> (\<open>io_reflink.c\<close>), \<open>splice\<close>
  (\<open>io_splice.c\<close>), a reader thread with a ring buffer (\<open>io_async.c\<close>) and \<open>io_uring\<close> with one ring or with worker
  threads (\<open>io_uring.c\<close>). What they have in common is in \<open>io_engine.c\<close> and \<open>conversions.c\<close>. The text interface
  (\<open>tui/\<close>) fills a form, turns it into a command line of the program and runs that through the shell.

  \<^bold>\<open>How the code is modelled.\<close> State is passed explicitly. The type \<open>'h st\<close> pairs \<open>dd_context\<close> (the C struct of the
  same name, theory Context) with \<open>kern\<close> (theory Kernel): the two descriptors with their data, offsets, types and
  flags, what has been printed, and the answers still to come. The kernel, the clock, the scheduler and every
  library call that may fail are demons: each call takes its answer (so many bytes, an errno, a signal, a choice
  of thread, a batch of completions) from a list in the state, and does all that was asked once the list is
  empty. A theorem that holds for every state therefore holds for every schedule of short transfers, errors,
  signals and thread switches. \<open>None\<close>, \<open>Undefd\<close> and \<open>Bad\<close> are accesses outside a buffer or array; \<open>Exits\<close>,
  \<open>Killed\<close> and \<open>Ret\<close> are the ways a run ends. Integers are \<open>int\<close> with their 64-bit overflow written out where
  the code checks it, masks are 32-bit words, bytes 8-bit words; a double is the rational it stands for, rounded to 53 bits. Digests, \<open>getopt_long\<close>, \<open>xstrtoumax\<close>, the
  shell, \<open>qsort\<close>, \<open>human_readable\<close> and the file system of the dialogs are arguments, with what the code relies on as named
  hypotheses (\<open>hash_stream\<close>, \<open>gnu_getopt\<close>, \<open>posix_shell\<close>, \<open>qsort_ok\<close>), each of which has a concrete instance.

  \<^bold>\<open>The theories.\<close>
  \<^item> Blkcp_Prelude: checked arithmetic, exit codes, errno, masks, positioned writes, the collections of hints.
  \<^item> Config (\<open>blkcp_config.h\<close>): flags, configuration, statistics. Context (\<open>io_engine.c\<close>, \<open>stats.c\<close>): the context,
    its buffers, diagnostics and reports, cache advice. Kernel: the system calls.
  \<^item> Args (\<open>args.c\<close>): \<open>parse_integer\<close>, one option, the loop, the operands, the resolution of counts.
  \<^item> Swab (\<open>conversions.c\<close>): the scalar and the vector routine and the carry of an odd byte between blocks.
  \<^item> EngineIO (\<open>io_engine.c\<close>): \<open>dd_iread\<close>, \<open>dd_iwrite\<close>, \<open>dd_copy_simple\<close>, \<open>dd_write_output\<close>, holes.
  \<^item> Driver (\<open>io_driver.h\<close>, the probes of \<open>io_engine.c\<close>): the result of a step and the locale \<open>io_driver\<close>, the contract
    of all drivers. SyncDriver, ReflinkDriver, SpliceDriver, AsyncDriver, UringShards, UringDriver: one file each;
    UringContract: that the single ring keeps the contract. DriverSelect: the choice and the table of drivers.
  \<^item> CopyLoop (\<open>dd_copy\<close>, \<open>signals.c\<close>), CopyCorrect (that it copies, whichever driver), CopyErrors (runs that report
    success although something went wrong).
  \<^item> TargetSafety (the guard), DryRun (\<open>dd_execute_dry_run\<close>), Execute (\<open>dd_execute\<close>: opening, synchronising,
    closing), ExecuteCorrect (the whole run from file to file).
  \<^item> Report (\<open>stats.c\<close>): the text of the reports; ReportRead: a JSON reader, and that it reads them back.
  \<^item> TuiForm (\<open>tui_render.h\<close>, \<open>tui_nav.c\<close>, \<open>tui_build_command\<close>), TuiCommand (that command line read back),
    TuiDevice (\<open>tui_device.c\<close>), TuiPicker (\<open>tui_file_picker.c\<close>), TuiMain (\<open>tui_main.c\<close>), TuiReport (what the interface
    makes of the copy's report).
  \<^item> BlkcpMain (\<open>main\<close> of \<open>blkcp.c\<close>): the parser and the run in one, and the way from a form to the file written.

  \<^bold>\<open>Interfaces as locales.\<close> \<open>io_driver\<close> (Driver) states what a step promises: it is defined, it moves the next bytes and
  counts them, it makes progress, it falls back only with the descriptors in place; the loop's lemmas are proved
  once there, and \<open>sync\<close>, \<open>async\<close>, \<open>reflink\<close>, \<open>splice\<close> and \<open>uring\<close> interpret it. Its parameter \<open>eff\<close> is the
  kernel with the offsets a driver works at and with what it has in flight carried out, \<open>moved\<close> the count with
  what is in flight, \<open>left\<close> the measure of the steps still to come. \<open>copy_driver\<close> (CopyCorrect) extends it by what
  \<open>dd_copy\<close> does around a step, signals, reports and digests; \<open>any\<close> interprets it for the table of all drivers.
  \<open>bounded_queue\<close> (AsyncDriver) is the contract of the ring buffer, interpreted by \<open>ring\<close>.

  \<^bold>\<open>What is proved.\<close>
  \<^item> The copy: each driver delivers exactly the next bytes of the source, in order, for every schedule; \<open>dd_copy\<close> does,
    whichever driver it selects and also when one refuses or hands over; \<open>dd_execute\<close> does, from file to
    file, with the digest of exactly these bytes, and with the target on stable storage if that was asked for; and so does
    \<open>main\<close> with the command line of a form of the text interface.
    The sharded mode puts every byte in its place under every interleaving of its workers, and ends.
  \<^item> The routines beneath: writing with retries and holes, byte swapping by vectors and by bytes, the ring buffer as a
    queue, limits never overrun, autotuning that settles, the reader thread joined.
  \<^item> Safety: the guard refuses mounted disks, and \<open>dd_execute\<close> opens no target it refuses; the text interface asks before
    it writes to a device, and its list of devices tags what the guard refuses; a simulation writes nothing.
  \<^item> Interfaces: options in range, the dry run naming the driver that would be used, the command line of the form
    read back as its configuration, the JSON summary read back as counters, time and digest, the digest shown by the
    interface that started the copy, the dialogs within their arrays, every field reached by the arrow keys.
  \<^item> Errors of the code, as theorems about concrete or general runs; the findings of the manifest list them.

  \<^bold>\<open>Bounds and fuel.\<close> \<open>dd_copy\<close> and \<open>dd_execute\<close> take a number of rounds for the copy loop; \<open>fuel\<close> (twice the bytes of
  the source, the answers of \<open>copy_file_range\<close> and \<open>splice\<close> and the completions still to come, and one) is
  enough, because every round moves a byte or uses up an answer, and a zero-copy driver may hand over once. The
  theorems prove that with more than that the loop ends; retry loops have measures of their own. Cleanup lets a thread
  make four micro-steps, which bring it to its end; a turn of the scheduler is as long as it says. The text interface
  runs as many turns as there are keys, and one more.

  \<^bold>\<open>Assumptions.\<close> Linux on x86-64 with the flag values of its headers; the C locale; \<open>HAVE_BLKS\<close> set; source and
  target are different files that nobody else changes; reads of a block device or file give what the data are;
  \<open>pthread_create\<close> of the shards succeeds and a submission queue has an entry left. That \<open>dd_copy\<close> copies is stated
  for a verbatim copy (no \<open>--swab\<close>, \<open>--sync\<close>, \<open>--noerror\<close>, which have theorems of their own), with \<open>--autotune\<close> for the driver that
  tunes the block size, where a record limit given in bytes is rescaled as it does (\<open>rescaled\<close>), and not for
  the sharded mode, whose workers the loop only watches; with the single ring, requests are carried out in full.

  \<^bold>\<open>Not modelled.\<close> The drawing of the text interface (\<open>tui_render\<close> and the ncurses calls around the keys), which keeps
  no state; \<open>tui_format_size\<close>, a rounded number on the screen; the text of \<open>usage\<close>; setting up locale, signal
  handlers and \<open>atexit\<close>; in the events of the run the reports are their counters, whose text is theory Report; the vendored headers under \<open>src/include\<close>; the digest libraries and the Rust core, which are
  other languages or binaries; build files, packaging, completions and tests, which are not code of the program.
\<close>

end
